(* ===== verification/Js_Prelude.thy ===== *)
theory Js_Prelude
  imports Main "HOL-Library.Sublist"
begin

text \<open>
  Shared vocabulary of the development: JavaScript strings as lists of UTF-16 code units, the
  string and array operations of the language that the sources use (\<open>split\<close>, \<open>join\<close>, \<open>trim\<close>,
  \<open>splice\<close>, decimal printing and \<open>parseInt\<close>), and the generic lemmas on lists that the components
  rely on.  The collection \<open>js_eval\<close> holds the equations that evaluate literals, so a
  concrete input is run by \<open>simp add: js_eval\<close>.

  A string literal of the source is written \<open>js ''abc''\<close>; code units outside Latin-1 are written
  as numbers.  Line numbers, counters and array indices are natural numbers: the sources keep
  them far below \<open>2^53\<close>, where a JavaScript number is an exact integer.  Where an index of the
  source may be negative the model uses \<open>int\<close>.
\<close>

named_theorems js_eval \<open>equations that evaluate literals and library calls\<close>

type_synonym jstr = "nat list"

definition js :: "string \<Rightarrow> jstr" where
  "js s = map of_char s"

lemma js_Nil [simp]: "js [] = []"
  by (simp add: js_def)

lemma js_Cons [js_eval]: "js (c # cs) = of_char c # js cs"
  by (simp add: js_def)

lemma js_append: "js (s @ t) = js s @ js t"
  by (simp add: js_def)

section \<open>Sets and maps\<close>

text \<open>A JavaScript \<open>Set\<close> keeps insertion order; \<open>set_add\<close> is \<open>Set.add\<close> and \<open>AList.update\<close> is \<open>Map.set\<close>.\<close>

definition set_add :: "'a \<Rightarrow> 'a list \<Rightarrow> 'a list" where
  "set_add x xs = (if x \<in> set xs then xs else xs @ [x])"

lemma set_set_add [simp]: "set (set_add x xs) = insert x (set xs)"
  by (auto simp: set_add_def)

lemma distinct_set_add [simp]: "distinct xs \<Longrightarrow> distinct (set_add x xs)"
  by (auto simp: set_add_def)

lemma set_fold_set_add [simp]: "set (fold set_add ys xs) = set ys \<union> set xs"
  by (induction ys arbitrary: xs) auto

lemma distinct_fold_set_add [simp]: "distinct xs \<Longrightarrow> distinct (fold set_add ys xs)"
  by (induction ys arbitrary: xs) auto

section \<open>White space and trimming\<close>

text \<open>The white space and line terminator characters of ECMAScript: the set that \<open>\s\<close> matches and
  that \<open>trim\<close>, \<open>trimStart\<close> and \<open>trimEnd\<close> remove.\<close>

definition is_ws :: "nat \<Rightarrow> bool" where
  "is_ws c \<longleftrightarrow> (9 \<le> c \<and> c \<le> 13) \<or> c = 32 \<or> c = 160 \<or> c = 5760 \<or> (8192 \<le> c \<and> c \<le> 8202)
     \<or> c = 8232 \<or> c = 8233 \<or> c = 8239 \<or> c = 8287 \<or> c = 12288 \<or> c = 65279"

definition is_digit :: "nat \<Rightarrow> bool" where
  "is_digit c \<longleftrightarrow> 48 \<le> c \<and> c \<le> 57"

definition is_lower :: "nat \<Rightarrow> bool" where
  "is_lower c \<longleftrightarrow> 97 \<le> c \<and> c \<le> 122"

definition trimStart :: "jstr \<Rightarrow> jstr" where
  "trimStart s = dropWhile is_ws s"

definition trimEnd :: "jstr \<Rightarrow> jstr" where
  "trimEnd s = rev (dropWhile is_ws (rev s))"

definition trim :: "jstr \<Rightarrow> jstr" where
  "trim s = trimEnd (trimStart s)"

lemma is_ws_digit [simp]: "is_digit c \<Longrightarrow> \<not> is_ws c"
  by (auto simp: is_digit_def is_ws_def)

lemma is_ws_lower [simp]: "is_lower c \<Longrightarrow> \<not> is_ws c"
  by (auto simp: is_lower_def is_ws_def)

lemma is_lower_digit [simp]: "is_lower c \<Longrightarrow> \<not> is_digit c"
  by (auto simp: is_lower_def is_digit_def)

lemma trimEnd_Nil [simp]: "trimEnd [] = []"
  by (simp add: trimEnd_def)

lemma trimEnd_snoc [simp]: "trimEnd (s @ [c]) = (if is_ws c then trimEnd s else s @ [c])"
  by (simp add: trimEnd_def)

lemma trimEnd_idem [simp]: "trimEnd (trimEnd s) = trimEnd s"
  by (induction s rule: rev_induct) auto

lemma trimEnd_eq_Nil: "trimEnd s = [] \<longleftrightarrow> (\<forall>c \<in> set s. is_ws c)"
  by (induction s rule: rev_induct) auto

lemma trimEnd_prefix: "prefix (trimEnd s) s"
proof (induction s rule: rev_induct)
  case (snoc c s)
  then show ?case by (auto intro: prefix_order.trans)
qed simp

lemma trimEnd_Cons: "trimEnd (c # s) = (if trimEnd s = [] \<and> is_ws c then [] else c # trimEnd s)"
proof (induction s rule: rev_induct)
  case Nil
  then show ?case using trimEnd_snoc [of "[]" c] by simp
next
  case (snoc x s)
  then show ?case using trimEnd_snoc [of "c # s" x] by simp
qed

lemma trim_eq_Nil: "trim s = [] \<longleftrightarrow> (\<forall>c \<in> set s. is_ws c)"
  unfolding trim_def trimStart_def trimEnd_eq_Nil
  by (metis dropWhile_eq_Nil_conv in_set_conv_decomp_first list.set_intros(1) set_dropWhileD
      hd_dropWhile list.set_sel(1))

section \<open>Splitting and joining\<close>

text \<open>\<open>s.split(c)\<close> for a one-character separator: never the empty list.\<close>

fun split_on :: "nat \<Rightarrow> jstr \<Rightarrow> jstr list" where
  "split_on c [] = [[]]"
| "split_on c (x # xs) =
     (if x = c then [] # split_on c xs
      else (case split_on c xs of [] \<Rightarrow> [[x]] | l # ls \<Rightarrow> (x # l) # ls))"

text \<open>\<open>ls.join(sep)\<close>.\<close>

fun join_with :: "jstr \<Rightarrow> jstr list \<Rightarrow> jstr" where
  "join_with sep [] = []"
| "join_with sep [l] = l"
| "join_with sep (l # ls) = l @ sep @ join_with sep ls"

text \<open>\<open>s.split(/\r?\n/)\<close>: a line feed ends a line together with one carriage return before it.\<close>

definition strip_cr :: "jstr \<Rightarrow> jstr" where
  "strip_cr l = (if l \<noteq> [] \<and> last l = 13 then butlast l else l)"

definition split_crlf :: "jstr \<Rightarrow> jstr list" where
  "split_crlf s = (let ls = split_on 10 s in map strip_cr (butlast ls) @ [last ls])"

lemma split_on_not_Nil [simp]: "split_on c s \<noteq> []"
  by (cases s) (auto split: list.splits)

lemma split_on_length_pos [simp]: "0 < length (split_on c s)"
  by simp

lemma join_with_Cons: "ls \<noteq> [] \<Longrightarrow> join_with sep (l # ls) = l @ sep @ join_with sep ls"
  by (cases ls) auto

lemma join_split [simp]: "join_with [c] (split_on c s) = s"
proof (induction s)
  case (Cons x xs)
  obtain l ls where "split_on c xs = l # ls"
    by (cases "split_on c xs") auto
  with Cons show ?case
    by (cases ls) (auto simp: join_with_Cons)
qed simp

lemma split_on_free [simp]: "c \<notin> set l \<Longrightarrow> split_on c l = [l]"
  by (induction l) auto

lemma split_on_append:
  "c \<notin> set l \<Longrightarrow> split_on c (l @ c # s) = l # split_on c s"
  by (induction l) auto

lemma split_on_sep_free: "l \<in> set (split_on c s) \<Longrightarrow> c \<notin> set l"
  by (induction s arbitrary: l) (auto split: if_splits list.splits)

lemma split_join:
  "ls \<noteq> [] \<Longrightarrow> (\<And>l. l \<in> set ls \<Longrightarrow> c \<notin> set l) \<Longrightarrow> split_on c (join_with [c] ls) = ls"
proof (induction "[c]" ls rule: join_with.induct)
  case (3 l l' ls)
  then have "split_on c (join_with [c] (l' # ls)) = l' # ls" and "c \<notin> set l" by auto
  then show ?case by (simp add: split_on_append)
qed auto

lemma split_on_snoc: "split_on c (s @ [c]) = split_on c s @ [[]]"
proof (induction s)
  case (Cons x s)
  obtain l ls where "split_on c s = l # ls" by (cases "split_on c s") auto
  with Cons show ?case by auto
qed simp

text \<open>\<open>s.includes(pat)\<close>, and \<open>s.split(pat)\<close> for a separator of two code units, scanned from the left
  without overlap.\<close>

fun str_includes :: "jstr \<Rightarrow> jstr \<Rightarrow> bool" where
  "str_includes pat [] = (pat = [])"
| "str_includes pat (x # xs) = (prefix pat (x # xs) \<or> str_includes pat xs)"

definition cons_hd :: "'a \<Rightarrow> 'a list list \<Rightarrow> 'a list list" where
  "cons_hd x ls = (case ls of [] \<Rightarrow> [[x]] | l # ls' \<Rightarrow> (x # l) # ls')"

fun split_pair :: "nat \<Rightarrow> nat \<Rightarrow> jstr \<Rightarrow> jstr list" where
  "split_pair a b [] = [[]]"
| "split_pair a b [x] = [[x]]"
| "split_pair a b (x # y # xs) =
     (if x = a \<and> y = b then [] # split_pair a b xs else cons_hd x (split_pair a b (y # xs)))"

section \<open>Decimal numbers\<close>

text \<open>\<open>String(n)\<close> and template interpolation of a natural number, and the value that \<open>parseInt\<close>
  reads from a run of decimal digits.\<close>

fun nat_str :: "nat \<Rightarrow> jstr" where
  "nat_str n = (if n < 10 then [48 + n] else nat_str (n div 10) @ [48 + n mod 10])"

declare nat_str.simps [simp del]

lemmas nat_str_eval [js_eval] = nat_str.simps

definition parse_digits :: "jstr \<Rightarrow> nat" where
  "parse_digits s = foldl (\<lambda>n c. 10 * n + (c - 48)) 0 s"

lemma nat_str_not_Nil [simp]: "nat_str n \<noteq> []"
  by (subst nat_str.simps) simp

lemma nat_str_digits: "c \<in> set (nat_str n) \<Longrightarrow> is_digit c"
proof (induction n rule: nat_str.induct)
  case (1 n)
  then show ?case
    by (cases "n < 10") (auto simp: nat_str.simps [of n] is_digit_def)
qed

lemma parse_nat_str [simp]: "parse_digits (nat_str n) = n"
proof (induction n rule: nat_str.induct)
  case (1 n)
  then show ?case
    by (cases "n < 10") (auto simp: nat_str.simps [of n] parse_digits_def)
qed

lemma nat_str_inject [simp]: "nat_str m = nat_str n \<longleftrightarrow> m = n"
  by (metis parse_nat_str)

lemma hd_nat_str: "0 < n \<Longrightarrow> 49 \<le> hd (nat_str n) \<and> hd (nat_str n) \<le> 57"
proof (induction n rule: nat_str.induct)
  case (1 n)
  then show ?case
    by (cases "n < 10") (auto simp: nat_str.simps [of n] hd_append)
qed

section \<open>Arrays\<close>

text \<open>Reading \<open>xs[i]\<close>: \<open>undefined\<close> out of range.\<close>

definition arr_get :: "'a list \<Rightarrow> nat \<Rightarrow> 'a option" where
  "arr_get xs i = (if i < length xs then Some (xs ! i) else None)"

text \<open>\<open>xs.splice(start, n, ...ys)\<close> for a start that is not negative: a start past the end is moved
  to the end.\<close>

definition splice :: "nat \<Rightarrow> nat \<Rightarrow> 'a list \<Rightarrow> 'a list \<Rightarrow> 'a list" where
  "splice i n ys xs = take i xs @ ys @ drop (i + n) xs"

text \<open>\<open>s.slice(a, b)\<close> for \<open>0 \<le> a\<close> and \<open>0 \<le> b\<close>.\<close>

definition slice :: "nat \<Rightarrow> nat \<Rightarrow> 'a list \<Rightarrow> 'a list" where
  "slice a b xs = take (b - a) (drop a xs)"

text \<open>\<open>s.padStart(w)\<close>.\<close>

definition padStart :: "nat \<Rightarrow> jstr \<Rightarrow> jstr" where
  "padStart w s = replicate (w - length s) 32 @ s"

lemma arr_get_Some [simp]: "i < length xs \<Longrightarrow> arr_get xs i = Some (xs ! i)"
  by (simp add: arr_get_def)

lemma arr_get_None [simp]: "length xs \<le> i \<Longrightarrow> arr_get xs i = None"
  by (simp add: arr_get_def)

lemma arr_get_eq_Some: "arr_get xs i = Some x \<longleftrightarrow> i < length xs \<and> xs ! i = x"
  by (auto simp: arr_get_def)

lemma splice_length:
  "i + n \<le> length xs \<Longrightarrow> length (splice i n ys xs) = length xs + length ys - n"
  by (simp add: splice_def)

lemma splice_insert_Nil [simp]: "splice i 0 [] xs = xs"
  by (simp add: splice_def)

lemma upt_join [simp]: "[i..<i + a] @ [i + a..<i + (a + b)] = [i..<i + (a + b)]"
  using upt_add_eq_append [of i "i + a" b] by (simp only: add.assoc le_add1)

lemma splice_one:
  "i < length xs \<Longrightarrow> splice i 1 ys (xs @ zs) = take i xs @ ys @ drop (Suc i) xs @ zs"
  by (simp add: splice_def)

text \<open>\<open>Array.sort\<close> on a key is stable: a sorted array stays as it is.\<close>

lemma sort_key_sorted: "sorted (map f xs) \<Longrightarrow> sort_key f xs = xs"
  by (induction xs) (simp_all add: insort_is_Cons)

lemma map_fst_filter_zip:
  "length xs = length ys \<Longrightarrow> map fst (filter (\<lambda>x. P (fst x)) (zip xs ys)) = filter P xs"
  using filter_map [of P fst "zip xs ys"] by (simp add: o_def)

section \<open>Results of fallible code\<close>

text \<open>A function of the source that may throw returns \<open>Inl\<close> of the error or \<open>Inr\<close> of the value.
  A sequence of calls stops at the first error.\<close>

definition and_then :: "'e + 'a \<Rightarrow> ('a \<Rightarrow> 'e + 'b) \<Rightarrow> 'e + 'b" where
  "and_then r f = (case r of Inl e \<Rightarrow> Inl e | Inr a \<Rightarrow> f a)"

lemma and_then_simps [simp]:
  "and_then (Inl e) f = Inl e"
  "and_then (Inr a) f = f a"
  by (simp_all add: and_then_def)

lemma and_then_Inr: "and_then r f = Inr b \<longleftrightarrow> (\<exists>a. r = Inr a \<and> f a = Inr b)"
  by (cases r) auto

lemma and_then_Inl: "and_then r f = Inl e \<longleftrightarrow> r = Inl e \<or> (\<exists>a. r = Inr a \<and> f a = Inl e)"
  by (cases r) auto

section \<open>Runs of an object\<close>

text \<open>
  The contract that the stateful components share: every operation keeps the object's
  invariant, so every sequence of calls does.  A component proves the laws for its own operations
  by an interpretation.
\<close>

locale invariant_object =
  fixes step :: "'s \<Rightarrow> 'op \<Rightarrow> 's"
    and inv :: "'s \<Rightarrow> bool"
  assumes step_inv: "inv s \<Longrightarrow> inv (step s op)"
begin

lemma run_inv: "inv s \<Longrightarrow> inv (foldl step s ops)"
  by (induction ops arbitrary: s) (auto intro: step_inv)

lemma run_all_inv: "inv s \<Longrightarrow> inv (foldl step s (take k ops))"
  by (rule run_inv)

end

text \<open>The same for operations that keep the invariant only on admissible arguments.\<close>

locale guarded_object =
  fixes step :: "'s \<Rightarrow> 'op \<Rightarrow> 's"
    and inv :: "'s \<Rightarrow> bool"
    and ok :: "'op \<Rightarrow> bool"
  assumes guarded_step: "inv s \<Longrightarrow> ok op \<Longrightarrow> inv (step s op)"
begin

lemma guarded_run: "inv s \<Longrightarrow> list_all ok ops \<Longrightarrow> inv (foldl step s ops)"
  by (induction ops arbitrary: s) (auto intro: guarded_step)

end

sublocale invariant_object \<subseteq> unguarded: guarded_object step inv "\<lambda>_. True"
  by unfold_locales (rule step_inv)

end
