(* ===== verification/Js_Regex.thy ===== *)
theory Js_Regex
  imports Js_Prelude
begin

text \<open>
  The regular expressions of the sources, with ECMAScript's matching: leftmost branch first,
  greedy repetition, backtracking, capture groups, negative lookahead and word boundaries.
  \<open>rmatch\<close> gives every way to match at a position, in the order in which a backtracking engine
  tries them; \<open>rexec\<close> is the first one.  Every pattern of the modelled sources starts with \<open>^\<close>, so
  matching at the start of the string is all that is needed.
\<close>

datatype rx =
    REps
  | RCls "nat \<Rightarrow> bool"      \<comment> \<open>one code unit of a class\<close>
  | RSeq rx rx
  | RAlt rx rx
  | RStar rx                \<comment> \<open>greedy \<open>*\<close>\<close>
  | RCap nat rx             \<comment> \<open>capture group\<close>
  | RNot rx                 \<comment> \<open>\<open>(?!...)\<close>\<close>
  | REnd                    \<comment> \<open>\<open>$\<close>, no multiline flag\<close>
  | RWordB                  \<comment> \<open>\<open>\b\<close>\<close>

text \<open>The state of a match: the code unit before the position, what is left to read, and the
  captures, latest first.\<close>

type_synonym rst = "nat option \<times> jstr \<times> (nat \<times> jstr) list"

definition is_word :: "nat \<Rightarrow> bool" where
  "is_word c \<longleftrightarrow> is_digit c \<or> is_lower c \<or> (65 \<le> c \<and> c \<le> 90) \<or> c = 95"

text \<open>\<open>.\<close> matches anything but a line terminator.\<close>

definition is_dot :: "nat \<Rightarrow> bool" where
  "is_dot c \<longleftrightarrow> c \<noteq> 10 \<and> c \<noteq> 13 \<and> c \<noteq> 8232 \<and> c \<noteq> 8233"

text \<open>Greedy iteration: an iteration that consumes nothing is rejected, so as many iterations as
  there are code units left are enough.\<close>

fun star_m :: "nat \<Rightarrow> (rst \<Rightarrow> rst list) \<Rightarrow> rst \<Rightarrow> rst list" where
  "star_m 0 m st = [st]"
| "star_m (Suc n) m st =
     concat (map (\<lambda>st'. if length (fst (snd st')) < length (fst (snd st))
                        then star_m n m st' else []) (m st)) @ [st]"

primrec rmatch :: "rx \<Rightarrow> rst \<Rightarrow> rst list" where
  "rmatch REps st = [st]"
| "rmatch (RCls P) st =
     (case st of (p, s, c) \<Rightarrow>
       (case s of [] \<Rightarrow> [] | x # xs \<Rightarrow> if P x then [(Some x, xs, c)] else []))"
| "rmatch (RSeq a b) st = concat (map (rmatch b) (rmatch a st))"
| "rmatch (RAlt a b) st = rmatch a st @ rmatch b st"
| "rmatch (RStar a) st = star_m (length (fst (snd st))) (rmatch a) st"
| "rmatch (RCap n a) st =
     (case st of (p, s, c) \<Rightarrow>
       map (\<lambda>(p', s', c'). (p', s', (n, take (length s - length s') s) # c')) (rmatch a st))"
| "rmatch (RNot a) st = (if rmatch a st = [] then [st] else [])"
| "rmatch REnd st = (if fst (snd st) = [] then [st] else [])"
| "rmatch RWordB st =
     (case st of (p, s, c) \<Rightarrow>
       (let wb = (case p of None \<Rightarrow> False | Some x \<Rightarrow> is_word x);
            wa = (case s of [] \<Rightarrow> False | x # _ \<Rightarrow> is_word x)
        in if wb \<noteq> wa then [st] else []))"

text \<open>The first match at a state, and \<open>re.exec(s)\<close> for a pattern that starts with \<open>^\<close>.\<close>

definition rfirst :: "rx \<Rightarrow> rst \<Rightarrow> rst option" where
  "rfirst r st = (case rmatch r st of [] \<Rightarrow> None | x # _ \<Rightarrow> Some x)"

definition rexec :: "rx \<Rightarrow> jstr \<Rightarrow> rst option" where
  "rexec r s = rfirst r (None, s, [])"

definition rtest :: "rx \<Rightarrow> jstr \<Rightarrow> bool" where
  "rtest r s \<longleftrightarrow> rexec r s \<noteq> None"

text \<open>The text of group \<open>n\<close> (\<open>match[n]\<close>): \<open>None\<close> when the group took no part.\<close>

definition cap :: "nat \<Rightarrow> rst \<Rightarrow> jstr option" where
  "cap n st = map_of (snd (snd st)) n"

text \<open>\<open>s.replace(re, "")\<close> for a pattern that starts with \<open>^\<close>: what is left after the first match.\<close>

definition rstrip :: "rx \<Rightarrow> jstr \<Rightarrow> jstr" where
  "rstrip r s = (case rexec r s of None \<Rightarrow> s | Some st \<Rightarrow> fst (snd st))"

section \<open>Derived patterns\<close>

definition RChr :: "nat \<Rightarrow> rx" where
  "RChr c = RCls (\<lambda>x. x = c)"

definition RPlus :: "rx \<Rightarrow> rx" where
  "RPlus r = RSeq r (RStar r)"

definition ROpt :: "rx \<Rightarrow> rx" where
  "ROpt r = RAlt r REps"

fun RStr :: "jstr \<Rightarrow> rx" where
  "RStr [] = REps"
| "RStr (c # cs) = RSeq (RChr c) (RStr cs)"

fun RSeqs :: "rx list \<Rightarrow> rx" where
  "RSeqs [] = REps"
| "RSeqs [r] = r"
| "RSeqs (r # rs) = RSeq r (RSeqs rs)"

abbreviation RWs :: rx where "RWs \<equiv> RStar (RCls is_ws)"
abbreviation RDigits :: rx where "RDigits \<equiv> RPlus (RCls is_digit)"

lemmas rx_eval [js_eval] =
  rexec_def rfirst_def rtest_def rstrip_def cap_def RChr_def RPlus_def ROpt_def
  is_ws_def is_digit_def is_lower_def is_word_def is_dot_def

section \<open>Facts about matching\<close>

text \<open>Matching only consumes input, so a starred pattern always has a match.\<close>

lemma star_m_consumes:
  assumes m: "\<And>st st'. st' \<in> set (m st) \<Longrightarrow> suffix (fst (snd st')) (fst (snd st))"
  shows "st' \<in> set (star_m n m st) \<Longrightarrow> suffix (fst (snd st')) (fst (snd st))"
proof (induction n arbitrary: st)
  case (Suc n)
  then consider "st' = st" | mid where "mid \<in> set (m st)" "st' \<in> set (star_m n m mid)"
    by (auto split: if_splits)
  then show ?case
  proof cases
    case 2
    then show ?thesis using Suc.IH m by (blast intro: suffix_order.trans)
  qed simp
qed simp

lemma rmatch_consumes: "st' \<in> set (rmatch r st) \<Longrightarrow> suffix (fst (snd st')) (fst (snd st))"
proof (induction r arbitrary: st st')
  case (RSeq a b)
  then obtain m where "m \<in> set (rmatch a st)" "st' \<in> set (rmatch b m)" by auto
  with RSeq.IH show ?case by (blast intro: suffix_order.trans)
next
  case (RStar a)
  then have "st' \<in> set (star_m (length (fst (snd st))) (rmatch a) st)" by simp
  with RStar.IH show ?case by (rule star_m_consumes)
next
  case (RCap n a)
  then show ?case by (cases st) fastforce
next
  case (RCls P)
  then show ?case by (cases st) (auto split: list.splits if_splits simp: suffix_def)
next
  case RWordB
  then show ?case by (cases st) (auto simp: Let_def split: if_splits)
qed (auto split: if_splits)

lemma rstrip_suffix: "suffix (rstrip r s) s"
proof (cases "rmatch r (None, s, [])")
  case (Cons st sts)
  then have "suffix (fst (snd st)) s"
    using rmatch_consumes [of st r "(None, s, [])"] by simp
  with Cons show ?thesis by (simp add: rstrip_def rexec_def rfirst_def)
qed (simp add: rstrip_def rexec_def rfirst_def)

lemma rstrip_shorter_or_same: "rstrip r s \<noteq> s \<Longrightarrow> length (rstrip r s) < length s"
  using rstrip_suffix [of r s] suffix_length_le [of "rstrip r s" s]
  by (metis le_neq_implies_less suffix_length_suffix suffix_order.antisym suffix_order.refl order_refl)

text \<open>Composing first matches: when the first way to match \<open>a\<close> lets \<open>b\<close> match, no backtracking
  happens.\<close>

lemma rfirst_REps [simp]: "rfirst REps st = Some st"
  by (simp add: rfirst_def)

lemma rfirst_REnd [simp]: "rfirst REnd (p, s, c) = (if s = [] then Some (p, s, c) else None)"
  by (simp add: rfirst_def)

lemma rfirst_RCls [simp]:
  "rfirst (RCls P) (p, s, c) =
     (case s of [] \<Rightarrow> None | x # xs \<Rightarrow> if P x then Some (Some x, xs, c) else None)"
  by (simp add: rfirst_def split: list.splits)

lemma rfirst_RSeq:
  "rfirst a st = Some st1 \<Longrightarrow> rfirst b st1 = Some st2 \<Longrightarrow> rfirst (RSeq a b) st = Some st2"
  by (auto simp: rfirst_def split: list.splits)

lemma rfirst_RSeq_None: "rfirst a st = None \<Longrightarrow> rfirst (RSeq a b) st = None"
  by (auto simp: rfirst_def split: list.splits)

lemma rfirst_RAlt:
  "rfirst (RAlt a b) st = (case rfirst a st of None \<Rightarrow> rfirst b st | Some x \<Rightarrow> Some x)"
  by (auto simp: rfirst_def split: list.splits)

lemma rfirst_RCap:
  "rfirst a (p, s, c) = Some (p', s', c') \<Longrightarrow>
   rfirst (RCap n a) (p, s, c) = Some (p', s', (n, take (length s - length s') s) # c')"
  by (auto simp: rfirst_def split: list.splits)

definition last_of :: "nat option \<Rightarrow> jstr \<Rightarrow> nat option" where
  "last_of p s = (if s = [] then p else Some (last s))"

lemma last_of_simps [simp]:
  "last_of p [] = p"
  "last_of p (x # s) = last_of (Some x) s"
  "last_of p (s @ [x]) = Some x"
  by (auto simp: last_of_def)

lemma rfirst_star_cls:
  "length s \<le> n \<Longrightarrow>
   star_m n (rmatch (RCls P)) (p, s, c) \<noteq> [] \<and>
   hd (star_m n (rmatch (RCls P)) (p, s, c)) = (last_of p (takeWhile P s), dropWhile P s, c)"
proof (induction n arbitrary: s p)
  case (Suc n)
  show ?case
  proof (cases s)
    case (Cons x xs)
    with Suc.prems have "length xs \<le> n" by simp
    from Suc.IH [OF this, of "Some x"] Cons show ?thesis by (auto simp: hd_append)
  qed simp
qed simp

text \<open>A greedy run over a class takes the longest prefix first.\<close>

lemma rfirst_RStar_RCls [simp]:
  "rfirst (RStar (RCls P)) (p, s, c) = Some (last_of p (takeWhile P s), dropWhile P s, c)"
  using rfirst_star_cls [of s "length s" P p c]
  by (auto simp: rfirst_def split: list.splits)

lemma rfirst_RDigits:
  assumes "s = x # xs" "is_digit x"
  shows "rfirst RDigits (p, s, c) = Some (last_of (Some x) (takeWhile is_digit xs), dropWhile is_digit xs, c)"
  unfolding RPlus_def using assms by (intro rfirst_RSeq) auto

section \<open>What a match consumes\<close>

text \<open>The language of a pattern, with assertions read as the empty word: every match consumes a word of
  it.  Refusals are proved from it: a string no word of which starts it cannot match.\<close>

inductive_set star_l :: "jstr set \<Rightarrow> jstr set" for L where
  star_Nil: "[] \<in> star_l L"
| star_Step: "u \<in> L \<Longrightarrow> v \<in> star_l L \<Longrightarrow> u @ v \<in> star_l L"

primrec lang :: "rx \<Rightarrow> jstr set" where
  "lang REps = {[]}"
| "lang (RCls P) = {[x] | x. P x}"
| "lang (RSeq a b) = {u @ v | u v. u \<in> lang a \<and> v \<in> lang b}"
| "lang (RAlt a b) = lang a \<union> lang b"
| "lang (RStar a) = star_l (lang a)"
| "lang (RCap n a) = lang a"
| "lang (RNot a) = {[]}"
| "lang REnd = {[]}"
| "lang RWordB = {[]}"

lemma star_m_lang:
  assumes m: "\<And>st st'. st' \<in> set (m st) \<Longrightarrow> \<exists>u \<in> L. fst (snd st) = u @ fst (snd st')"
  shows "st' \<in> set (star_m n m st) \<Longrightarrow> \<exists>u \<in> star_l L. fst (snd st) = u @ fst (snd st')"
proof (induction n arbitrary: st)
  case (Suc n)
  then consider "st' = st" | mid where "mid \<in> set (m st)" "st' \<in> set (star_m n m mid)"
    by (auto split: if_splits)
  then show ?case
  proof cases
    case 2
    then obtain u v where "u \<in> L" "fst (snd st) = u @ fst (snd mid)"
      and "v \<in> star_l L" "fst (snd mid) = v @ fst (snd st')"
      using Suc.IH m by blast
    then show ?thesis by (intro bexI [of _ "u @ v"]) (auto intro: star_l.intros)
  qed (auto intro: star_l.intros)
qed (auto intro: star_l.intros)

lemma rmatch_lang:
  "st' \<in> set (rmatch r st) \<Longrightarrow> \<exists>u \<in> lang r. fst (snd st) = u @ fst (snd st')"
proof (induction r arbitrary: st st')
  case (RSeq a b)
  then obtain m where "m \<in> set (rmatch a st)" "st' \<in> set (rmatch b m)" by auto
  then obtain u v where "u \<in> lang a" "fst (snd st) = u @ fst (snd m)"
    and "v \<in> lang b" "fst (snd m) = v @ fst (snd st')"
    using RSeq.IH by blast
  then show ?case by (intro bexI [of _ "u @ v"]) auto
next
  case (RAlt a b)
  then show ?case by (simp, blast)
next
  case (RStar a)
  then have "st' \<in> set (star_m (length (fst (snd st))) (rmatch a) st)" by simp
  with RStar.IH have "\<exists>u \<in> star_l (lang a). fst (snd st) = u @ fst (snd st')" by (rule star_m_lang)
  then show ?case by simp
next
  case (RCap n a)
  then show ?case by (cases st) fastforce
next
  case (RCls P)
  then show ?case by (cases st) (auto split: list.splits if_splits)
next
  case RWordB
  then show ?case by (cases st) (auto simp: Let_def split: if_splits)
qed (auto split: if_splits)

lemma star_l_cls: "u \<in> star_l {[x] | x. P x} \<longleftrightarrow> list_all P u"
proof
  show "u \<in> star_l {[x] | x. P x} \<Longrightarrow> list_all P u" by (induction rule: star_l.induct) auto
  show "list_all P u \<Longrightarrow> u \<in> star_l {[x] | x. P x}"
  proof (induction u)
    case (Cons x u)
    then show ?case using star_Step [of "[x]" "{[x] | x. P x}" u] by auto
  qed (rule star_Nil)
qed

lemma lang_star_cls [simp]: "u \<in> lang (RStar (RCls P)) \<longleftrightarrow> list_all P u"
  by (simp add: star_l_cls)

declare lang.simps(5) [simp del]

lemma lang_RChr [simp]: "lang (RChr c) = {[c]}"
  by (auto simp: RChr_def)

lemma lang_ROpt [simp]: "lang (ROpt r) = insert [] (lang r)"
  by (auto simp: ROpt_def)

text \<open>A pattern that ends with \<open>$\<close> consumes the whole string; a pattern without groups keeps the
  captures.\<close>

fun ends :: "rx \<Rightarrow> bool" where
  "ends (RSeq a b) = ends b"
| "ends (RAlt a b) = (ends a \<and> ends b)"
| "ends REnd = True"
| "ends _ = False"

lemma rmatch_ends: "ends r \<Longrightarrow> st' \<in> set (rmatch r st) \<Longrightarrow> fst (snd st') = []"
  by (induction r arbitrary: st rule: ends.induct) (auto split: if_splits)

fun cap_free :: "rx \<Rightarrow> bool" where
  "cap_free (RSeq a b) = (cap_free a \<and> cap_free b)"
| "cap_free (RAlt a b) = (cap_free a \<and> cap_free b)"
| "cap_free (RStar a) = cap_free a"
| "cap_free (RCap n a) = False"
| "cap_free _ = True"

lemma star_m_caps:
  assumes m: "\<And>st st'. st' \<in> set (m st) \<Longrightarrow> snd (snd st') = snd (snd st)"
  shows "st' \<in> set (star_m n m st) \<Longrightarrow> snd (snd st') = snd (snd st)"
proof (induction n arbitrary: st)
  case (Suc n)
  then consider "st' = st" | mid where "mid \<in> set (m st)" "st' \<in> set (star_m n m mid)"
    by (auto split: if_splits)
  then show ?case using Suc.IH m by cases metis+
qed simp

lemma rmatch_cap_free: "cap_free r \<Longrightarrow> st' \<in> set (rmatch r st) \<Longrightarrow> snd (snd st') = snd (snd st)"
proof (induction r arbitrary: st st')
  case (RSeq a b)
  then obtain m where "m \<in> set (rmatch a st)" "st' \<in> set (rmatch b m)" by auto
  with RSeq show ?case by auto
next
  case (RStar a)
  then have "st' \<in> set (star_m (length (fst (snd st))) (rmatch a) st)" by simp
  moreover have "\<And>st st'. st' \<in> set (rmatch a st) \<Longrightarrow> snd (snd st') = snd (snd st)"
    using RStar by simp
  ultimately show ?case by (rule star_m_caps [rotated])
next
  case (RCls P)
  then show ?case by (cases st) (auto split: list.splits if_splits)
next
  case RWordB
  then show ?case by (cases st) (auto simp: Let_def split: if_splits)
qed (auto split: if_splits)

lemma rmatch_RCap:
  assumes "cap_free a" "st' \<in> set (rmatch (RCap n a) st)"
  shows "\<exists>u \<in> lang a. fst (snd st) = u @ fst (snd st') \<and> snd (snd st') = (n, u) # snd (snd st)"
proof -
  obtain p s c where st: "st = (p, s, c)" by (cases st)
  with assms(2) obtain m where m: "m \<in> set (rmatch a st)"
    and st': "fst (snd st') = fst (snd m)"
      "snd (snd st') = (n, take (length s - length (fst (snd m))) s) # snd (snd m)"
    by auto
  from rmatch_lang [OF m] obtain u where u: "u \<in> lang a" "s = u @ fst (snd m)"
    using st by auto
  moreover have "snd (snd m) = c" using rmatch_cap_free [OF assms(1) m] st by simp
  ultimately show ?thesis using st st' by (intro bexI [of _ u]) auto
qed

lemma rexec_in: "rexec r s = Some st \<Longrightarrow> st \<in> set (rmatch r (None, s, []))"
  by (auto simp: rexec_def rfirst_def split: list.splits)

lemma rexec_NoneI: "(\<And>st. st \<in> set (rmatch r (None, s, [])) \<Longrightarrow> False) \<Longrightarrow> rexec r s = None"
  by (cases "rmatch r (None, s, [])") (auto simp: rexec_def rfirst_def)

end
