(* ===== verification/Hashline_Hash.thy ===== *)
theory Hashline_Hash
  imports Js_Regex
begin

text \<open>
  The line identifiers of hashline mode (\<open>hashline/hash.ts\<close>, \<open>hashline/bigrams.json\<close>): every line of a
  file is shown to the model as \<open>LINE+ID|TEXT\<close>, where the two-letter \<open>ID\<close> is a hash of the line's text.
  The 32-bit xxHash of the runtime (\<open>Bun.hash.xxHash32\<close> with seed 0) is the parameter \<open>xx\<close> of the model.
  The locale \<open>line_hasher\<close> is what the rest of hashline mode relies on.
\<close>

section \<open>Constants\<close>

definition HL_OP_INSERT_BEFORE :: nat where "HL_OP_INSERT_BEFORE = 171"
definition HL_OP_INSERT_AFTER :: nat where "HL_OP_INSERT_AFTER = 187"
definition HL_OP_REPLACE :: nat where "HL_OP_REPLACE = 8788"

definition HL_OP_CHARS :: jstr where
  "HL_OP_CHARS = [HL_OP_INSERT_BEFORE, HL_OP_INSERT_AFTER, HL_OP_REPLACE]"

definition HL_FILE_PREFIX :: nat where "HL_FILE_PREFIX = 167"
definition HL_BODY_SEP :: nat where "HL_BODY_SEP = 124"

lemmas hl_consts [js_eval] =
  HL_OP_INSERT_BEFORE_def HL_OP_INSERT_AFTER_def HL_OP_REPLACE_def HL_OP_CHARS_def
  HL_FILE_PREFIX_def HL_BODY_SEP_def

definition HL_BIGRAMS :: "jstr list" where
  "HL_BIGRAMS = map js
    [
     ''aa'', ''ab'', ''ac'', ''ad'', ''ae'', ''af'', ''ag'', ''ah'', ''ai'', ''aj'', ''ak'',
     ''al'', ''am'', ''an'', ''ao'', ''ap'', ''aq'', ''ar'', ''as'', ''at'', ''au'', ''av'',
     ''aw'', ''ax'', ''ay'', ''az'', ''ba'', ''bb'', ''bc'', ''bd'', ''be'', ''bf'', ''bg'',
     ''bh'', ''bi'', ''bj'', ''bk'', ''bl'', ''bm'', ''bn'', ''bo'', ''bp'', ''br'', ''bs'',
     ''bt'', ''bu'', ''bv'', ''bw'', ''bx'', ''by'', ''bz'', ''ca'', ''cb'', ''cc'', ''cd'',
     ''ce'', ''cf'', ''cg'', ''ch'', ''ci'', ''cj'', ''ck'', ''cl'', ''cm'', ''cn'', ''co'',
     ''cp'', ''cq'', ''cr'', ''cs'', ''ct'', ''cu'', ''cv'', ''cw'', ''cx'', ''cy'', ''cz'',
     ''da'', ''db'', ''dc'', ''dd'', ''de'', ''df'', ''dg'', ''dh'', ''di'', ''dj'', ''dk'',
     ''dl'', ''dm'', ''dn'', ''do'', ''dp'', ''dq'', ''dr'', ''ds'', ''dt'', ''du'', ''dv'',
     ''dw'', ''dx'', ''dy'', ''dz'', ''ea'', ''eb'', ''ec'', ''ed'', ''ee'', ''ef'', ''eg'',
     ''eh'', ''ei'', ''ej'', ''ek'', ''el'', ''em'', ''en'', ''eo'', ''ep'', ''eq'', ''er'',
     ''es'', ''et'', ''eu'', ''ev'', ''ew'', ''ex'', ''ey'', ''ez'', ''fa'', ''fb'', ''fc'',
     ''fd'', ''fe'', ''ff'', ''fg'', ''fh'', ''fi'', ''fj'', ''fk'', ''fl'', ''fm'', ''fn'',
     ''fo'', ''fp'', ''fq'', ''fr'', ''fs'', ''ft'', ''fu'', ''fv'', ''fw'', ''fx'', ''fy'',
     ''fz'', ''ga'', ''gb'', ''gc'', ''gd'', ''ge'', ''gf'', ''gg'', ''gh'', ''gi'', ''gj'',
     ''gl'', ''gm'', ''gn'', ''go'', ''gp'', ''gr'', ''gs'', ''gt'', ''gu'', ''gv'', ''gw'',
     ''gx'', ''gy'', ''gz'', ''ha'', ''hb'', ''hc'', ''hd'', ''he'', ''hf'', ''hg'', ''hh'',
     ''hi'', ''hj'', ''hk'', ''hl'', ''hm'', ''hn'', ''ho'', ''hp'', ''hq'', ''hr'', ''hs'',
     ''ht'', ''hu'', ''hv'', ''hw'', ''hx'', ''hy'', ''hz'', ''ia'', ''ib'', ''ic'', ''id'',
     ''ie'', ''if'', ''ig'', ''ih'', ''ii'', ''ij'', ''ik'', ''il'', ''im'', ''in'', ''io'',
     ''ip'', ''iq'', ''ir'', ''is'', ''it'', ''iu'', ''iv'', ''iw'', ''ix'', ''iy'', ''iz'',
     ''ja'', ''jb'', ''jc'', ''jd'', ''je'', ''jf'', ''jg'', ''jh'', ''ji'', ''jj'', ''jk'',
     ''jl'', ''jm'', ''jn'', ''jo'', ''jp'', ''jq'', ''jr'', ''js'', ''jt'', ''ju'', ''jw'',
     ''jx'', ''jy'', ''ka'', ''kb'', ''kc'', ''kd'', ''ke'', ''kf'', ''kg'', ''kh'', ''ki'',
     ''kj'', ''kk'', ''kl'', ''km'', ''kn'', ''ko'', ''kp'', ''kr'', ''ks'', ''kt'', ''ku'',
     ''kv'', ''kw'', ''kx'', ''ky'', ''la'', ''lb'', ''lc'', ''ld'', ''le'', ''lf'', ''lg'',
     ''lh'', ''li'', ''lj'', ''lk'', ''ll'', ''lm'', ''ln'', ''lo'', ''lp'', ''lr'', ''ls'',
     ''lt'', ''lu'', ''lv'', ''lw'', ''lx'', ''ly'', ''lz'', ''ma'', ''mb'', ''mc'', ''md'',
     ''me'', ''mf'', ''mg'', ''mh'', ''mi'', ''mj'', ''mk'', ''ml'', ''mm'', ''mn'', ''mo'',
     ''mp'', ''mq'', ''mr'', ''ms'', ''mt'', ''mu'', ''mv'', ''mw'', ''mx'', ''my'', ''mz'',
     ''na'', ''nb'', ''nc'', ''nd'', ''ne'', ''nf'', ''ng'', ''nh'', ''ni'', ''nj'', ''nk'',
     ''nl'', ''nm'', ''nn'', ''no'', ''np'', ''nr'', ''ns'', ''nt'', ''nu'', ''nv'', ''nw'',
     ''nx'', ''ny'', ''nz'', ''oa'', ''ob'', ''oc'', ''od'', ''oe'', ''of'', ''og'', ''oh'',
     ''oi'', ''oj'', ''ok'', ''ol'', ''om'', ''on'', ''oo'', ''op'', ''oq'', ''or'', ''os'',
     ''ot'', ''ou'', ''ov'', ''ow'', ''ox'', ''oy'', ''oz'', ''pa'', ''pb'', ''pc'', ''pd'',
     ''pe'', ''pf'', ''pg'', ''ph'', ''pi'', ''pj'', ''pk'', ''pl'', ''pm'', ''pn'', ''po'',
     ''pp'', ''pq'', ''pr'', ''ps'', ''pt'', ''pu'', ''pv'', ''pw'', ''px'', ''py'', ''pz'',
     ''qa'', ''qb'', ''qc'', ''qd'', ''qe'', ''qh'', ''qi'', ''ql'', ''qm'', ''qn'', ''qo'',
     ''qp'', ''qq'', ''qr'', ''qs'', ''qt'', ''qu'', ''qw'', ''qx'', ''qy'', ''ra'', ''rb'',
     ''rc'', ''rd'', ''re'', ''rf'', ''rg'', ''rh'', ''ri'', ''rk'', ''rl'', ''rm'', ''rn'',
     ''ro'', ''rp'', ''rq'', ''rr'', ''rs'', ''rt'', ''ru'', ''rv'', ''rw'', ''rx'', ''ry'',
     ''rz'', ''sa'', ''sb'', ''sc'', ''sd'', ''se'', ''sf'', ''sg'', ''sh'', ''si'', ''sj'',
     ''sk'', ''sl'', ''sm'', ''sn'', ''so'', ''sp'', ''sq'', ''sr'', ''ss'', ''st'', ''su'',
     ''sv'', ''sw'', ''sx'', ''sy'', ''sz'', ''ta'', ''tb'', ''tc'', ''td'', ''te'', ''tf'',
     ''tg'', ''th'', ''ti'', ''tj'', ''tk'', ''tl'', ''tm'', ''tn'', ''to'', ''tp'', ''tr'',
     ''ts'', ''tt'', ''tu'', ''tv'', ''tw'', ''tx'', ''ty'', ''tz'', ''ua'', ''ub'', ''uc'',
     ''ud'', ''ue'', ''uf'', ''ug'', ''uh'', ''ui'', ''uj'', ''uk'', ''ul'', ''um'', ''un'',
     ''uo'', ''up'', ''uq'', ''ur'', ''us'', ''ut'', ''uu'', ''uv'', ''uw'', ''ux'', ''uy'',
     ''uz'', ''va'', ''vb'', ''vc'', ''vd'', ''ve'', ''vf'', ''vg'', ''vh'', ''vi'', ''vj'',
     ''vk'', ''vl'', ''vm'', ''vn'', ''vo'', ''vp'', ''vq'', ''vr'', ''vs'', ''vt'', ''vu'',
     ''vv'', ''vw'', ''vx'', ''vy'', ''vz'', ''wa'', ''wb'', ''wc'', ''wd'', ''we'', ''wf'',
     ''wg'', ''wh'', ''wi'', ''wj'', ''wk'', ''wl'', ''wm'', ''wn'', ''wo'', ''wp'', ''wr'',
     ''ws'', ''wt'', ''wu'', ''wv'', ''ww'', ''wx'', ''wy'', ''xa'', ''xb'', ''xc'', ''xd'',
     ''xe'', ''xf'', ''xh'', ''xi'', ''xl'', ''xm'', ''xn'', ''xo'', ''xp'', ''xr'', ''xs'',
     ''xt'', ''xu'', ''xx'', ''xy'', ''xz'', ''ya'', ''yb'', ''yc'', ''yd'', ''ye'', ''yf'',
     ''yg'', ''yh'', ''yi'', ''yj'', ''yk'', ''yl'', ''ym'', ''yn'', ''yo'', ''yp'', ''yr'',
     ''ys'', ''yt'', ''yu'', ''yv'', ''yw'', ''yx'', ''yy'', ''yz'', ''za'', ''zb'', ''zc'',
     ''zd'', ''ze'', ''zf'', ''zg'', ''zh'', ''zi'', ''zk'', ''zl'', ''zm'', ''zn'', ''zo'',
     ''zp'', ''zr'', ''zs'', ''zt'', ''zu'', ''zw'', ''zx'', ''zy'', ''zz'']"

definition HL_BIGRAMS_COUNT :: nat where
  "HL_BIGRAMS_COUNT = length HL_BIGRAMS"

section \<open>Operations\<close>

definition HL_HASH_EXAMPLES :: "jstr list" where
  "HL_HASH_EXAMPLES = [js ''sr'', js ''ab'', js ''th'']"

definition describeAnchorExamples :: "jstr \<Rightarrow> jstr" where
  "describeAnchorExamples linePrefix =
     join_with (js '', '') (map (\<lambda>e. [34] @ linePrefix @ e @ [34]) HL_HASH_EXAMPLES)"

definition computeLineHash :: "(jstr \<Rightarrow> nat) \<Rightarrow> nat \<Rightarrow> jstr \<Rightarrow> jstr" where
  "computeLineHash xx idx l =
     (let l' = trimEnd (filter (\<lambda>c. c \<noteq> 13) l) in HL_BIGRAMS ! (xx l' mod HL_BIGRAMS_COUNT))"

definition formatLineHash :: "(jstr \<Rightarrow> nat) \<Rightarrow> nat \<Rightarrow> jstr \<Rightarrow> jstr" where
  "formatLineHash xx n l = nat_str n @ computeLineHash xx n l"

definition formatHashLine :: "(jstr \<Rightarrow> nat) \<Rightarrow> nat \<Rightarrow> jstr \<Rightarrow> jstr" where
  "formatHashLine xx n l = nat_str n @ computeLineHash xx n l @ [HL_BODY_SEP] @ l"

definition formatHashLines :: "(jstr \<Rightarrow> nat) \<Rightarrow> jstr \<Rightarrow> nat \<Rightarrow> jstr" where
  "formatHashLines xx s startLine =
     (let ls = split_on 10 s
      in join_with [10] (map (\<lambda>i. formatHashLine xx (startLine + i) (ls ! i)) [0..<length ls]))"

section \<open>The contract of a line hash\<close>

text \<open>What the anchor parser and the edit engine rely on: an identifier is two lower-case letters, and
  it depends on the text of the line alone, neither on the line's number nor on trailing white
  space or carriage returns.\<close>

locale line_hasher =
  fixes h :: "nat \<Rightarrow> jstr \<Rightarrow> jstr"
  assumes width: "length (h n l) = 2"
    and lower: "c \<in> set (h n l) \<Longrightarrow> is_lower c"
    and number_free: "h m l = h n l"
    and trailing_free: "is_ws c \<Longrightarrow> h n (l @ [c]) = h n l"
begin

lemma pair: "\<exists>a b. h n l = [a, b] \<and> is_lower a \<and> is_lower b"
proof -
  obtain a b where "h n l = [a, b]"
    using width [of n l] by (auto simp: length_Suc_conv numeral_2_eq_2)
  with lower [of _ n l] show ?thesis by auto
qed

lemma not_Nil: "h n l \<noteq> []"
  using width [of n l] by auto

lemma stable_under_shift: "h (n + k) (trimEnd l) = h n l"
proof (induction l rule: rev_induct)
  case Nil
  then show ?case by (simp add: number_free [of "n + k" _ n])
next
  case (snoc c l)
  then show ?case by (auto simp: trailing_free number_free [of "n + k" _ n])
qed

lemma digits_then_hash:
  "takeWhile is_digit (nat_str n @ h m l @ s) = nat_str n"
  "dropWhile is_digit (nat_str n @ h m l @ s) = h m l @ s"
proof -
  obtain a b where "h m l = [a, b]" "is_lower a" using pair by blast
  then show "takeWhile is_digit (nat_str n @ h m l @ s) = nat_str n"
    "dropWhile is_digit (nat_str n @ h m l @ s) = h m l @ s"
    by (auto simp: takeWhile_append dropWhile_append dest: nat_str_digits)
qed

end

section \<open>The code's hash keeps the contract\<close>

lemma bigrams_shape: "list_all (\<lambda>b. length b = 2 \<and> list_all is_lower b) HL_BIGRAMS"
  unfolding HL_BIGRAMS_def by (simp add: js_def is_lower_def)

lemma bigrams_count: "HL_BIGRAMS_COUNT = 647"
  unfolding HL_BIGRAMS_COUNT_def HL_BIGRAMS_def by simp

lemma computeLineHash_in: "computeLineHash xx n l \<in> set HL_BIGRAMS"
  using bigrams_count by (simp add: computeLineHash_def HL_BIGRAMS_COUNT_def Let_def)

lemma computeLineHash_trailing:
  assumes "is_ws c"
  shows "computeLineHash xx n (l @ [c]) = computeLineHash xx n l"
  using assms by (simp add: computeLineHash_def)

interpretation clh: line_hasher "computeLineHash xx" for xx
proof
  fix n l c
  have "length b = 2 \<and> (\<forall>c \<in> set b. is_lower c)" if "b \<in> set HL_BIGRAMS" for b
    using bigrams_shape that by (auto simp: list_all_iff)
  from this [OF computeLineHash_in]
  show "length (computeLineHash xx n l) = 2"
    and "c \<in> set (computeLineHash xx n l) \<Longrightarrow> is_lower c"
    by blast+
qed (simp_all add: computeLineHash_def)

end
