(* ===== verification/Hashline_Types.thy ===== *)
theory Hashline_Types
  imports Hashline_Hash
begin

text \<open>
  The data of hashline mode (\<open>hashline/types.ts\<close>, \<open>hashline/constants.ts\<close>): anchors, cursors, edits,
  mismatches, and the errors its functions throw.  An error carries what its message is built
  from; op sigils are code units.
\<close>

record anchor =
  anc_line :: nat
  anc_hash :: jstr

datatype cursor = Bof | Eof | Before_Anchor anchor | After_Anchor anchor

datatype hl_edit =
    Ins (ecursor: cursor) (etext: jstr) (lineNum: nat) (eindex: nat)
  | Del (eanchor: anchor) (lineNum: nat) (eindex: nat)

record hash_mismatch =
  hm_line :: nat
  hm_expected :: jstr
  hm_actual :: jstr

datatype hl_error =
    Invalid_line_reference jstr
  | Line_number_too_small nat jstr
  | Line_does_not_exist nat nat
  | HashlineMismatchError "hash_mismatch list" "jstr list"
  | HashlineMissingLineError jstr nat "(jstr \<times> jstr) option"
  | HashlineMissingHashError nat jstr "nat \<times> nat" nat "(jstr \<times> jstr) option"
  | Expected_full_anchor nat jstr
  | Range_needs_two_anchors nat
  | Range_ends_before_start nat jstr jstr
  | Range_two_hashes nat jstr jstr
  | Empty_insert nat jstr bool
  | Unrecognized_op nat jstr
  | Payload_without_op nat jstr
  | Header_empty
  | Input_must_begin_with_header jstr

definition MISMATCH_CONTEXT :: nat where "MISMATCH_CONTEXT = 2"
definition MISMATCH_RELOCATE_WINDOW :: nat where "MISMATCH_RELOCATE_WINDOW = 20"
definition RANGE_INTERIOR_HASH :: jstr where "RANGE_INTERIOR_HASH = js ''**''"
definition BEGIN_PATCH_MARKER :: jstr where "BEGIN_PATCH_MARKER = js ''*** Begin Patch''"
definition END_PATCH_MARKER :: jstr where "END_PATCH_MARKER = js ''*** End Patch''"
definition ABORT_MARKER :: jstr where "ABORT_MARKER = js ''*** Abort''"

lemmas hl_markers [js_eval] =
  MISMATCH_CONTEXT_def MISMATCH_RELOCATE_WINDOW_def RANGE_INTERIOR_HASH_def
  BEGIN_PATCH_MARKER_def END_PATCH_MARKER_def ABORT_MARKER_def

text \<open>The filler of a range's interior is never the hash of a line.\<close>

lemma interior_not_hash [simp]: "computeLineHash xx n l \<noteq> RANGE_INTERIOR_HASH"
  using clh.lower [of 42 xx n l] by (auto simp: RANGE_INTERIOR_HASH_def js_eval is_lower_def)

end
