(* ===== verification/Hashline_Anchors.thy ===== *)
theory Hashline_Anchors
  imports Hashline_Types "HOL-Library.AList"
begin

text \<open>
  Anchor references and stale-anchor reports (\<open>hashline/anchors.ts\<close>): parsing \<open>LINE+ID\<close> tags, checking
  an anchor against the file, and the view of the file that a rejection shows.
\<close>

section \<open>Parsing a tag\<close>

text \<open>\<open>[>+\-*]\<close>\<close>

definition is_deco :: "nat \<Rightarrow> bool" where
  "is_deco c \<longleftrightarrow> c = 62 \<or> c = 43 \<or> c = 45 \<or> c = 42"

definition HL_ANCHOR_DECORATION_RE :: rx where
  "HL_ANCHOR_DECORATION_RE = RSeq RWs (RSeq (RStar (RCls is_deco)) RWs)"

definition PARSE_TAG_RE :: rx where
  "PARSE_TAG_RE =
     RSeq HL_ANCHOR_DECORATION_RE
       (RSeq (RCap 1 RDigits) (RCap 2 (RSeq (RCls is_lower) (RCls is_lower))))"

definition parseTag :: "jstr \<Rightarrow> hl_error + (nat \<times> jstr)" where
  "parseTag ref =
     (case rexec PARSE_TAG_RE ref of
        None \<Rightarrow> Inl (Invalid_line_reference ref)
      | Some m \<Rightarrow>
          (case (cap 1 m, cap 2 m) of
             (Some d, Some h) \<Rightarrow>
               (let line = parse_digits d
                in if line < 1 then Inl (Line_number_too_small line ref) else Inr (line, h))
           | _ \<Rightarrow> Inl (Invalid_line_reference ref)))"

lemmas anchors_re [js_eval] = is_deco_def HL_ANCHOR_DECORATION_RE_def PARSE_TAG_RE_def

section \<open>Checking an anchor\<close>

definition file_line :: "jstr list \<Rightarrow> nat \<Rightarrow> jstr" where
  \<comment> \<open>\<open>fileLines[line - 1] ?? ""\<close> for \<open>line \<ge> 1\<close>\<close>
  "file_line fl n = (case arr_get fl (n - 1) of None \<Rightarrow> [] | Some l \<Rightarrow> l)"

definition validateLineRef :: "(jstr \<Rightarrow> nat) \<Rightarrow> anchor \<Rightarrow> jstr list \<Rightarrow> hl_error + unit" where
  "validateLineRef xx ref fl =
     (if anc_line ref < 1 \<or> anc_line ref > length fl
      then Inl (Line_does_not_exist (anc_line ref) (length fl))
      else let actualHash = computeLineHash xx (anc_line ref) (file_line fl (anc_line ref))
           in if actualHash \<noteq> anc_hash ref
              then Inl (HashlineMismatchError
                     [\<lparr>hm_line = anc_line ref, hm_expected = anc_hash ref, hm_actual = actualHash\<rparr>] fl)
              else Inr ())"

section \<open>Where a stale line went\<close>

fun relocate_scan ::
  "(jstr \<Rightarrow> nat) \<Rightarrow> hash_mismatch \<Rightarrow> jstr list \<Rightarrow> nat list \<Rightarrow> nat option \<Rightarrow> nat option" where
  "relocate_scan xx m fl [] found = found"
| "relocate_scan xx m fl (n # ns) found =
     (if n = hm_line m then relocate_scan xx m fl ns found
      else if computeLineHash xx n (file_line fl n) \<noteq> hm_expected m
        then relocate_scan xx m fl ns found
      else if found \<noteq> None then None
      else relocate_scan xx m fl ns (Some n))"

definition window :: "nat \<Rightarrow> nat \<Rightarrow> nat \<Rightarrow> nat list" where
  \<comment> \<open>the loop from \<open>max(1, line - w)\<close> to \<open>min(length, line + w)\<close>\<close>
  "window w line len = [max 1 (line - w)..<Suc (min len (line + w))]"

definition findRelocatedLine ::
  "(jstr \<Rightarrow> nat) \<Rightarrow> hash_mismatch \<Rightarrow> jstr list \<Rightarrow> nat option" where
  "findRelocatedLine xx m fl =
     relocate_scan xx m fl (window MISMATCH_RELOCATE_WINDOW (hm_line m) (length fl)) None"

section \<open>The view a rejection shows\<close>

record mismatch_view =
  relocations :: "(nat \<times> nat) list"
  displayLines :: "nat list"

definition view_step ::
  "(jstr \<Rightarrow> nat) \<Rightarrow> jstr list \<Rightarrow> (nat \<times> nat) list \<times> nat list \<Rightarrow> hash_mismatch
     \<Rightarrow> (nat \<times> nat) list \<times> nat list" where
  "view_step xx fl st m =
     (let rel = fst st;
          ds = fold set_add (window MISMATCH_CONTEXT (hm_line m) (length fl)) (snd st)
      in case findRelocatedLine xx m fl of
           None \<Rightarrow> (rel, ds)
         | Some r \<Rightarrow> (AList.update (hm_line m) r rel, set_add r ds))"

definition buildMismatchView ::
  "(jstr \<Rightarrow> nat) \<Rightarrow> hash_mismatch list \<Rightarrow> jstr list \<Rightarrow> mismatch_view" where
  "buildMismatchView xx ms fl =
     (let st = foldl (view_step xx fl) ([], []) ms
      in \<lparr>relocations = fst st, displayLines = sort (snd st)\<rparr>)"

definition lineMarker :: "nat \<Rightarrow> nat list \<Rightarrow> nat list \<Rightarrow> jstr" where
  "lineMarker n mismatchSet relocatedTargets =
     (if n \<in> set mismatchSet then js ''*''
      else if n \<in> set relocatedTargets then js ''>'' else js '' '')"

definition rejectionHeader :: "hash_mismatch list \<Rightarrow> (nat \<times> nat) list \<Rightarrow> jstr list" where
  "rejectionHeader ms rel =
     (let noun = (if length ms > 1 then js ''anchors do'' else js ''anchor does'');
          header =
            [js ''Edit rejected: '' @ nat_str (length ms) @ js '' '' @ noun
               @ js '' not match the current file (marked *).'',
             js ''The edit was NOT applied, please use the updated file content shown below, and issue another edit tool-call.''];
          moves = fold (\<lambda>m acc. case map_of rel (hm_line m) of
                       None \<Rightarrow> acc
                     | Some t \<Rightarrow> set_add (nat_str (hm_line m) @ hm_expected m @ js '' -> ''
                                            @ nat_str t @ hm_expected m) acc) ms []
      in if rel \<noteq> []
         then header @ [js ''Likely moved (marked >; verify the content before reusing): ''
                        @ join_with (js '', '') moves @ js ''.'']
         else header)"

text \<open>The numbered lines of a report, with \<open>...\<close> where lines are left out; \<open>fmt\<close> prints one line.\<close>

fun frame_lines :: "(nat \<Rightarrow> jstr) \<Rightarrow> nat option \<Rightarrow> nat list \<Rightarrow> jstr list" where
  "frame_lines fmt prev [] = []"
| "frame_lines fmt prev (n # ns) =
     (case prev of None \<Rightarrow> [] | Some p \<Rightarrow> if n > p + 1 then [js ''...''] else [])
       @ fmt n # frame_lines fmt (Some n) ns"

definition formatMessage :: "(jstr \<Rightarrow> nat) \<Rightarrow> hash_mismatch list \<Rightarrow> jstr list \<Rightarrow> jstr" where
  "formatMessage xx ms fl =
     (let mismatchSet = fold set_add (map hm_line ms) [];
          v = buildMismatchView xx ms fl;
          relocatedTargets = map snd (relocations v);
          fmt = (\<lambda>n. lineMarker n mismatchSet relocatedTargets @ nat_str n
                      @ computeLineHash xx n (file_line fl n) @ [HL_BODY_SEP] @ file_line fl n)
      in join_with [10]
           (rejectionHeader ms (relocations v) @ frame_lines fmt None (displayLines v)))"

definition formatCodeFrameLine :: "jstr \<Rightarrow> nat \<Rightarrow> jstr \<Rightarrow> nat \<Rightarrow> jstr" where
  \<comment> \<open>the line number is never empty, so the gutter is marker and number\<close>
  "formatCodeFrameLine marker n content w =
     padStart (w + 1) (trim marker @ nat_str n) @ [9474] @ content"

definition formatDisplayMessage :: "(jstr \<Rightarrow> nat) \<Rightarrow> hash_mismatch list \<Rightarrow> jstr list \<Rightarrow> jstr" where
  "formatDisplayMessage xx ms fl =
     (let mismatchSet = fold set_add (map hm_line ms) [];
          v = buildMismatchView xx ms fl;
          relocatedTargets = map snd (relocations v);
          width = foldl (\<lambda>cur n. max cur (length (nat_str n))) 0 (displayLines v);
          fmt = (\<lambda>n. formatCodeFrameLine (lineMarker n mismatchSet relocatedTargets) n
                      (file_line fl n) width)
      in join_with [10]
           (rejectionHeader ms (relocations v) @ [[]] @ frame_lines fmt None (displayLines v)))"

text \<open>The map from each stale anchor to the anchor the line has now (\<open>HashlineMismatchError.remaps\<close>).\<close>

definition remaps :: "(jstr \<Rightarrow> nat) \<Rightarrow> hash_mismatch list \<Rightarrow> jstr list \<Rightarrow> (jstr \<times> jstr) list" where
  "remaps xx ms fl =
     foldl (\<lambda>acc m. AList.update (nat_str (hm_line m) @ hm_expected m)
                      (nat_str (hm_line m) @ computeLineHash xx (hm_line m) (file_line fl (hm_line m))) acc)
       [] ms"

section \<open>Lemmas\<close>

lemma is_deco_simps [simp]: "is_digit c \<Longrightarrow> \<not> is_deco c" "is_ws c \<Longrightarrow> \<not> is_deco c"
  by (auto simp: is_deco_def is_digit_def is_ws_def)

lemma drop_decoration:
  assumes "list_all is_ws w1" "list_all is_deco d" "list_all is_ws w2"
    and "X = x # xs" "is_digit x"
  shows "dropWhile is_ws (dropWhile is_deco (dropWhile is_ws (w1 @ d @ w2 @ X))) = X"
proof (cases d)
  case Nil
  with assms show ?thesis by (auto simp: list_all_iff dropWhile_append)
next
  case (Cons a ds)
  with assms have "\<not> is_ws a" by (auto simp: is_deco_def is_ws_def)
  with Cons assms have "dropWhile is_ws (w1 @ d @ w2 @ X) = d @ w2 @ X"
    by (auto simp: list_all_iff dropWhile_append)
  moreover have "dropWhile is_deco (d @ w2 @ X) = w2 @ X"
    using assms by (cases w2) (auto simp: list_all_iff dropWhile_append)
  moreover have "dropWhile is_ws (w2 @ X) = X"
    using assms by (auto simp: list_all_iff dropWhile_append)
  ultimately show ?thesis by simp
qed

lemma rfirst_decoration:
  assumes "list_all is_ws w1" "list_all is_deco d" "list_all is_ws w2"
    and "X = x # xs" "is_digit x"
  shows "\<exists>p'. rfirst HL_ANCHOR_DECORATION_RE (p, w1 @ d @ w2 @ X, c) = Some (p', X, c)"
proof -
  obtain p1 p2 where "rfirst HL_ANCHOR_DECORATION_RE (p, w1 @ d @ w2 @ X, c) =
      Some (p1, dropWhile is_ws (dropWhile is_deco (dropWhile is_ws (w1 @ d @ w2 @ X))), c)"
    unfolding HL_ANCHOR_DECORATION_RE_def
    by (meson rfirst_RSeq rfirst_RStar_RCls)
  then show ?thesis using drop_decoration [OF assms] by auto
qed

lemma nat_str_Cons: "\<exists>x xs. nat_str n = x # xs \<and> is_digit x"
  using nat_str_not_Nil [of n] nat_str_digits [of _ n] by (cases "nat_str n") auto

lemma rfirst_number:
  assumes "is_lower a"
  shows "\<exists>p'. rfirst (RCap k RDigits) (p, nat_str n @ a # s, c) = Some (p', a # s, (k, nat_str n) # c)"
proof -
  obtain x xs where n: "nat_str n = x # xs" "is_digit x" using nat_str_Cons by blast
  moreover have "\<And>y. y \<in> set xs \<Longrightarrow> is_digit y" using nat_str_digits [of _ n] n by auto
  ultimately have "rfirst RDigits (p, nat_str n @ a # s, c) =
      Some (last_of (Some x) (takeWhile is_digit (xs @ a # s)), a # s, c)"
    using assms by (subst rfirst_RDigits [of _ x "xs @ a # s"]) (auto simp: dropWhile_append)
  from rfirst_RCap [OF this, of k] show ?thesis by simp
qed

lemma rfirst_two_letters:
  assumes "is_lower a" "is_lower b"
  shows "\<exists>p'. rfirst (RCap k (RSeq (RCls is_lower) (RCls is_lower))) (p, a # b # s, c)
           = Some (p', s, (k, [a, b]) # c)"
proof -
  have "rfirst (RSeq (RCls is_lower) (RCls is_lower)) (p, a # b # s, c) = Some (Some b, s, c)"
    using assms by (intro rfirst_RSeq) auto
  from rfirst_RCap [OF this, of k] show ?thesis by (simp add: numeral_2_eq_2)
qed

lemma parse_tag_match:
  assumes "list_all is_ws w1" "list_all is_deco d" "list_all is_ws w2" "is_lower a" "is_lower b"
  shows "\<exists>p'. rexec PARSE_TAG_RE (w1 @ d @ w2 @ nat_str n @ a # b # s)
           = Some (p', s, [(2, [a, b]), (1, nat_str n)])"
proof -
  obtain x xs where "nat_str n = x # xs" "is_digit x" using nat_str_Cons by blast
  then obtain p1 where 1: "rfirst HL_ANCHOR_DECORATION_RE
      (None, w1 @ d @ w2 @ nat_str n @ a # b # s, []) = Some (p1, nat_str n @ a # b # s, [])"
    using rfirst_decoration [OF assms(1-3), of "nat_str n @ a # b # s" x "xs @ a # b # s" None "[]"]
    by auto
  obtain p2 where 2: "rfirst (RCap 1 RDigits) (p1, nat_str n @ a # b # s, [])
      = Some (p2, a # b # s, [(1, nat_str n)])"
    using rfirst_number [OF assms(4)] by blast
  obtain p3 where 3: "rfirst (RCap 2 (RSeq (RCls is_lower) (RCls is_lower)))
      (p2, a # b # s, [(1, nat_str n)]) = Some (p3, s, [(2, [a, b]), (1, nat_str n)])"
    using rfirst_two_letters [OF assms(4,5)] by blast
  show ?thesis
    unfolding rexec_def PARSE_TAG_RE_def
    using rfirst_RSeq [OF 1 rfirst_RSeq [OF 2 3]] by blast
qed

lemma relocate_scan_spec:
  "distinct ns \<Longrightarrow> (\<And>k. found = Some k \<Longrightarrow> k \<notin> set ns) \<Longrightarrow>
   relocate_scan xx m fl ns found = Some k \<longleftrightarrow>
     set_option found \<union> {n \<in> set ns. n \<noteq> hm_line m \<and> computeLineHash xx n (file_line fl n) = hm_expected m}
       = {k}"
proof (induction xx m fl ns found rule: relocate_scan.induct)
  case (1 xx m fl found)
  then show ?case by (cases found) auto
next
  case (2 xx m fl n ns found)
  show ?case
  proof (cases "n = hm_line m \<or> computeLineHash xx n (file_line fl n) \<noteq> hm_expected m")
    case True
    moreover have "{i \<in> set (n # ns). i \<noteq> hm_line m \<and> computeLineHash xx i (file_line fl i) = hm_expected m}
        = {i \<in> set ns. i \<noteq> hm_line m \<and> computeLineHash xx i (file_line fl i) = hm_expected m}"
      using True by auto
    ultimately show ?thesis using "2" by auto
  next
    case False
    then have hit: "{i \<in> set (n # ns). i \<noteq> hm_line m \<and> computeLineHash xx i (file_line fl i) = hm_expected m}
        = insert n {i \<in> set ns. i \<noteq> hm_line m \<and> computeLineHash xx i (file_line fl i) = hm_expected m}"
      by auto
    show ?thesis
    proof (cases found)
      case None
      with False "2" show ?thesis unfolding hit by auto
    next
      case (Some f)
      with "2.prems" have "f \<noteq> n" by auto
      with Some False show ?thesis unfolding hit by auto
    qed
  qed
qed

lemma set_window: "set (window w n len) = {i. 1 \<le> i \<and> i \<le> len \<and> n \<le> i + w \<and> i \<le> n + w}"
  by (auto simp: window_def)

lemma findRelocatedLine_in_file: "findRelocatedLine xx m fl = Some k \<Longrightarrow> 1 \<le> k \<and> k \<le> length fl"
proof -
  let ?w = "window MISMATCH_RELOCATE_WINDOW (hm_line m) (length fl)"
  assume "findRelocatedLine xx m fl = Some k"
  then have "{n \<in> set ?w. n \<noteq> hm_line m \<and> computeLineHash xx n (file_line fl n) = hm_expected m} = {k}"
    using relocate_scan_spec [of ?w None xx m fl k]
    unfolding findRelocatedLine_def by (simp add: window_def)
  then have "k \<in> set ?w" by blast
  then show ?thesis by (simp add: set_window)
qed

definition shown :: "(jstr \<Rightarrow> nat) \<Rightarrow> jstr list \<Rightarrow> hash_mismatch \<Rightarrow> nat set" where
  "shown xx fl m = {i. 1 \<le> i \<and> i \<le> length fl \<and> hm_line m \<le> i + MISMATCH_CONTEXT \<and> i \<le> hm_line m + MISMATCH_CONTEXT}
     \<union> set_option (findRelocatedLine xx m fl)"

lemma view_fold:
  "distinct (snd st) \<Longrightarrow>
   distinct (snd (foldl (view_step xx fl) st ms)) \<and>
   set (snd (foldl (view_step xx fl) st ms)) = set (snd st) \<union> (\<Union>m \<in> set ms. shown xx fl m)"
proof (induction ms arbitrary: st)
  case (Cons m ms)
  have "distinct (snd (view_step xx fl st m))"
    and "set (snd (view_step xx fl st m)) = set (snd st) \<union> shown xx fl m"
    using Cons.prems by (auto simp: view_step_def Let_def shown_def set_window split: option.splits)
  with Cons.IH [of "view_step xx fl st m"] show ?case by (simp add: Un_assoc)
qed simp

section \<open>Properties\<close>

text \<open>A tag printed by \<open>formatLineHash\<close>, decorated the way tool output decorates it and followed by
  anything, is read back by \<open>parseTag\<close> as its line number and its identifier.\<close>

theorem parseTag_formatLineHash:
  assumes "list_all is_ws w1" "list_all is_deco d" "list_all is_ws w2" "1 \<le> n"
  shows "parseTag (w1 @ d @ w2 @ formatLineHash xx n l @ s) = Inr (n, computeLineHash xx n l)"
proof -
  obtain a b where h: "computeLineHash xx n l = [a, b]" "is_lower a" "is_lower b"
    using clh.pair by blast
  from parse_tag_match [OF assms(1-3) h(2,3), of n s] obtain p' where
    "rexec PARSE_TAG_RE (w1 @ d @ w2 @ nat_str n @ a # b # s) = Some (p', s, [(2, [a, b]), (1, nat_str n)])"
    by blast
  then show ?thesis
    using assms(4) h(1) by (simp add: parseTag_def formatLineHash_def cap_def)
qed

theorem parseTag_formatLineHash_witness:
  "parseTag ([32] @ [62] @ [32] @ formatLineHash (\<lambda>_. 0) 42 (js ''x'') @ js ''|x'')
     = Inr (42, computeLineHash (\<lambda>_. 0) 42 (js ''x''))"
  by (rule parseTag_formatLineHash) (simp_all add: is_ws_def is_deco_def)

text \<open>The hint for a stale anchor names a line exactly when it is the only other line within the
  relocation window whose identifier is the anchor's.\<close>

theorem findRelocatedLine_unique:
  "findRelocatedLine xx m fl = Some k \<longleftrightarrow>
     {i. 1 \<le> i \<and> i \<le> length fl \<and> hm_line m \<le> i + 20 \<and> i \<le> hm_line m + 20 \<and> i \<noteq> hm_line m
         \<and> computeLineHash xx i (fl ! (i - 1)) = hm_expected m} = {k}"
proof -
  have "{i \<in> set (window 20 (hm_line m) (length fl)). i \<noteq> hm_line m \<and> computeLineHash xx i (file_line fl i) = hm_expected m}
      = {i. 1 \<le> i \<and> i \<le> length fl \<and> hm_line m \<le> i + 20 \<and> i \<le> hm_line m + 20 \<and> i \<noteq> hm_line m
         \<and> computeLineHash xx i (fl ! (i - 1)) = hm_expected m}"
    by (auto simp: set_window file_line_def)
  then show ?thesis
    using relocate_scan_spec [of "window 20 (hm_line m) (length fl)" None xx m fl k]
    unfolding findRelocatedLine_def MISMATCH_RELOCATE_WINDOW_def by (simp add: window_def)
qed

text \<open>A rejection shows, in increasing order and without repetition, exactly the lines of the file
  within two lines of a stale anchor and the lines the anchors' contents moved to.\<close>

theorem buildMismatchView_display:
  "sorted (displayLines (buildMismatchView xx ms fl)) \<and> distinct (displayLines (buildMismatchView xx ms fl))
   \<and> set (displayLines (buildMismatchView xx ms fl)) =
       (\<Union>m \<in> set ms. {i. 1 \<le> i \<and> i \<le> length fl \<and> hm_line m \<le> i + 2 \<and> i \<le> hm_line m + 2}
          \<union> set_option (findRelocatedLine xx m fl))"
  using view_fold [of "([], [])" xx fl ms]
  by (simp add: buildMismatchView_def Let_def shown_def MISMATCH_CONTEXT_def)

end
