(* ===== verification/Hashline_Parser.thy ===== *)
theory Hashline_Parser
  imports Hashline_Anchors
begin

text \<open>
  The parser of hashline edit scripts (\<open>hashline/parser.ts\<close>).  A script is a list of operations, each
  an op line (\<open>\<guillemotleft>ANCHOR\<close> insert before, \<open>\<guillemotright>ANCHOR\<close> insert after, \<open>\<noteq>A..B\<close> replace, with the sigils of
  \<open>Hashline_Hash\<close>) followed by verbatim payload lines.  The regular expressions are those of the
  source, symbol for symbol; every \<open>throw\<close> is a value of \<open>hl_error\<close>.
\<close>

section \<open>Patterns\<close>

text \<open>\<open>([1-9]\d*)\<close> and \<open>([a-z]{2})\<close>\<close>

definition RLineNo :: rx where
  "RLineNo = RSeq (RCls (\<lambda>c. 49 \<le> c \<and> c \<le> 57)) (RStar (RCls is_digit))"

definition RHash2 :: rx where
  "RHash2 = RSeq (RCls is_lower) (RCls is_lower)"

text \<open>\<open>(?:\|.*)?\s*$\<close>\<close>

definition RBodyEnd :: rx where
  "RBodyEnd = RSeq (ROpt (RSeq (RChr 124) (RStar (RCls is_dot)))) (RSeq RWs REnd)"

definition LID_CAPTURE_RE :: rx where
  "LID_CAPTURE_RE =
     RSeq HL_ANCHOR_DECORATION_RE (RSeq (RCap 1 RLineNo) (RSeq (RCap 2 RHash2) RBodyEnd))"

definition HASH_ONLY_REF_RE :: rx where
  "HASH_ONLY_REF_RE = RSeq HL_ANCHOR_DECORATION_RE (RSeq (RCap 1 RHash2) RBodyEnd)"

definition RDotDot :: rx where
  "RDotDot = RSeq (RChr 46) (RChr 46)"

text \<open>A possible range endpoint: \<open>\.\.\s*[>+\-*]*\s*(?:[1-9]\d*|[a-z]{2}(?:\||\s*$))\<close>\<close>

definition REndpoint :: rx where
  "REndpoint =
     RSeq RDotDot (RSeq HL_ANCHOR_DECORATION_RE
       (RAlt RLineNo (RSeq RHash2 (RAlt (RChr 124) (RSeq RWs REnd)))))"

definition BARE_LINE_REF_RE :: rx where
  "BARE_LINE_REF_RE =
     RSeq HL_ANCHOR_DECORATION_RE (RSeq (RCap 1 RLineNo)
       (RSeq (ROpt (RSeq RWs (RSeq (RAlt (RChr 45) RDotDot) (RSeq RWs (RCap 2 RLineNo)))))
         (RSeq (ROpt (RSeq (RChr 124) (RStar (RSeq (RNot REndpoint) (RCls is_dot)))))
           (RSeq RWs REnd))))"

text \<open>\<open>^SIGIL\s*([^|\s]+)(?:\|(.*))?\s*$\<close>\<close>

definition INSERT_OP_RE :: "nat \<Rightarrow> rx" where
  "INSERT_OP_RE sigil =
     RSeq (RChr sigil) (RSeq RWs (RSeq (RCap 1 (RPlus (RCls (\<lambda>c. c \<noteq> 124 \<and> \<not> is_ws c))))
       (RSeq (ROpt (RSeq (RChr HL_BODY_SEP) (RCap 2 (RStar (RCls is_dot))))) (RSeq RWs REnd))))"

text \<open>\<open>^SIGIL\s*([^\s+<\-=]\S*(?:\|.*)?)\s*$\<close>\<close>

definition REPLACE_OP_RE :: rx where
  "REPLACE_OP_RE =
     RSeq (RChr HL_OP_REPLACE) (RSeq RWs
       (RSeq (RCap 1 (RSeq (RCls (\<lambda>c. \<not> is_ws c \<and> c \<noteq> 43 \<and> c \<noteq> 60 \<and> c \<noteq> 45 \<and> c \<noteq> 61))
                  (RSeq (RStar (RCls (\<lambda>c. \<not> is_ws c)))
                        (ROpt (RSeq (RChr 124) (RStar (RCls is_dot)))))))
             (RSeq RWs REnd)))"

lemmas parser_re [js_eval] =
  RLineNo_def RHash2_def RBodyEnd_def LID_CAPTURE_RE_def HASH_ONLY_REF_RE_def RDotDot_def
  REndpoint_def BARE_LINE_REF_RE_def INSERT_OP_RE_def REPLACE_OP_RE_def

text \<open>\<open>match[n]\<close> of a group that always takes part.\<close>

definition grp :: "nat \<Rightarrow> rst \<Rightarrow> jstr" where
  "grp n m = (case cap n m of None \<Rightarrow> [] | Some x \<Rightarrow> x)"

section \<open>Anchors and ranges\<close>

definition parseLid :: "jstr \<Rightarrow> nat \<Rightarrow> nat \<Rightarrow> hl_error + anchor" where
  "parseLid raw n opSigil =
     (case rexec LID_CAPTURE_RE raw of
        Some m \<Rightarrow> Inr \<lparr>anc_line = parse_digits (grp 1 m), anc_hash = grp 2 m\<rparr>
      | None \<Rightarrow>
          (case rexec HASH_ONLY_REF_RE raw of
             Some hashOnly \<Rightarrow> Inl (HashlineMissingLineError (grp 1 hashOnly) opSigil None)
           | None \<Rightarrow>
               (case rexec BARE_LINE_REF_RE raw of
                  Some bare \<Rightarrow>
                    (let start = parse_digits (grp 1 bare);
                         end' = (case cap 2 bare of None \<Rightarrow> start | Some e \<Rightarrow> parse_digits e)
                     in Inl (HashlineMissingHashError n (trim raw) (min start end', max start end')
                               opSigil None))
                | None \<Rightarrow> Inl (Expected_full_anchor n raw))))"

text \<open>The two \<open>catch\<close> blocks of \<open>parseRange\<close>: an endpoint's error is rethrown with the whole range.\<close>

definition with_range :: "jstr \<Rightarrow> jstr \<Rightarrow> hl_error + anchor \<Rightarrow> hl_error + anchor" where
  "with_range startRaw endRaw r =
     (case r of
        Inl (HashlineMissingHashError n raw ls sg _) \<Rightarrow>
          Inl (HashlineMissingHashError n raw ls sg (Some (startRaw, endRaw)))
      | Inl (HashlineMissingLineError h sg _) \<Rightarrow>
          Inl (HashlineMissingLineError h sg (Some (startRaw, endRaw)))
      | _ \<Rightarrow> r)"

definition parseRange :: "jstr \<Rightarrow> nat \<Rightarrow> nat \<Rightarrow> hl_error + (anchor \<times> anchor)" where
  "parseRange raw n opSigil =
     and_then (if rtest BARE_LINE_REF_RE raw then map_sum id (\<lambda>_. ()) (parseLid raw n opSigil) else Inr ())
       (\<lambda>_.
        if \<not> str_includes (js ''..'') raw
        then and_then (parseLid raw n opSigil) (\<lambda>start. Inr (start, start))
        else (case split_pair 46 46 raw of
                [startRaw, endRaw] \<Rightarrow>
                  if startRaw = [] \<or> endRaw = [] then Inl (Range_needs_two_anchors n)
                  else and_then (with_range startRaw endRaw (parseLid startRaw n opSigil)) (\<lambda>start.
                       and_then (with_range startRaw endRaw (parseLid endRaw n opSigil)) (\<lambda>end'.
                       if anc_line end' < anc_line start
                       then Inl (Range_ends_before_start n startRaw endRaw)
                       else if anc_line end' = anc_line start \<and> anc_hash end' \<noteq> anc_hash start
                       then Inl (Range_two_hashes n startRaw endRaw)
                       else Inr (start, end')))
              | _ \<Rightarrow> Inl (Range_needs_two_anchors n)))"

definition expandRange :: "anchor \<times> anchor \<Rightarrow> anchor list" where
  "expandRange r =
     map (\<lambda>n. \<lparr>anc_line = n,
              anc_hash = (if n = anc_line (fst r) then anc_hash (fst r)
                          else if n = anc_line (snd r) then anc_hash (snd r)
                          else RANGE_INTERIOR_HASH)\<rparr>)
       [anc_line (fst r)..<Suc (anc_line (snd r))]"

datatype insert_kind = Before | After

definition sigil_of :: "insert_kind \<Rightarrow> nat" where
  "sigil_of k = (case k of Before \<Rightarrow> HL_OP_INSERT_BEFORE | After \<Rightarrow> HL_OP_INSERT_AFTER)"

definition parseInsertTarget :: "jstr \<Rightarrow> nat \<Rightarrow> insert_kind \<Rightarrow> hl_error + cursor" where
  "parseInsertTarget raw n kind =
     (if raw = js ''BOF'' then Inr Bof
      else if raw = js ''EOF'' then Inr Eof
      else and_then (parseLid raw n (sigil_of kind))
             (\<lambda>a. Inr (case kind of Before \<Rightarrow> Before_Anchor a | After \<Rightarrow> After_Anchor a)))"

definition resolveInlineInsertBody ::
  "(jstr \<Rightarrow> nat) \<Rightarrow> cursor \<Rightarrow> jstr option \<Rightarrow> jstr option" where
  "resolveInlineInsertBody xx cur body =
     (case body of
        None \<Rightarrow> None
      | Some b \<Rightarrow>
          (case cur of
             Before_Anchor a \<Rightarrow> if computeLineHash xx (anc_line a) b = anc_hash a then None else Some b
           | After_Anchor a \<Rightarrow> if computeLineHash xx (anc_line a) b = anc_hash a then None else Some b
           | _ \<Rightarrow> Some b))"

section \<open>Payload\<close>

definition isEnvelopeOrAbortMarkerLine :: "jstr \<Rightarrow> bool" where
  "isEnvelopeOrAbortMarkerLine l \<longleftrightarrow>
     trimEnd l = BEGIN_PATCH_MARKER \<or> trimEnd l = END_PATCH_MARKER \<or> trimEnd l = ABORT_MARKER"

definition isPayloadTerminatorLine :: "jstr \<Rightarrow> bool" where
  "isPayloadTerminatorLine l \<longleftrightarrow>
     (l \<noteq> [] \<and> (hd l = HL_FILE_PREFIX \<or> hd l \<in> set HL_OP_CHARS)) \<or> isEnvelopeOrAbortMarkerLine l"

text \<open>The context of an insert that needs payload (\<open>None\<close> when the op line carried usable text): the op
  token and whether its text echoed the anchored line.\<close>

definition emptyInsertContext :: "nat \<Rightarrow> rst \<Rightarrow> jstr option \<Rightarrow> (jstr \<times> bool) option" where
  "emptyInsertContext sigil m inlineBody =
     (case inlineBody of Some _ \<Rightarrow> None | None \<Rightarrow> Some (sigil # grp 1 m, cap 2 m \<noteq> None))"

text \<open>\<open>collectPayload\<close> over the lines after the op line: the payload, and the lines that follow it.\<close>

definition collectPayload ::
  "jstr list \<Rightarrow> nat \<Rightarrow> (jstr \<times> bool) option \<Rightarrow> hl_error + (jstr list \<times> jstr list)" where
  "collectPayload ls opLineNum emptyInsert =
     (let payload = takeWhile (\<lambda>l. \<not> isPayloadTerminatorLine l) ls;
          rest = dropWhile (\<lambda>l. \<not> isPayloadTerminatorLine l) ls
      in case emptyInsert of
           Some (op, echoed) \<Rightarrow>
             if payload = [] then Inl (Empty_insert opLineNum op echoed) else Inr (payload, rest)
         | None \<Rightarrow> Inr (payload, rest))"

section \<open>The script\<close>

definition ABORT_WARNING :: jstr where
  "ABORT_WARNING = js ''Tool stream truncated mid-call due to detected output corruption. Applied ops above are valid. Re-issue any remaining edits.''"

definition inserts_at :: "cursor \<Rightarrow> nat \<Rightarrow> nat \<Rightarrow> jstr list \<Rightarrow> hl_edit list" where
  "inserts_at cur n idx ts = map (\<lambda>i. Ins cur (ts ! i) n (idx + i)) [0..<length ts]"

definition deletes_at :: "nat \<Rightarrow> nat \<Rightarrow> anchor list \<Rightarrow> hl_edit list" where
  "deletes_at n idx as = map (\<lambda>i. Del (as ! i) n (idx + i)) [0..<length as]"

text \<open>One op line: the edits it makes and the lines left after its payload.  \<open>None\<close>: not an op line.\<close>

definition parse_insert_op ::
  "(jstr \<Rightarrow> nat) \<Rightarrow> insert_kind \<Rightarrow> jstr \<Rightarrow> jstr list \<Rightarrow> nat \<Rightarrow> nat
     \<Rightarrow> (hl_error + (hl_edit list \<times> jstr list)) option" where
  "parse_insert_op xx kind l ls n idx =
     (case rexec (INSERT_OP_RE (sigil_of kind)) l of
        None \<Rightarrow> None
      | Some m \<Rightarrow> Some (
          and_then (parseInsertTarget (grp 1 m) n kind) (\<lambda>cur.
          let inlineBody = resolveInlineInsertBody xx cur (cap 2 m)
          in and_then (collectPayload ls n (emptyInsertContext (sigil_of kind) m inlineBody)) (\<lambda>(payload, rest).
             Inr (inserts_at cur n idx ((case inlineBody of None \<Rightarrow> [] | Some b \<Rightarrow> [b]) @ payload), rest)))))"

definition parse_replace_op ::
  "jstr \<Rightarrow> jstr list \<Rightarrow> nat \<Rightarrow> nat \<Rightarrow> (hl_error + (hl_edit list \<times> jstr list)) option" where
  "parse_replace_op l ls n idx =
     (case rexec REPLACE_OP_RE l of
        None \<Rightarrow> None
      | Some m \<Rightarrow> Some (
          and_then (parseRange (grp 1 m) n HL_OP_REPLACE) (\<lambda>range.
          and_then (collectPayload ls n None) (\<lambda>(payload, rest).
          Inr (inserts_at (Before_Anchor (fst range)) n idx payload
                 @ deletes_at n (idx + length payload) (expandRange range), rest)))))"

definition parse_op ::
  "(jstr \<Rightarrow> nat) \<Rightarrow> jstr \<Rightarrow> jstr list \<Rightarrow> nat \<Rightarrow> nat \<Rightarrow> hl_error + (hl_edit list \<times> jstr list)" where
  "parse_op xx l ls n idx =
     (case parse_insert_op xx Before l ls n idx of
        Some r \<Rightarrow> r
      | None \<Rightarrow>
          (case parse_insert_op xx After l ls n idx of
             Some r \<Rightarrow> r
           | None \<Rightarrow>
               (case parse_replace_op l ls n idx of
                  Some r \<Rightarrow> r
                | None \<Rightarrow>
                    if isPayloadTerminatorLine l \<or> (l \<noteq> [] \<and> hd l \<in> {45, 64, 182})
                    then Inl (Unrecognized_op n l)
                    else Inl (Payload_without_op n l))))"

text \<open>Every op line consumes at least itself.\<close>

lemma collectPayload_rest:
  "collectPayload ls n e = Inr (payload, rest) \<Longrightarrow> length rest \<le> length ls"
  by (auto simp: collectPayload_def Let_def length_dropWhile_le split: option.splits if_splits)

lemma parse_op_rest: "parse_op xx l ls n idx = Inr (es, rest) \<Longrightarrow> length rest \<le> length ls"
  by (auto simp: parse_op_def parse_insert_op_def parse_replace_op_def and_then_Inr Let_def
      split: option.splits if_splits prod.splits dest: collectPayload_rest)

text \<open>The main loop, from line \<open>n\<close> with the next edit index \<open>idx\<close>: the edits and the warnings.\<close>

function parse_loop ::
  "(jstr \<Rightarrow> nat) \<Rightarrow> jstr list \<Rightarrow> nat \<Rightarrow> nat \<Rightarrow> hl_error + (hl_edit list \<times> jstr list)" where
  "parse_loop xx [] n idx = Inr ([], [])"
| "parse_loop xx (l # ls) n idx =
     (if trim l = [] then parse_loop xx ls (n + 1) idx
      else if l = END_PATCH_MARKER then Inr ([], [])
      else if l = ABORT_MARKER then Inr ([], [ABORT_WARNING])
      else if l = BEGIN_PATCH_MARKER then parse_loop xx ls (n + 1) idx
      else (case parse_op xx l ls n idx of
              Inl e \<Rightarrow> Inl e
            | Inr (es, rest) \<Rightarrow>
                (case parse_loop xx rest (n + 1 + (length ls - length rest)) (idx + length es) of
                   Inl e \<Rightarrow> Inl e
                 | Inr (es', ws) \<Rightarrow> Inr (es @ es', ws))))"
  by pat_completeness auto
termination
  by (relation "measure (\<lambda>(xx, ls, n, idx). length ls)") (auto dest: parse_op_rest)

declare parse_loop.simps [simp del]

lemma parse_loop_Nil [simp]: "parse_loop xx [] n idx = Inr ([], [])"
  by (simp add: parse_loop.simps)

definition script_lines :: "jstr \<Rightarrow> jstr list" where
  "script_lines diff =
     (let ls = split_crlf diff
      in if diff \<noteq> [] \<and> last diff = 10 \<and> last ls = [] then butlast ls else ls)"

definition parseHashlineWithWarnings ::
  "(jstr \<Rightarrow> nat) \<Rightarrow> jstr \<Rightarrow> hl_error + (hl_edit list \<times> jstr list)" where
  "parseHashlineWithWarnings xx diff = parse_loop xx (script_lines diff) 1 0"

definition parseHashline :: "(jstr \<Rightarrow> nat) \<Rightarrow> jstr \<Rightarrow> hl_error + hl_edit list" where
  "parseHashline xx diff = map_sum id fst (parseHashlineWithWarnings xx diff)"

section \<open>Anchors that the parser accepts\<close>

text \<open>A full anchor: a line number from 1 on and a two-letter identifier.\<close>

definition full_anchor :: "anchor \<Rightarrow> bool" where
  "full_anchor a \<longleftrightarrow> 1 \<le> anc_line a \<and> (\<exists>x y. anc_hash a = [x, y] \<and> is_lower x \<and> is_lower y)"

lemma parse_digits_ge: "foldl (\<lambda>n c. 10 * n + (c - 48)) n xs \<ge> (n::nat)"
proof (induction xs arbitrary: n)
  case (Cons x xs)
  have "n \<le> 10 * n + (x - 48)" by simp
  with Cons [of "10 * n + (x - 48)"] show ?case by simp
qed simp

lemma lineno_pos:
  assumes "d \<in> lang RLineNo"
  shows "1 \<le> parse_digits d"
proof -
  from assms obtain x xs where "d = x # xs" "49 \<le> x"
    by (auto simp: RLineNo_def)
  then show ?thesis
    using parse_digits_ge [of "x - 48" xs] by (simp add: parse_digits_def)
qed

lemma cap_free_parts [simp]:
  "cap_free HL_ANCHOR_DECORATION_RE" "cap_free RLineNo" "cap_free RHash2" "cap_free RBodyEnd"
  by (simp_all add: HL_ANCHOR_DECORATION_RE_def RLineNo_def RHash2_def RBodyEnd_def ROpt_def RChr_def)

lemma lid_match:
  assumes "rexec LID_CAPTURE_RE raw = Some m"
  shows "\<exists>d h. d \<in> lang RLineNo \<and> h \<in> lang RHash2 \<and> grp 1 m = d \<and> grp 2 m = h"
proof -
  from rexec_in [OF assms] obtain s1 s2 s3 where
    s1: "s1 \<in> set (rmatch HL_ANCHOR_DECORATION_RE (None, raw, []))" and
    s2: "s2 \<in> set (rmatch (RCap 1 RLineNo) s1)" and
    s3: "s3 \<in> set (rmatch (RCap 2 RHash2) s2)" and
    m: "m \<in> set (rmatch RBodyEnd s3)"
    unfolding LID_CAPTURE_RE_def by (auto simp del: rmatch.simps(6))
  have "snd (snd s1) = []" using rmatch_cap_free [OF _ s1] by simp
  moreover obtain d where "d \<in> lang RLineNo" "snd (snd s2) = (1, d) # snd (snd s1)"
    using rmatch_RCap [OF _ s2] by auto
  moreover obtain h where "h \<in> lang RHash2" "snd (snd s3) = (2, h) # snd (snd s2)"
    using rmatch_RCap [OF _ s3] by auto
  moreover have "snd (snd m) = snd (snd s3)" using rmatch_cap_free [OF _ m] by simp
  ultimately show ?thesis by (auto simp: grp_def cap_def)
qed

lemma parseLid_full: "parseLid raw n sg = Inr a \<Longrightarrow> full_anchor a"
  using lineno_pos
  by (auto simp: parseLid_def full_anchor_def Let_def RHash2_def split: option.splits dest!: lid_match)

lemma with_range_Inr [simp]: "with_range u v r = Inr c \<longleftrightarrow> r = Inr c"
  by (cases r) (auto simp: with_range_def split: hl_error.splits)

lemma parseRange_full:
  assumes "parseRange raw n sg = Inr (a, b)"
  shows "full_anchor a \<and> full_anchor b \<and> anc_line a \<le> anc_line b
         \<and> (anc_line a = anc_line b \<longrightarrow> anc_hash a = anc_hash b)"
proof (cases "str_includes (js ''..'') raw")
  case False
  with assms have "parseLid raw n sg = Inr a \<and> b = a"
    by (auto simp: parseRange_def and_then_Inr)
  then show ?thesis using parseLid_full by auto
next
  case True
  with assms obtain u v where "parseLid u n sg = Inr a" "parseLid v n sg = Inr b"
    "\<not> anc_line b < anc_line a" "\<not> (anc_line b = anc_line a \<and> anc_hash b \<noteq> anc_hash a)"
    unfolding parseRange_def
    by (cases "split_pair 46 46 raw" rule: list.exhaust)
      (auto simp: and_then_Inr split: if_splits list.split_asm)
  then show ?thesis using parseLid_full by (metis not_less)
qed

text \<open>What every list of parsed edits satisfies: inserts name full anchors, and a deleted line without
  an identifier of its own lies strictly between two full anchors that the same op deletes.\<close>

definition cursor_anchored :: "cursor \<Rightarrow> bool" where
  "cursor_anchored c = (case c of Before_Anchor a \<Rightarrow> full_anchor a | After_Anchor a \<Rightarrow> full_anchor a | _ \<Rightarrow> True)"

definition edit_anchored :: "hl_edit set \<Rightarrow> hl_edit \<Rightarrow> bool" where
  "edit_anchored S e =
     (case e of
        Ins c t n i \<Rightarrow> cursor_anchored c
      | Del a n i \<Rightarrow> full_anchor a \<or>
          (anc_hash a = RANGE_INTERIOR_HASH \<and>
           (\<exists>b j c k. Del b n j \<in> S \<and> full_anchor b \<and> anc_line b < anc_line a \<and>
                      Del c n k \<in> S \<and> full_anchor c \<and> anc_line a < anc_line c)))"

definition well_anchored :: "hl_edit list \<Rightarrow> bool" where
  "well_anchored es \<longleftrightarrow> (\<forall>e \<in> set es. edit_anchored (set es) e)"

lemma edit_anchored_mono: "edit_anchored S e \<Longrightarrow> S \<subseteq> T \<Longrightarrow> edit_anchored T e"
  unfolding edit_anchored_def by (cases e) (simp, simp, blast)

lemma well_anchored_append: "well_anchored es \<Longrightarrow> well_anchored es' \<Longrightarrow> well_anchored (es @ es')"
  unfolding well_anchored_def using edit_anchored_mono [of "set es"] edit_anchored_mono [of "set es'"]
  by (metis (no_types, lifting) Un_iff set_append Un_upper1 Un_upper2)

lemma well_anchored_Nil [simp]: "well_anchored []"
  by (simp add: well_anchored_def)

lemma well_anchored_inserts: "cursor_anchored c \<Longrightarrow> well_anchored (inserts_at c n idx ts)"
  by (auto simp: well_anchored_def edit_anchored_def inserts_at_def)

lemma expandRange_length: "length (expandRange (a, b)) = Suc (anc_line b) - anc_line a"
  by (auto simp: expandRange_def)

lemma expandRange_nth:
  "i < Suc (anc_line b) - anc_line a \<Longrightarrow>
   expandRange (a, b) ! i =
     \<lparr>anc_line = anc_line a + i,
      anc_hash = (if i = 0 then anc_hash a else if anc_line a + i = anc_line b then anc_hash b
                  else RANGE_INTERIOR_HASH)\<rparr>"
  by (simp add: expandRange_def nth_map del: upt_Suc)

lemma well_anchored_deletes:
  assumes "full_anchor a" "full_anchor b" "anc_line a \<le> anc_line b"
  shows "well_anchored (deletes_at n idx (expandRange (a, b)))"
proof -
  define k where "k = Suc (anc_line b) - anc_line a"
  define r where "r = expandRange (a, b)"
  let ?S = "set (deletes_at n idx r)"
  have len: "length r = k" by (simp add: r_def k_def expandRange_length)
  have mem: "Del (r ! i) n (idx + i) \<in> ?S" if "i < k" for i
    using that len by (auto simp: deletes_at_def)
  have full: "full_anchor (r ! 0)" "full_anchor (r ! (k - 1))" and k: "0 < k"
    using assms by (auto simp: r_def k_def expandRange_nth full_anchor_def)
  have "edit_anchored ?S (Del (r ! i) n (idx + i))" if i: "i < k" for i
  proof (cases "full_anchor (r ! i)")
    case False
    with i assms have "anc_hash (r ! i) = RANGE_INTERIOR_HASH"
      "anc_line (r ! 0) < anc_line (r ! i)" "anc_line (r ! i) < anc_line (r ! (k - 1))"
      by (auto simp: r_def k_def expandRange_nth full_anchor_def split: if_splits)
    with full k mem [of 0] mem [of "k - 1"] show ?thesis
      by (auto simp: edit_anchored_def simp del: One_nat_def)
  qed (simp add: edit_anchored_def)
  then show ?thesis
    by (auto simp: well_anchored_def deletes_at_def len simp flip: r_def)
qed

lemma parseInsertTarget_anchored: "parseInsertTarget raw n k = Inr c \<Longrightarrow> cursor_anchored c"
  by (cases k) (auto simp: parseInsertTarget_def cursor_anchored_def and_then_Inr
      split: if_splits dest: parseLid_full)

text \<open>The three shapes of a successful op line.\<close>

lemma parse_insert_opD:
  "parse_insert_op xx k l ls n idx = Some (Inr (es, rest)) \<Longrightarrow>
   \<exists>raw c ts. parseInsertTarget raw n k = Inr c \<and> es = inserts_at c n idx ts"
  unfolding parse_insert_op_def
  by (auto simp: and_then_Inr Let_def split: option.splits prod.splits) blast+

lemma parse_replace_opD:
  "parse_replace_op l ls n idx = Some (Inr (es, rest)) \<Longrightarrow>
   \<exists>raw a b ts. parseRange raw n HL_OP_REPLACE = Inr (a, b) \<and>
     es = inserts_at (Before_Anchor a) n idx ts @ deletes_at n (idx + length ts) (expandRange (a, b))"
  unfolding parse_replace_op_def
  by (auto simp: and_then_Inr split: option.splits prod.splits)

lemma parse_opD:
  "parse_op xx l ls n idx = Inr (es, rest) \<Longrightarrow>
   (\<exists>k. parse_insert_op xx k l ls n idx = Some (Inr (es, rest))) \<or>
   parse_replace_op l ls n idx = Some (Inr (es, rest))"
  unfolding parse_op_def by (auto split: option.splits if_splits)

lemma parse_op_anchored:
  assumes "parse_op xx l ls n idx = Inr (es, rest)"
  shows "well_anchored es"
  using parse_opD [OF assms]
proof (elim disjE exE)
  fix k assume "parse_insert_op xx k l ls n idx = Some (Inr (es, rest))"
  then show ?thesis
    by (auto dest!: parse_insert_opD intro: well_anchored_inserts parseInsertTarget_anchored)
next
  assume "parse_replace_op l ls n idx = Some (Inr (es, rest))"
  then obtain raw a b ts where r: "parseRange raw n HL_OP_REPLACE = Inr (a, b)"
    and es: "es = inserts_at (Before_Anchor a) n idx ts @ deletes_at n (idx + length ts) (expandRange (a, b))"
    by (auto dest!: parse_replace_opD)
  from parseRange_full [OF r] show ?thesis unfolding es
    by (intro well_anchored_append well_anchored_inserts well_anchored_deletes)
      (auto simp: cursor_anchored_def)
qed

lemma parse_loop_anchored: "parse_loop xx ls n idx = Inr (es, ws) \<Longrightarrow> well_anchored es"
proof (induction xx ls n idx arbitrary: es ws rule: parse_loop.induct)
  case (2 xx l ls n idx)
  then show ?case
    by (auto simp: parse_loop.simps(2) [of xx l ls n idx] split: if_splits sum.splits prod.splits
        intro!: well_anchored_append dest: parse_op_anchored)
qed simp

section \<open>Edit indices\<close>

lemma map_eindex_inserts [simp]: "map eindex (inserts_at c n idx ts) = [idx..<idx + length ts]"
  by (auto simp: inserts_at_def intro: nth_equalityI)

lemma map_eindex_deletes [simp]: "map eindex (deletes_at n idx as) = [idx..<idx + length as]"
  by (auto simp: deletes_at_def intro: nth_equalityI)

lemma length_inserts [simp]: "length (inserts_at c n idx ts) = length ts"
  by (simp add: inserts_at_def)

lemma length_deletes [simp]: "length (deletes_at n idx as) = length as"
  by (simp add: deletes_at_def)

lemma parse_op_indices:
  assumes "parse_op xx l ls n idx = Inr (es, rest)"
  shows "map eindex es = [idx..<idx + length es]"
  using parse_opD [OF assms]
  by (auto dest!: parse_insert_opD parse_replace_opD simp: add.assoc)

lemma parse_loop_indices:
  "parse_loop xx ls n idx = Inr (es, ws) \<Longrightarrow> map eindex es = [idx..<idx + length es]"
proof (induction xx ls n idx arbitrary: es ws rule: parse_loop.induct)
  case (2 xx l ls n idx)
  then show ?case
    by (auto simp: parse_loop.simps(2) [of xx l ls n idx] add.assoc
        split: if_splits sum.splits prod.splits dest: parse_op_indices)
qed simp

end
