(* ===== verification/Hashline_Absorb.thy ===== *)
theory Hashline_Absorb
  imports Hashline_Parser
begin

text \<open>
  Boundary repair of hashline edits (\<open>hashline/apply.ts\<close>, up to
  \<open>absorbReplacementBoundaryDuplicates\<close>): a replacement whose payload repeats the lines just above or
  below its range is widened over them, and a pure insert drops payload lines that repeat its
  surroundings.  An edit of the result is paired with the position of the caller's edit object it is
  (\<open>None\<close> for an object made here), because the caller's objects are mutated afterwards.
\<close>

type_synonym edit_ref = "nat option \<times> hl_edit"

record apply_options =
  autoDropPureInsertDuplicates :: bool

section \<open>Anchors of an edit\<close>

fun cursor_anchor :: "cursor \<Rightarrow> anchor option" where
  "cursor_anchor (Before_Anchor a) = Some a"
| "cursor_anchor (After_Anchor a) = Some a"
| "cursor_anchor _ = None"

fun getHashlineEditAnchors :: "hl_edit \<Rightarrow> anchor list" where
  "getHashlineEditAnchors (Del a _ _) = [a]"
| "getHashlineEditAnchors (Ins c _ _ _) = (case cursor_anchor c of None \<Rightarrow> [] | Some a \<Rightarrow> [a])"

fun getAnchorTargetLine :: "hl_edit \<Rightarrow> nat option" where
  "getAnchorTargetLine (Del a _ _) = Some (anc_line a)"
| "getAnchorTargetLine (Ins c _ _ _) = map_option anc_line (cursor_anchor c)"

definition collectAnchorTargetLines :: "hl_edit list \<Rightarrow> nat list" where
  "collectAnchorTargetLines es =
     fold (\<lambda>e ls. case getAnchorTargetLine e of None \<Rightarrow> ls | Some l \<Rightarrow> set_add l ls) es []"

section \<open>Replacement groups\<close>

record replacement_group =
  rg_startIndex :: nat
  rg_endIndex :: nat
  rg_sourceLineNum :: nat
  rg_replacement :: "jstr list"
  rg_deletes :: "anchor list"

fun before_insert_of :: "nat \<Rightarrow> hl_edit \<Rightarrow> bool" where
  "before_insert_of n (Ins (Before_Anchor _) _ m _) \<longleftrightarrow> m = n"
| "before_insert_of n _ \<longleftrightarrow> False"

fun delete_of :: "nat \<Rightarrow> hl_edit \<Rightarrow> bool" where
  "delete_of n (Del _ m _) \<longleftrightarrow> m = n"
| "delete_of n (Ins _ _ _ _) \<longleftrightarrow> False"

definition findReplacementGroup :: "hl_edit list \<Rightarrow> nat \<Rightarrow> replacement_group option" where
  "findReplacementGroup es start =
     (case arr_get es start of
        Some (Ins (Before_Anchor cur) _ sourceLineNum _) \<Rightarrow>
          (let ins = takeWhile (before_insert_of sourceLineNum) (drop start es);
               dels = takeWhile (delete_of sourceLineNum) (drop (start + length ins) es);
               deletes = map eanchor dels
           in if dels = [] then None
              else if \<not> list_all (\<lambda>offset. anc_line (deletes ! offset) = anc_line (deletes ! 0) + offset)
                          [0..<length deletes] then None
              else if anc_line cur \<noteq> anc_line (deletes ! 0) then None
              else Some \<lparr>rg_startIndex = start, rg_endIndex = start + length ins + length dels - 1,
                         rg_sourceLineNum = sourceLineNum, rg_replacement = map etext ins,
                         rg_deletes = deletes\<rparr>)
      | _ \<Rightarrow> None)"

text \<open>The loops \<open>for (count = max; count >= 2; count--)\<close>: the first count that passes, or 0.\<close>

fun count_down :: "(nat \<Rightarrow> bool) \<Rightarrow> nat \<Rightarrow> nat" where
  "count_down ok 0 = 0"
| "count_down ok (Suc c) = (if Suc c < 2 then 0 else if ok (Suc c) then Suc c else count_down ok c)"

definition countMatchingPrefixBlock :: "jstr list \<Rightarrow> nat \<Rightarrow> jstr list \<Rightarrow> nat" where
  "countMatchingPrefixBlock fl startLine repl =
     count_down (\<lambda>count. list_all (\<lambda>offset. arr_get fl (startLine - count - 1 + offset) = arr_get repl offset)
         [0..<count])
       (min (length repl) (startLine - 1))"

definition countMatchingSuffixBlock :: "jstr list \<Rightarrow> nat \<Rightarrow> jstr list \<Rightarrow> nat" where
  "countMatchingSuffixBlock fl endLine repl =
     count_down (\<lambda>count. list_all (\<lambda>offset. arr_get fl (endLine + offset)
           = arr_get repl (length repl - count + offset)) [0..<count])
       (min (length repl) (length fl - endLine))"

section \<open>Structural closing lines\<close>

definition STRUCTURAL_CLOSING_BOUNDARY_RE :: rx where
  "STRUCTURAL_CLOSING_BOUNDARY_RE =
     RSeqs [RWs, RPlus (RCls (\<lambda>c. c \<in> {93, 41, 125})), ROpt (RCls (\<lambda>c. c \<in> {59, 44})), RWs, REnd]"

definition isStructuralClosingBoundaryLine :: "jstr \<Rightarrow> bool" where
  "isStructuralClosingBoundaryLine l = rtest STRUCTURAL_CLOSING_BOUNDARY_RE l"

record delimiter_balance =
  paren :: int
  bracket :: int
  brace :: int

definition ZERO_DELIMITER_BALANCE :: delimiter_balance where
  "ZERO_DELIMITER_BALANCE = \<lparr>paren = 0, bracket = 0, brace = 0\<rparr>"

definition count_char :: "delimiter_balance \<Rightarrow> nat \<Rightarrow> delimiter_balance" where
  "count_char b c =
     (if c = 40 then b\<lparr>paren := paren b + 1\<rparr>
      else if c = 41 then b\<lparr>paren := paren b - 1\<rparr>
      else if c = 91 then b\<lparr>bracket := bracket b + 1\<rparr>
      else if c = 93 then b\<lparr>bracket := bracket b - 1\<rparr>
      else if c = 123 then b\<lparr>brace := brace b + 1\<rparr>
      else if c = 125 then b\<lparr>brace := brace b - 1\<rparr>
      else b)"

definition computeDelimiterBalance :: "jstr list \<Rightarrow> delimiter_balance" where
  "computeDelimiterBalance ls = foldl (\<lambda>b l. foldl count_char b l) ZERO_DELIMITER_BALANCE ls"

definition delimiterBalancesEqual :: "delimiter_balance \<Rightarrow> delimiter_balance \<Rightarrow> bool" where
  "delimiterBalancesEqual a b \<longleftrightarrow> paren a = paren b \<and> bracket a = bracket b \<and> brace a = brace b"

definition shouldDropSingleStructuralBoundary ::
  "jstr list \<Rightarrow> jstr list \<Rightarrow> delimiter_balance \<Rightarrow> bool" where
  "shouldDropSingleStructuralBoundary fullPayload keptPayload expected \<longleftrightarrow>
     delimiterBalancesEqual (computeDelimiterBalance keptPayload) expected \<and>
     \<not> delimiterBalancesEqual (computeDelimiterBalance fullPayload) expected"

definition countMatchingSingleStructuralPrefixBoundary ::
  "jstr list \<Rightarrow> nat \<Rightarrow> jstr list \<Rightarrow> delimiter_balance \<Rightarrow> nat" where
  "countMatchingSingleStructuralPrefixBoundary fl startLine repl expected =
     (if repl = [] \<or> startLine \<le> 1 then 0
      else if \<not> isStructuralClosingBoundaryLine (repl ! 0) then 0
      else if arr_get fl (startLine - 2) \<noteq> Some (repl ! 0) then 0
      else if shouldDropSingleStructuralBoundary repl (drop 1 repl) expected then 1 else 0)"

definition countMatchingSingleStructuralSuffixBoundary ::
  "jstr list \<Rightarrow> nat \<Rightarrow> jstr list \<Rightarrow> delimiter_balance \<Rightarrow> nat" where
  "countMatchingSingleStructuralSuffixBoundary fl endLine repl expected =
     (if repl = [] \<or> length fl \<le> endLine then 0
      else if \<not> isStructuralClosingBoundaryLine (last repl) then 0
      else if arr_get fl endLine \<noteq> Some (last repl) then 0
      else if shouldDropSingleStructuralBoundary repl (butlast repl) expected then 1 else 0)"

definition hasExternalTargets :: "nat list \<Rightarrow> nat list \<Rightarrow> bool" where
  "hasExternalTargets ls targets \<longleftrightarrow> list_ex (\<lambda>l. l \<in> set targets) ls"

definition contiguousRange :: "nat \<Rightarrow> nat \<Rightarrow> nat list" where
  "contiguousRange start count = map (\<lambda>offset. start + offset) [0..<count]"

definition deleteEditForAutoAbsorbedLine ::
  "(jstr \<Rightarrow> nat) \<Rightarrow> nat \<Rightarrow> nat \<Rightarrow> nat \<Rightarrow> jstr list \<Rightarrow> hl_edit" where
  "deleteEditForAutoAbsorbedLine xx line sourceLineNum index fl =
     Del \<lparr>anc_line = line, anc_hash = computeLineHash xx line (file_line fl line)\<rparr> sourceLineNum index"

section \<open>Pure insert groups\<close>

record pure_insert_group =
  pg_startIndex :: nat
  pg_endIndex :: nat
  pg_sourceLineNum :: nat
  pg_cursor :: cursor
  pg_payload :: "jstr list"

fun cursorMatches :: "cursor \<Rightarrow> cursor \<Rightarrow> bool" where
  "cursorMatches Bof Bof \<longleftrightarrow> True"
| "cursorMatches Eof Eof \<longleftrightarrow> True"
| "cursorMatches (Before_Anchor a) (Before_Anchor b) \<longleftrightarrow> anc_line a = anc_line b \<and> anc_hash a = anc_hash b"
| "cursorMatches (After_Anchor a) (After_Anchor b) \<longleftrightarrow> anc_line a = anc_line b \<and> anc_hash a = anc_hash b"
| "cursorMatches _ _ \<longleftrightarrow> False"

fun insert_of :: "nat \<Rightarrow> cursor \<Rightarrow> hl_edit \<Rightarrow> bool" where
  "insert_of n cur (Ins c _ m _) \<longleftrightarrow> m = n \<and> cursorMatches c cur"
| "insert_of n cur (Del _ _ _) \<longleftrightarrow> False"

definition findPureInsertGroup :: "hl_edit list \<Rightarrow> nat \<Rightarrow> pure_insert_group option" where
  "findPureInsertGroup es start =
     (case arr_get es start of
        Some (Ins cur _ sourceLineNum _) \<Rightarrow>
          (let ins = takeWhile (insert_of sourceLineNum cur) (drop start es);
               index = start + length ins
           in if (case arr_get es index of None \<Rightarrow> False | Some e \<Rightarrow> delete_of sourceLineNum e) then None
              else Some \<lparr>pg_startIndex = start, pg_endIndex = index - 1, pg_sourceLineNum = sourceLineNum,
                         pg_cursor = cur, pg_payload = map etext ins\<rparr>)
      | _ \<Rightarrow> None)"

text \<open>The index of the last file line above the insertion point (-1 if none), and of the first below.\<close>

fun pureInsertNeighborhood :: "cursor \<Rightarrow> jstr list \<Rightarrow> int \<times> nat" where
  "pureInsertNeighborhood Bof fl = (-1, 0)"
| "pureInsertNeighborhood Eof fl = (int (length fl) - 1, length fl)"
| "pureInsertNeighborhood (Before_Anchor a) fl = (int (anc_line a) - 2, anc_line a - 1)"
| "pureInsertNeighborhood (After_Anchor a) fl = (int (anc_line a) - 1, anc_line a)"

definition arr_geti :: "'a list \<Rightarrow> int \<Rightarrow> 'a option" where
  "arr_geti xs i = (if i < 0 then None else arr_get xs (nat i))"

fun is_before :: "cursor \<Rightarrow> bool" where "is_before (Before_Anchor _) = True" | "is_before _ = False"
fun is_after :: "cursor \<Rightarrow> bool" where "is_after (After_Anchor _) = True" | "is_after _ = False"

definition absorb_leading :: "cursor \<Rightarrow> jstr list \<Rightarrow> jstr list \<Rightarrow> int \<Rightarrow> bool \<Rightarrow> nat" where
  "absorb_leading cur payload fl aboveEndIdx allow =
     (let generic = (if allow
            then count_down (\<lambda>count. list_all (\<lambda>offset. arr_get payload offset
                     = arr_geti fl (aboveEndIdx - int count + 1 + int offset)) [0..<count])
                   (min (length payload) (nat (aboveEndIdx + 1)))
            else 0);
          line = payload ! 0;
          dup = (payload \<noteq> [] \<and> 0 \<le> aboveEndIdx \<and> arr_geti fl aboveEndIdx = Some line)
      in if generic \<noteq> 0 then generic
         else if allow \<and> is_after cur \<and> dup \<and> \<not> isStructuralClosingBoundaryLine line then 1
         else if dup \<and> isStructuralClosingBoundaryLine line \<and>
             shouldDropSingleStructuralBoundary payload (drop 1 payload) ZERO_DELIMITER_BALANCE then 1
         else 0)"

definition absorb_trailing :: "cursor \<Rightarrow> jstr list \<Rightarrow> nat \<Rightarrow> jstr list \<Rightarrow> nat \<Rightarrow> bool \<Rightarrow> nat" where
  "absorb_trailing cur payload absorbedLeading fl belowStartIdx allow =
     (let remainingPayload = drop absorbedLeading payload;
          generic = (if allow
            then count_down (\<lambda>count. list_all (\<lambda>offset. arr_get payload (length payload - count + offset)
                     = arr_get fl (belowStartIdx + offset)) [0..<count])
                   (min (length remainingPayload) (length fl - belowStartIdx))
            else 0);
          line = last remainingPayload;
          dup = (remainingPayload \<noteq> [] \<and> belowStartIdx < length fl \<and> arr_get fl belowStartIdx = Some line)
      in if generic \<noteq> 0 then generic
         else if is_before cur \<and> allow \<and> dup \<and> \<not> isStructuralClosingBoundaryLine line then 1
         else if dup \<and> isStructuralClosingBoundaryLine line \<and>
             shouldDropSingleStructuralBoundary remainingPayload (butlast remainingPayload) ZERO_DELIMITER_BALANCE
           then 1
         else 0)"

record pure_insert_result =
  pr_keptPayload :: "jstr list"
  pr_absorbedLeading :: nat
  pr_absorbedTrailing :: nat
  pr_leadingFileRange :: "(nat \<times> nat) option"
  pr_trailingFileRange :: "(nat \<times> nat) option"

definition tryAbsorbPureInsertGroup :: "pure_insert_group \<Rightarrow> jstr list \<Rightarrow> bool \<Rightarrow> pure_insert_result" where
  "tryAbsorbPureInsertGroup g fl allow =
     (let empty = \<lparr>pr_keptPayload = pg_payload g, pr_absorbedLeading = 0, pr_absorbedTrailing = 0,
                   pr_leadingFileRange = None, pr_trailingFileRange = None\<rparr>;
          payload = pg_payload g;
          (aboveEndIdx, belowStartIdx) = pureInsertNeighborhood (pg_cursor g) fl;
          lead = absorb_leading (pg_cursor g) payload fl aboveEndIdx allow;
          trail = absorb_trailing (pg_cursor g) payload lead fl belowStartIdx allow
      in if payload = [] then empty
         else if lead = 0 \<and> trail = 0 then empty
         else \<lparr>pr_keptPayload = slice lead (length payload - trail) payload,
               pr_absorbedLeading = lead, pr_absorbedTrailing = trail,
               pr_leadingFileRange =
                 (if lead > 0 then Some (nat (aboveEndIdx - int lead + 2), nat (aboveEndIdx + 1)) else None),
               pr_trailingFileRange =
                 (if trail > 0 then Some (belowStartIdx + 1, belowStartIdx + trail) else None)\<rparr>)"

section \<open>The loop over the edits\<close>

record absorb_state =
  ab_absorbed :: "edit_ref list"
  ab_next :: nat
  ab_warnings :: "jstr list"
  ab_keys :: "jstr list"

definition emit_once :: "jstr \<Rightarrow> jstr \<Rightarrow> absorb_state \<Rightarrow> absorb_state" where
  "emit_once key msg st =
     (if key \<in> set (ab_keys st) then st
      else st\<lparr>ab_keys := set_add key (ab_keys st), ab_warnings := ab_warnings st @ [msg]\<rparr>)"

definition push_edits :: "edit_ref list \<Rightarrow> absorb_state \<Rightarrow> absorb_state" where
  "push_edits es st = st\<lparr>ab_absorbed := ab_absorbed st @ es\<rparr>"

text \<open>\<open>edits[i]\<close> for \<open>i\<close> from \<open>a\<close> to \<open>b\<close>, the caller's own objects.\<close>

definition own_edits :: "hl_edit list \<Rightarrow> nat \<Rightarrow> nat \<Rightarrow> edit_ref list" where
  "own_edits es a b = map (\<lambda>i. (Some i, es ! i)) [a..<Suc b]"

definition push_fresh :: "(nat \<Rightarrow> 'a \<Rightarrow> hl_edit) \<Rightarrow> 'a list \<Rightarrow> absorb_state \<Rightarrow> absorb_state" where
  "push_fresh mk xs st =
     st\<lparr>ab_absorbed := ab_absorbed st @ map (\<lambda>i. (None, mk (ab_next st + i) (xs ! i))) [0..<length xs],
       ab_next := ab_next st + length xs\<rparr>"

definition range_text :: "nat \<Rightarrow> nat \<Rightarrow> jstr" where
  "range_text a b = nat_str a @ js ''..'' @ nat_str b"

definition pure_insert_leading_warning :: "nat \<Rightarrow> nat \<Rightarrow> nat \<Rightarrow> nat \<Rightarrow> jstr" where
  "pure_insert_leading_warning count line a b =
     js ''Auto-dropped '' @ nat_str count @ js '' duplicate line(s) at the start of insert at line ''
     @ nat_str line @ js '' (file lines '' @ range_text a b @ js '' already match the payload's leading lines).''"

definition pure_insert_trailing_warning :: "nat \<Rightarrow> nat \<Rightarrow> nat \<Rightarrow> nat \<Rightarrow> jstr" where
  "pure_insert_trailing_warning count line a b =
     js ''Auto-dropped '' @ nat_str count @ js '' duplicate line(s) at the end of insert at line ''
     @ nat_str line @ js '' (file lines '' @ range_text a b @ js '' already match the payload's trailing lines).''"

definition absorbed_above_warning :: "nat \<Rightarrow> nat \<Rightarrow> nat \<Rightarrow> nat \<Rightarrow> jstr" where
  "absorbed_above_warning count line a b =
     js ''Auto-absorbed '' @ nat_str count @ js '' duplicate line(s) above replacement at line ''
     @ nat_str line @ js '' (file lines '' @ range_text a b
     @ js '' matched the payload's leading lines; widened the deletion to absorb them).''"

definition absorbed_below_warning :: "nat \<Rightarrow> nat \<Rightarrow> nat \<Rightarrow> nat \<Rightarrow> jstr" where
  "absorbed_below_warning count line a b =
     js ''Auto-absorbed '' @ nat_str count @ js '' duplicate line(s) below replacement at line ''
     @ nat_str line @ js '' (file lines '' @ range_text a b
     @ js '' matched the payload's trailing lines; widened the deletion to absorb them).''"

definition absorb_pure_insert ::
  "jstr list \<Rightarrow> apply_options \<Rightarrow> hl_edit list \<Rightarrow> pure_insert_group \<Rightarrow> absorb_state \<Rightarrow> absorb_state" where
  "absorb_pure_insert fl opts es g st =
     (let r = tryAbsorbPureInsertGroup g fl (autoDropPureInsertDuplicates opts)
      in if pr_absorbedLeading r > 0 \<or> pr_absorbedTrailing r > 0 then
           (let st1 = (case pr_leadingFileRange r of
                  None \<Rightarrow> st
                | Some (a, b) \<Rightarrow> emit_once (js ''pure-insert-leading:'' @ range_text a b)
                    (pure_insert_leading_warning (pr_absorbedLeading r) (pg_sourceLineNum g) a b) st);
                st2 = (case pr_trailingFileRange r of
                  None \<Rightarrow> st1
                | Some (a, b) \<Rightarrow> emit_once (js ''pure-insert-trailing:'' @ range_text a b)
                    (pure_insert_trailing_warning (pr_absorbedTrailing r) (pg_sourceLineNum g) a b) st1)
            in push_fresh (\<lambda>i text. Ins (pg_cursor g) text (pg_sourceLineNum g) i) (pr_keptPayload r) st2)
         else push_edits (own_edits es (pg_startIndex g) (pg_endIndex g)) st)"

definition first_nonzero :: "nat \<Rightarrow> nat \<Rightarrow> nat" where
  \<comment> \<open>\<open>a || b\<close> on numbers\<close>
  "first_nonzero a b = (if a = 0 then b else a)"

definition rg_startLine :: "replacement_group \<Rightarrow> nat" where
  "rg_startLine g = anc_line (hd (rg_deletes g))"

definition rg_endLine :: "replacement_group \<Rightarrow> nat" where
  "rg_endLine g = anc_line (last (rg_deletes g))"

definition prefix_count :: "jstr list \<Rightarrow> replacement_group \<Rightarrow> nat" where
  "prefix_count fl g =
     first_nonzero (countMatchingPrefixBlock fl (rg_startLine g) (rg_replacement g))
       (countMatchingSingleStructuralPrefixBoundary fl (rg_startLine g) (rg_replacement g)
          (computeDelimiterBalance (map (\<lambda>a. file_line fl (anc_line a)) (rg_deletes g))))"

definition suffix_count :: "jstr list \<Rightarrow> replacement_group \<Rightarrow> nat" where
  "suffix_count fl g =
     first_nonzero (countMatchingSuffixBlock fl (rg_endLine g) (rg_replacement g))
       (countMatchingSingleStructuralSuffixBoundary fl (rg_endLine g) (rg_replacement g)
          (computeDelimiterBalance (map (\<lambda>a. file_line fl (anc_line a)) (rg_deletes g))))"

definition safe_prefix_count :: "jstr list \<Rightarrow> nat list \<Rightarrow> replacement_group \<Rightarrow> nat" where
  "safe_prefix_count fl targets g =
     (let n = prefix_count fl g
      in if hasExternalTargets (contiguousRange (rg_startLine g - n) n) targets then 0 else n)"

definition safe_suffix_count :: "jstr list \<Rightarrow> nat list \<Rightarrow> replacement_group \<Rightarrow> nat" where
  "safe_suffix_count fl targets g =
     (let n = suffix_count fl g
      in if hasExternalTargets (contiguousRange (rg_endLine g + 1) n) targets then 0 else n)"

definition absorb_replacement ::
  "(jstr \<Rightarrow> nat) \<Rightarrow> jstr list \<Rightarrow> nat list \<Rightarrow> hl_edit list \<Rightarrow> replacement_group \<Rightarrow> absorb_state \<Rightarrow> absorb_state" where
  "absorb_replacement xx fl targets es g st =
     (let startLine = rg_startLine g;
          endLine = rg_endLine g;
          pre = safe_prefix_count fl targets g;
          suf = safe_suffix_count fl targets g;
          st1 = (if pre > 0
            then emit_once (js ''prefix:'' @ range_text (startLine - pre) (startLine - 1))
                   (absorbed_above_warning pre (rg_sourceLineNum g) (startLine - pre) (startLine - 1)) st
            else st);
          st2 = (if suf > 0
            then emit_once (js ''suffix:'' @ range_text (endLine + 1) (endLine + suf))
                   (absorbed_below_warning suf (rg_sourceLineNum g) (endLine + 1) (endLine + suf)) st1
            else st1);
          mk = (\<lambda>i line. deleteEditForAutoAbsorbedLine xx line (rg_sourceLineNum g) i fl)
      in push_fresh mk (contiguousRange (endLine + 1) suf)
           (push_edits (own_edits es (rg_startIndex g) (rg_endIndex g))
             (push_fresh mk (contiguousRange (startLine - pre) pre) st2)))"

text \<open>One turn of the loop at \<open>index\<close>: the index it leaves behind (the loop adds one) and the state.\<close>

definition absorb_step ::
  "(jstr \<Rightarrow> nat) \<Rightarrow> jstr list \<Rightarrow> apply_options \<Rightarrow> nat list \<Rightarrow> hl_edit list \<Rightarrow> nat \<Rightarrow> absorb_state \<Rightarrow> nat \<times> absorb_state" where
  "absorb_step xx fl opts targets es index st =
     (case findReplacementGroup es index of
        None \<Rightarrow>
          (case findPureInsertGroup es index of
             Some g \<Rightarrow> (pg_endIndex g, absorb_pure_insert fl opts es g st)
           | None \<Rightarrow> (index, push_edits [(Some index, es ! index)] st))
      | Some g \<Rightarrow> (rg_endIndex g, absorb_replacement xx fl targets es g st))"

lemma findReplacementGroup_index:
  assumes "findReplacementGroup es i = Some g"
  shows "rg_startIndex g = i \<and> i < rg_endIndex g \<and> rg_endIndex g < length es"
proof -
  from assms obtain a t n k where e: "arr_get es i = Some (Ins (Before_Anchor a) t n k)"
    by (auto simp: findReplacementGroup_def split: option.splits hl_edit.splits cursor.splits)
  then have i: "i < length es" "es ! i = Ins (Before_Anchor a) t n k" by (auto simp: arr_get_eq_Some)
  define ins where "ins = takeWhile (before_insert_of n) (drop i es)"
  define dels where "dels = takeWhile (delete_of n) (drop (i + length ins) es)"
  have "ins \<noteq> []" using i by (simp add: ins_def flip: Cons_nth_drop_Suc)
  moreover have "dels \<noteq> []" "rg_startIndex g = i" "rg_endIndex g = i + length ins + length dels - 1"
    using assms e by (auto simp: findReplacementGroup_def Let_def ins_def dels_def split: if_splits)
  moreover have "length dels \<le> length es - (i + length ins)"
    using length_takeWhile_le [of "delete_of n" "drop (i + length ins) es"] by (simp add: dels_def)
  ultimately show ?thesis by (cases ins; cases dels) auto
qed

lemma findPureInsertGroup_index:
  assumes "findPureInsertGroup es i = Some g"
  shows "pg_startIndex g = i \<and> i \<le> pg_endIndex g \<and> pg_endIndex g < length es"
proof -
  from assms obtain c t n k where e: "arr_get es i = Some (Ins c t n k)"
    by (auto simp: findPureInsertGroup_def split: option.splits hl_edit.splits)
  then have i: "i < length es" "es ! i = Ins c t n k" by (auto simp: arr_get_eq_Some)
  define ins where "ins = takeWhile (insert_of n c) (drop i es)"
  have "cursorMatches c c" by (cases c) simp_all
  then have "ins \<noteq> []" using i by (simp add: ins_def flip: Cons_nth_drop_Suc)
  moreover have "pg_startIndex g = i" "pg_endIndex g = i + length ins - 1"
    using assms e by (auto simp: findPureInsertGroup_def Let_def ins_def split: if_splits)
  moreover have "length ins \<le> length es - i"
    using length_takeWhile_le [of "insert_of n c" "drop i es"] by (simp add: ins_def)
  ultimately show ?thesis using i by (cases ins) auto
qed

lemma absorb_step_index:
  assumes "absorb_step xx fl opts targets es i st = (j, st')" "i < length es"
  shows "i \<le> j \<and> j < length es"
  using assms findReplacementGroup_index [of es i] findPureInsertGroup_index [of es i]
  by (auto simp: absorb_step_def split: option.splits)

function absorb_loop ::
  "(jstr \<Rightarrow> nat) \<Rightarrow> jstr list \<Rightarrow> apply_options \<Rightarrow> nat list \<Rightarrow> hl_edit list \<Rightarrow> nat \<Rightarrow> absorb_state \<Rightarrow> absorb_state" where
  "absorb_loop xx fl opts targets es index st =
     (if index < length es
      then (case absorb_step xx fl opts targets es index st of
              (index', st') \<Rightarrow> absorb_loop xx fl opts targets es (Suc index') st')
      else st)"
  by pat_completeness auto
termination
  by (relation "measure (\<lambda>(xx, fl, opts, targets, es, index, st). length es - index)")
    (auto dest: absorb_step_index [OF sym])

declare absorb_loop.simps [simp del]

definition absorbReplacementBoundaryDuplicates ::
  "(jstr \<Rightarrow> nat) \<Rightarrow> hl_edit list \<Rightarrow> jstr list \<Rightarrow> apply_options \<Rightarrow> edit_ref list \<times> jstr list" where
  "absorbReplacementBoundaryDuplicates xx es fl opts =
     (let st = absorb_loop xx fl opts (collectAnchorTargetLines es) es 0
                 \<lparr>ab_absorbed = [], ab_next = length es, ab_warnings = [], ab_keys = []\<rparr>
      in (ab_absorbed st, ab_warnings st))"

section \<open>What the counts mean\<close>

lemma count_down_spec: "count_down ok m = c \<Longrightarrow> c = 0 \<or> (2 \<le> c \<and> c \<le> m \<and> ok c)"
  by (induction m) (auto split: if_splits)

lemma count_down_zero: "count_down ok m = 0 \<Longrightarrow> 2 \<le> c \<Longrightarrow> c \<le> m \<Longrightarrow> \<not> ok c"
  by (induction m) (auto split: if_splits simp: le_Suc_eq)

text \<open>The payload's first \<open>n\<close> lines repeat the file's \<open>n\<close> lines that end just before line \<open>start\<close>.\<close>

definition repeats_above :: "jstr list \<Rightarrow> nat \<Rightarrow> jstr list \<Rightarrow> nat \<Rightarrow> bool" where
  "repeats_above fl start ps n \<longleftrightarrow>
     n \<le> length ps \<and> n < start \<and> (\<forall>k < n. arr_get fl (start - n - 1 + k) = Some (ps ! k))"

definition repeats_below :: "jstr list \<Rightarrow> nat \<Rightarrow> jstr list \<Rightarrow> nat \<Rightarrow> bool" where
  "repeats_below fl stop ps n \<longleftrightarrow>
     n \<le> length ps \<and> n \<le> length fl - stop \<and> (\<forall>k < n. arr_get fl (stop + k) = Some (ps ! (length ps - n + k)))"

lemma prefix_count_repeats:
  assumes "1 \<le> rg_startLine g"
  shows "repeats_above fl (rg_startLine g) (rg_replacement g) (prefix_count fl g)"
proof -
  let ?s = "rg_startLine g" and ?ps = "rg_replacement g"
  let ?c = "countMatchingPrefixBlock fl ?s ?ps"
  from count_down_spec [OF countMatchingPrefixBlock_def [symmetric], of fl ?s ?ps]
  have "repeats_above fl ?s ?ps ?c"
    using assms by (auto simp: repeats_above_def list_all_iff)
  moreover have "repeats_above fl ?s ?ps (countMatchingSingleStructuralPrefixBoundary fl ?s ?ps b)" for b
    using assms by (auto simp: countMatchingSingleStructuralPrefixBoundary_def repeats_above_def Suc_le_eq numeral_2_eq_2)
  ultimately show ?thesis by (simp add: prefix_count_def first_nonzero_def)
qed

lemma suffix_count_repeats:
  "repeats_below fl (rg_endLine g) (rg_replacement g) (suffix_count fl g)"
proof -
  let ?s = "rg_endLine g" and ?ps = "rg_replacement g"
  let ?c = "countMatchingSuffixBlock fl ?s ?ps"
  from count_down_spec [OF countMatchingSuffixBlock_def [symmetric], of fl ?s ?ps]
  have "repeats_below fl ?s ?ps ?c"
    by (auto simp: repeats_below_def list_all_iff)
  moreover have "repeats_below fl ?s ?ps (countMatchingSingleStructuralSuffixBoundary fl ?s ?ps b)" for b
    by (auto simp: countMatchingSingleStructuralSuffixBoundary_def repeats_below_def Suc_le_eq last_conv_nth)
  ultimately show ?thesis by (simp add: suffix_count_def first_nonzero_def)
qed

lemma safe_prefix_repeats:
  assumes "1 \<le> rg_startLine g"
  shows "repeats_above fl (rg_startLine g) (rg_replacement g) (safe_prefix_count fl ts g)"
  using prefix_count_repeats [OF assms, of fl] assms by (auto simp: safe_prefix_count_def Let_def repeats_above_def)

lemma safe_suffix_repeats:
  "repeats_below fl (rg_endLine g) (rg_replacement g) (safe_suffix_count fl ts g)"
  using suffix_count_repeats [of fl g] by (auto simp: safe_suffix_count_def Let_def repeats_below_def)

lemma safe_prefix_external:
  "l \<in> set (contiguousRange (rg_startLine g - safe_prefix_count fl ts g) (safe_prefix_count fl ts g)) \<Longrightarrow> l \<notin> set ts"
  by (auto simp: safe_prefix_count_def Let_def hasExternalTargets_def list_ex_iff contiguousRange_def split: if_splits)

lemma safe_suffix_external:
  "l \<in> set (contiguousRange (rg_endLine g + 1) (safe_suffix_count fl ts g)) \<Longrightarrow> l \<notin> set ts"
  by (auto simp: safe_suffix_count_def Let_def hasExternalTargets_def list_ex_iff contiguousRange_def split: if_splits)

section \<open>The groups\<close>

lemma takeWhile_drop_nth:
  "x \<in> set (takeWhile P (drop i xs)) \<Longrightarrow> \<exists>k < length xs. i \<le> k \<and> xs ! k = x \<and> P x"
  using set_takeWhileD [of x P "drop i xs"] by (auto simp: in_set_conv_nth) (metis add.commute le_add1 less_diff_conv)

lemma before_insert_ofD: "before_insert_of n e \<Longrightarrow> \<exists>a i. e = Ins (Before_Anchor a) (etext e) n i"
  by (cases "(n, e)" rule: before_insert_of.cases) auto

lemma delete_ofD: "delete_of n e \<Longrightarrow> \<exists>i. e = Del (eanchor e) n i"
  by (cases e) auto

lemma cursorMatches_eq: "cursorMatches a b \<longleftrightarrow> a = b"
  by (cases "(a, b)" rule: cursorMatches.cases) auto

lemma insert_ofD: "insert_of n c e \<Longrightarrow> \<exists>i. e = Ins c (etext e) n i"
  by (cases e) (auto simp: cursorMatches_eq)

lemma findReplacementGroup_facts:
  assumes "findReplacementGroup es i = Some g"
  shows "\<forall>t \<in> set (rg_replacement g). \<exists>k a j. k < length es \<and> es ! k = Ins (Before_Anchor a) t (rg_sourceLineNum g) j"
    and "\<forall>a \<in> set (rg_deletes g). \<exists>k j. k < length es \<and> es ! k = Del a (rg_sourceLineNum g) j"
    and "rg_deletes g \<noteq> []"
    and "\<forall>k < length (rg_deletes g). anc_line (rg_deletes g ! k) = rg_startLine g + k"
proof -
  from assms obtain a t n k where e: "arr_get es i = Some (Ins (Before_Anchor a) t n k)"
    by (auto simp: findReplacementGroup_def split: option.splits hl_edit.splits cursor.splits)
  define ins where "ins = takeWhile (before_insert_of n) (drop i es)"
  define dels where "dels = takeWhile (delete_of n) (drop (i + length ins) es)"
  define l where "l = anc_line (map eanchor dels ! 0)"
  have g: "rg_replacement g = map etext ins" "rg_deletes g = map eanchor dels" "rg_sourceLineNum g = n" "dels \<noteq> []"
    "list_all (\<lambda>k. anc_line (map eanchor dels ! k) = l + k) [0..<length (map eanchor dels)]"
    using assms unfolding findReplacementGroup_def e option.case hl_edit.case cursor.case Let_def
      ins_def [symmetric] dels_def [symmetric] l_def [symmetric]
    by (auto split: if_splits)
  have l: "rg_startLine g = l" using g(2,4) by (simp add: rg_startLine_def l_def hd_conv_nth)
  show "\<forall>t \<in> set (rg_replacement g). \<exists>k a j. k < length es \<and> es ! k = Ins (Before_Anchor a) t (rg_sourceLineNum g) j"
  proof
    fix t assume "t \<in> set (rg_replacement g)"
    then obtain e where e: "e \<in> set ins" "t = etext e" using g(1) by auto
    then obtain k where "k < length es" "es ! k = e" "before_insert_of n e"
      using takeWhile_drop_nth [of e "before_insert_of n" i es] unfolding ins_def by blast
    with e(2) g(3) before_insert_ofD [of n e]
    show "\<exists>k a j. k < length es \<and> es ! k = Ins (Before_Anchor a) t (rg_sourceLineNum g) j"
      by auto
  qed
  show "\<forall>a \<in> set (rg_deletes g). \<exists>k j. k < length es \<and> es ! k = Del a (rg_sourceLineNum g) j"
  proof
    fix a assume "a \<in> set (rg_deletes g)"
    then obtain e where e: "e \<in> set dels" "a = eanchor e" using g(2) by auto
    then obtain k where "k < length es" "es ! k = e" "delete_of n e"
      using takeWhile_drop_nth [of e "delete_of n" "i + length ins" es] unfolding dels_def by blast
    with e(2) g(3) delete_ofD [of n e] show "\<exists>k j. k < length es \<and> es ! k = Del a (rg_sourceLineNum g) j"
      by auto
  qed
  show "rg_deletes g \<noteq> []" using g by simp
  show "\<forall>k < length (rg_deletes g). anc_line (rg_deletes g ! k) = rg_startLine g + k"
    using g(2,5) l by (simp add: list_all_iff)
qed

lemma rg_endLine_eq:
  assumes "findReplacementGroup es i = Some g"
  shows "rg_endLine g = rg_startLine g + length (rg_deletes g) - 1"
  using findReplacementGroup_facts(3,4) [OF assms] by (cases "rg_deletes g" rule: rev_cases) (auto simp: rg_endLine_def nth_append)

lemma findPureInsertGroup_facts:
  assumes "findPureInsertGroup es i = Some g"
  shows "\<forall>t \<in> set (pg_payload g). \<exists>k j. k < length es \<and> es ! k = Ins (pg_cursor g) t (pg_sourceLineNum g) j"
proof -
  from assms obtain c t n k where e: "arr_get es i = Some (Ins c t n k)"
    by (auto simp: findPureInsertGroup_def split: option.splits hl_edit.splits)
  define ins where "ins = takeWhile (insert_of n c) (drop i es)"
  have g: "pg_payload g = map etext ins" "pg_cursor g = c" "pg_sourceLineNum g = n"
    using assms e by (auto simp: findPureInsertGroup_def Let_def ins_def split: if_splits)
  show ?thesis
  proof
    fix t assume "t \<in> set (pg_payload g)"
    then obtain e where e: "e \<in> set ins" "t = etext e" using g(1) by auto
    then obtain k where "k < length es" "es ! k = e" "insert_of n c e"
      using takeWhile_drop_nth [of e "insert_of n c" i es] unfolding ins_def by blast
    with e(2) g(2,3) insert_ofD [of n c e]
    show "\<exists>k j. k < length es \<and> es ! k = Ins (pg_cursor g) t (pg_sourceLineNum g) j" by auto
  qed
qed

section \<open>An invariant of the loop\<close>

lemma absorb_loop_invariant:
  assumes "P i st" "i \<le> length es"
    and "\<And>i j st st'. P i st \<Longrightarrow> i < length es \<Longrightarrow> absorb_step xx fl opts ts es i st = (j, st') \<Longrightarrow> P (Suc j) st'"
  shows "P (length es) (absorb_loop xx fl opts ts es i st)"
  using assms(1,2)
proof (induction "length es - i" arbitrary: i st rule: less_induct)
  case less
  show ?case
  proof (cases "i < length es")
    case True
    obtain j st' where s: "absorb_step xx fl opts ts es i st = (j, st')" by force
    with True have "i \<le> j" "j < length es" using absorb_step_index [OF s] by auto
    then have "P (length es) (absorb_loop xx fl opts ts es (Suc j) st')"
      using less.prems(1) True by (intro less.hyps) (auto intro: assms(3) s)
    with True s show ?thesis by (simp add: absorb_loop.simps [of xx fl opts ts es i])
  next
    case False
    with less.prems have "i = length es" by simp
    with less.prems show ?thesis by (simp add: absorb_loop.simps [of xx fl opts ts es "length es"])
  qed
qed

text \<open>What an edit of the repaired list can be: one of the caller's; an insert with the cursor, text
  and script line of one of the caller's; or the deletion of an existing line that no edit of the script
  targets and whose text the script inserts.\<close>

definition repaired_edit :: "jstr list \<Rightarrow> hl_edit list \<Rightarrow> edit_ref \<Rightarrow> bool" where
  "repaired_edit fl es re \<longleftrightarrow>
     (case re of
        (Some k, e) \<Rightarrow> k < length es \<and> e = es ! k
      | (None, Ins c t n _) \<Rightarrow> \<exists>k j. k < length es \<and> es ! k = Ins c t n j
      | (None, Del a n _) \<Rightarrow> 1 \<le> anc_line a \<and> anc_line a \<le> length fl
          \<and> anc_line a \<notin> set (collectAnchorTargetLines es)
          \<and> (\<exists>k c j. k < length es \<and> es ! k = Ins c (file_line fl (anc_line a)) n j))"

definition lines_exist :: "nat \<Rightarrow> hl_edit \<Rightarrow> bool" where
  "lines_exist n e \<longleftrightarrow> list_all (\<lambda>a. 1 \<le> anc_line a \<and> anc_line a \<le> n) (getHashlineEditAnchors e)"

text \<open>The updates of the state, as membership in the repaired list.\<close>

lemma emit_once_absorbed [simp]: "ab_absorbed (emit_once key msg st) = ab_absorbed st"
  by (simp add: emit_once_def)

lemma push_edits_set: "set (ab_absorbed (push_edits es st)) = set (ab_absorbed st) \<union> set es"
  by (simp add: push_edits_def)

lemma push_fresh_set:
  "x \<in> set (ab_absorbed (push_fresh mk xs st)) \<Longrightarrow>
   x \<in> set (ab_absorbed st) \<or> (\<exists>i. \<exists>y \<in> set xs. x = (None, mk i y))"
  by (auto simp: push_fresh_def) (metis nth_mem)

lemma own_edits_repaired: "b < length es \<Longrightarrow> x \<in> set (own_edits es a b) \<Longrightarrow> repaired_edit fl es x"
  by (auto simp: own_edits_def repaired_edit_def)

lemma set_slice: "set (slice a b xs) \<subseteq> set xs"
  unfolding slice_def using set_take_subset set_drop_subset by fast

lemma kept_payload_subset: "set (pr_keptPayload (tryAbsorbPureInsertGroup g fl allow)) \<subseteq> set (pg_payload g)"
  by (auto simp: tryAbsorbPureInsertGroup_def Let_def split: prod.splits if_splits dest!: subsetD [OF set_slice])

lemma absorb_pure_insert_repaired:
  assumes "findPureInsertGroup es i = Some g" "x \<in> set (ab_absorbed (absorb_pure_insert fl opts es g st))"
  shows "x \<in> set (ab_absorbed st) \<or> repaired_edit fl es x"
proof -
  let ?r = "tryAbsorbPureInsertGroup g fl (autoDropPureInsertDuplicates opts)"
  have fresh: "repaired_edit fl es (None, Ins (pg_cursor g) t (pg_sourceLineNum g) i)" if "t \<in> set (pr_keptPayload ?r)" for t i
    using findPureInsertGroup_facts [OF assms(1)] kept_payload_subset that by (fastforce simp: repaired_edit_def)
  show ?thesis
  proof (cases "pr_absorbedLeading ?r > 0 \<or> pr_absorbedTrailing ?r > 0")
    case True
    then have "x \<in> set (ab_absorbed st) \<or>
        (\<exists>i. \<exists>t \<in> set (pr_keptPayload ?r). x = (None, Ins (pg_cursor g) t (pg_sourceLineNum g) i))"
      using assms(2) by (auto simp: absorb_pure_insert_def Let_def split: option.splits prod.splits dest!: push_fresh_set)
    with fresh show ?thesis by blast
  next
    case False
    with assms(2) have "x \<in> set (ab_absorbed st) \<or> x \<in> set (own_edits es (pg_startIndex g) (pg_endIndex g))"
      by (simp add: absorb_pure_insert_def Let_def push_edits_set)
    with findPureInsertGroup_index [OF assms(1)] own_edits_repaired show ?thesis by blast
  qed
qed

lemma contiguousRange_iff: "l \<in> set (contiguousRange a n) \<longleftrightarrow> (\<exists>k. k < n \<and> l = a + k)"
  by (auto simp: contiguousRange_def) presburger

lemma repeats_above_line:
  assumes "repeats_above fl start ps n" "l \<in> set (contiguousRange (start - n) n)"
  shows "1 \<le> l" "l \<le> length fl" "file_line fl l \<in> set ps"
proof -
  from assms(2) obtain k where k: "k < n" "l = start - n + k" unfolding contiguousRange_iff by blast
  with assms(1) have n: "n < start" "n \<le> length ps" "arr_get fl (start - n - 1 + k) = Some (ps ! k)"
    by (auto simp: repeats_above_def)
  then have "l - 1 = start - n - 1 + k" using k by simp
  with n k show "1 \<le> l" "l \<le> length fl" "file_line fl l \<in> set ps"
    by (auto simp: arr_get_eq_Some file_line_def)
qed

lemma repeats_below_line:
  assumes "repeats_below fl stop ps n" "l \<in> set (contiguousRange (stop + 1) n)"
  shows "1 \<le> l" "l \<le> length fl" "file_line fl l \<in> set ps"
proof -
  from assms(2) obtain k where k: "k < n" "l = stop + 1 + k" unfolding contiguousRange_iff by blast
  with assms(1) have "n \<le> length ps" "arr_get fl (stop + k) = Some (ps ! (length ps - n + k))"
    by (auto simp: repeats_below_def)
  with k show "1 \<le> l" "l \<le> length fl" "file_line fl l \<in> set ps"
    by (auto simp: arr_get_eq_Some file_line_def)
qed

lemma absorb_replacement_set:
  assumes "x \<in> set (ab_absorbed (absorb_replacement xx fl ts es g st))"
  shows "x \<in> set (ab_absorbed st) \<or> x \<in> set (own_edits es (rg_startIndex g) (rg_endIndex g)) \<or>
    (\<exists>i l. x = (None, deleteEditForAutoAbsorbedLine xx l (rg_sourceLineNum g) i fl) \<and>
       (l \<in> set (contiguousRange (rg_startLine g - safe_prefix_count fl ts g) (safe_prefix_count fl ts g)) \<or>
        l \<in> set (contiguousRange (rg_endLine g + 1) (safe_suffix_count fl ts g))))"
  using assms unfolding absorb_replacement_def Let_def
  by (elim push_fresh_set [THEN disjE])
    (auto simp: push_edits_set split: if_splits dest!: push_fresh_set)

lemma absorb_replacement_repaired:
  assumes "findReplacementGroup es i = Some g" "list_all (lines_exist (length fl)) es"
    "x \<in> set (ab_absorbed (absorb_replacement xx fl (collectAnchorTargetLines es) es g st))"
  shows "x \<in> set (ab_absorbed st) \<or> repaired_edit fl es x"
proof -
  let ?ts = "collectAnchorTargetLines es"
  have "hd (rg_deletes g) \<in> set (rg_deletes g)" using findReplacementGroup_facts(3) [OF assms(1)] by simp
  with findReplacementGroup_facts(2) [OF assms(1)] assms(2) have start: "1 \<le> rg_startLine g"
    by (fastforce simp: rg_startLine_def list_all_length lines_exist_def)
  have "repaired_edit fl es (None, deleteEditForAutoAbsorbedLine xx l (rg_sourceLineNum g) i fl)"
    if "1 \<le> l" "l \<le> length fl" "file_line fl l \<in> set (rg_replacement g)" "l \<notin> set ?ts" for l i
    using findReplacementGroup_facts(1) [OF assms(1)] that
    by (fastforce simp: repaired_edit_def deleteEditForAutoAbsorbedLine_def)
  moreover note repeats_above_line [OF safe_prefix_repeats [OF start, of fl ?ts]] safe_prefix_external [of _ g fl ?ts]
    repeats_below_line [OF safe_suffix_repeats [of fl g ?ts]] safe_suffix_external [of _ g fl ?ts]
  ultimately show ?thesis
    using absorb_replacement_set [OF assms(3)] own_edits_repaired findReplacementGroup_index [OF assms(1)] by blast
qed

lemma absorb_repaired:
  assumes "list_all (lines_exist (length fl)) es"
  shows "list_all (repaired_edit fl es) (fst (absorbReplacementBoundaryDuplicates xx es fl opts))"
proof -
  let ?st = "absorb_loop xx fl opts (collectAnchorTargetLines es) es 0
    \<lparr>ab_absorbed = [], ab_next = length es, ab_warnings = [], ab_keys = []\<rparr>"
  have "(\<lambda>i st. \<forall>x \<in> set (ab_absorbed st). repaired_edit fl es x) (length es) ?st"
  proof (rule absorb_loop_invariant)
    fix i j st st'
    assume inv: "\<forall>x \<in> set (ab_absorbed st). repaired_edit fl es x" and i: "i < length es"
      and step: "absorb_step xx fl opts (collectAnchorTargetLines es) es i st = (j, st')"
    show "\<forall>x \<in> set (ab_absorbed st'). repaired_edit fl es x"
    proof (cases "findReplacementGroup es i")
      case None
      show ?thesis
      proof (cases "findPureInsertGroup es i")
        case None
        with \<open>findReplacementGroup es i = None\<close> step inv i show ?thesis
          by (auto simp: absorb_step_def push_edits_set repaired_edit_def)
      next
        case (Some g)
        with None step have "st' = absorb_pure_insert fl opts es g st" by (simp add: absorb_step_def)
        with inv absorb_pure_insert_repaired [OF Some] show ?thesis by blast
      qed
    next
      case (Some g)
      with step have "st' = absorb_replacement xx fl (collectAnchorTargetLines es) es g st" by (simp add: absorb_step_def)
      with inv absorb_replacement_repaired [OF Some assms] show ?thesis by blast
    qed
  qed simp_all
  then show ?thesis by (simp add: absorbReplacementBoundaryDuplicates_def Let_def list_all_iff)
qed

end
