(* ===== verification/Hashline_Apply.thy ===== *)
theory Hashline_Apply
  imports Hashline_Absorb "HOL-Library.AList"
begin

text \<open>
  Applying hashline edits to a file (\<open>hashline/apply.ts\<close>, \<open>applyHashlineEdits\<close> and its helpers):
  every anchor is checked first, the edits are repaired (theory \<open>Hashline_Absorb\<close>), rewritten to
  inserts before a line, at the start or at the end, bucketed by line, and spliced in from the last
  line up.  The call returns the caller's edit objects as it leaves them, since it rewrites their cursors.
\<close>

datatype line_origin = Original | Inserted | Replacement

record apply_result =
  ar_lines :: jstr
  ar_firstChangedLine :: "nat option"
  ar_warnings :: "jstr list"

section \<open>Checking the anchors\<close>

fun validate_anchors ::
  "(jstr \<Rightarrow> nat) \<Rightarrow> jstr list \<Rightarrow> anchor list \<Rightarrow> hl_error + hash_mismatch list" where
  "validate_anchors xx fl [] = Inr []"
| "validate_anchors xx fl (a # as) =
     (if anc_line a < 1 \<or> length fl < anc_line a then Inl (Line_does_not_exist (anc_line a) (length fl))
      else if anc_hash a = RANGE_INTERIOR_HASH then validate_anchors xx fl as
      else (let actual = computeLineHash xx (anc_line a) (file_line fl (anc_line a))
            in if actual = anc_hash a then validate_anchors xx fl as
               else and_then (validate_anchors xx fl as) (\<lambda>ms.
                 Inr (\<lparr>hm_line = anc_line a, hm_expected = anc_hash a, hm_actual = actual\<rparr> # ms))))"

definition validateHashlineAnchors ::
  "(jstr \<Rightarrow> nat) \<Rightarrow> hl_edit list \<Rightarrow> jstr list \<Rightarrow> hl_error + hash_mismatch list" where
  "validateHashlineAnchors xx es fl = validate_anchors xx fl (concat (map getHashlineEditAnchors es))"

section \<open>Inserting at the ends\<close>

type_synonym file_state = "jstr list \<times> line_origin list"

definition insertAtStart :: "file_state \<Rightarrow> jstr list \<Rightarrow> file_state" where
  "insertAtStart st ls =
     (case st of (fl, org) \<Rightarrow>
        if ls = [] then (fl, org)
        else (let origins = map (\<lambda>_. Inserted) ls
              in if fl = [[]] then (splice 0 1 ls fl, splice 0 1 origins org)
                 else (splice 0 0 ls fl, splice 0 0 origins org)))"

definition insertAtEnd :: "file_state \<Rightarrow> jstr list \<Rightarrow> file_state \<times> nat option" where
  "insertAtEnd st ls =
     (case st of (fl, org) \<Rightarrow>
        if ls = [] then ((fl, org), None)
        else (let origins = map (\<lambda>_. Inserted) ls
              in if fl = [[]] then ((splice 0 1 ls fl, splice 0 1 origins org), Some 1)
                 else (let hasTrailingNewline = (fl \<noteq> [] \<and> last fl = []);
                           insertIndex = (if hasTrailingNewline then length fl - 1 else length fl)
                       in ((splice insertIndex 0 ls fl, splice insertIndex 0 origins org), Some (insertIndex + 1)))))"

section \<open>Normalising inserts after a line\<close>

definition normalize_cursor :: "(jstr \<Rightarrow> nat) \<Rightarrow> jstr list \<Rightarrow> cursor \<Rightarrow> cursor" where
  "normalize_cursor xx fl c =
     (case c of
        After_Anchor a \<Rightarrow>
          (if length fl \<le> anc_line a then Eof
           else (let nextLineNum = anc_line a + 1
                 in Before_Anchor \<lparr>anc_line = nextLineNum,
                      anc_hash = computeLineHash xx nextLineNum (file_line fl nextLineNum)\<rparr>))
      | _ \<Rightarrow> c)"

fun normalize_edit :: "(jstr \<Rightarrow> nat) \<Rightarrow> jstr list \<Rightarrow> hl_edit \<Rightarrow> hl_edit" where
  "normalize_edit xx fl (Ins c t n i) = Ins (normalize_cursor xx fl c) t n i"
| "normalize_edit xx fl (Del a n i) = Del a n i"

text \<open>The caller's objects after the rewriting: those among the repaired edits have the new cursor.\<close>

definition mutated_edits :: "edit_ref list \<Rightarrow> hl_edit list \<Rightarrow> hl_edit list" where
  "mutated_edits refs es = fold (\<lambda>(ref, e) es. case ref of None \<Rightarrow> es | Some i \<Rightarrow> es[i := e]) refs es"

section \<open>Buckets\<close>

type_synonym indexed_edit = "hl_edit \<times> nat"

fun bucket_line :: "hl_edit \<Rightarrow> nat" where
  "bucket_line (Del a _ _) = anc_line a"
| "bucket_line (Ins (Before_Anchor a) _ _ _) = anc_line a"
| "bucket_line (Ins _ _ _ _) = 0"

definition bucketAnchorEditsByLine :: "indexed_edit list \<Rightarrow> (nat \<times> indexed_edit list) list" where
  "bucketAnchorEditsByLine es =
     foldl (\<lambda>byLine entry.
       let line = bucket_line (fst entry)
       in case map_of byLine line of
            Some bucket \<Rightarrow> AList.update line (bucket @ [entry]) byLine
          | None \<Rightarrow> AList.update line [entry] byLine) [] es"

definition track :: "nat \<Rightarrow> nat option \<Rightarrow> nat option" where
  "track line f = (case f of None \<Rightarrow> Some line | Some k \<Rightarrow> if line < k then Some line else f)"

fun is_ins :: "hl_edit \<Rightarrow> bool" where "is_ins (Ins _ _ _ _) = True" | "is_ins (Del _ _ _) = False"

text \<open>One bucket: the lines to put before line \<open>line\<close>, and whether the line goes.\<close>

definition apply_bucket ::
  "file_state \<times> nat option \<Rightarrow> nat \<times> indexed_edit list \<Rightarrow> file_state \<times> nat option" where
  "apply_bucket st lb =
     (case (st, lb) of (((fl, org), changed), (line, entries)) \<Rightarrow>
        let bucket = map fst (sort_key snd entries);
            idx = line - 1;
            currentLine = (case arr_get fl idx of None \<Rightarrow> [] | Some l \<Rightarrow> l);
            beforeLines = map etext (filter is_ins bucket);
            deleteLine = list_ex (\<lambda>e. \<not> is_ins e) bucket
        in if beforeLines = [] \<and> \<not> deleteLine then st
           else (let replacement = (if deleteLine then beforeLines else beforeLines @ [currentLine]);
                     origins = map (\<lambda>_. if deleteLine then Replacement else Inserted) replacement;
                     origins' = (if deleteLine then origins
                       else origins[length origins - 1 :=
                              (case arr_get org idx of None \<Rightarrow> Original | Some k \<Rightarrow> k)])
                 in ((splice idx 1 replacement fl, splice idx 1 origins' org), track line changed)))"

definition lookup_bucket :: "(nat \<times> indexed_edit list) list \<Rightarrow> nat \<Rightarrow> nat \<times> indexed_edit list" where
  "lookup_bucket byLine line = (line, case map_of byLine line of None \<Rightarrow> [] | Some b \<Rightarrow> b)"

fun is_bof_insert :: "hl_edit \<Rightarrow> bool" where
  "is_bof_insert (Ins c _ _ _) \<longleftrightarrow> c = Bof"
| "is_bof_insert (Del _ _ _) \<longleftrightarrow> False"

fun is_eof_insert :: "hl_edit \<Rightarrow> bool" where
  "is_eof_insert (Ins c _ _ _) \<longleftrightarrow> c = Eof"
| "is_eof_insert (Del _ _ _) \<longleftrightarrow> False"

text \<open>The part after the rewriting: partition, apply the buckets bottom-up, then the two ends.\<close>

definition apply_normalized :: "jstr list \<Rightarrow> hl_edit list \<Rightarrow> file_state \<times> nat option" where
  "apply_normalized fl es =
     (let bofLines = map etext (filter is_bof_insert es);
          eofLines = map etext (filter is_eof_insert es);
          anchorEdits = filter (\<lambda>(e, _). \<not> is_bof_insert e \<and> \<not> is_eof_insert e) (zip es [0..<length es]);
          byLine = bucketAnchorEditsByLine anchorEdits;
          (st1, changed1) = foldl apply_bucket ((fl, map (\<lambda>_. Original) fl), None)
            (map (lookup_bucket byLine) (rev (sort (map fst byLine))));
          (st2, changed2) = (if bofLines \<noteq> [] then (insertAtStart st1 bofLines, track 1 changed1) else (st1, changed1));
          (st3, eofChanged) = insertAtEnd st2 eofLines
      in (st3, case eofChanged of None \<Rightarrow> changed2 | Some l \<Rightarrow> track l changed2))"

definition applyHashlineEdits ::
  "(jstr \<Rightarrow> nat) \<Rightarrow> jstr \<Rightarrow> hl_edit list \<Rightarrow> apply_options \<Rightarrow> hl_error + (apply_result \<times> hl_edit list)" where
  "applyHashlineEdits xx text es opts =
     (if es = [] then Inr (\<lparr>ar_lines = text, ar_firstChangedLine = None, ar_warnings = []\<rparr>, es)
      else (let fl = split_on 10 text
            in and_then (validateHashlineAnchors xx es fl) (\<lambda>mismatches.
               if mismatches \<noteq> [] then Inl (HashlineMismatchError mismatches fl)
               else (case absorbReplacementBoundaryDuplicates xx es fl opts of
                 (absorbed, warnings) \<Rightarrow>
                   let normalized = map (\<lambda>(ref, e). (ref, normalize_edit xx fl e)) absorbed;
                       ((fl', org'), changed) = apply_normalized fl (map snd normalized)
                   in Inr (\<lparr>ar_lines = join_with [10] fl', ar_firstChangedLine = changed, ar_warnings = warnings\<rparr>,
                           mutated_edits normalized es)))))"

section \<open>What applying means\<close>

text \<open>The reference definition: read the file once from the top, replacing each line by the inserts
  before it followed by the line itself unless it is deleted; then put the inserts of the two ends.\<close>

fun before_line :: "nat \<Rightarrow> hl_edit \<Rightarrow> bool" where
  "before_line i (Ins (Before_Anchor a) _ _ _) \<longleftrightarrow> anc_line a = i"
| "before_line i _ \<longleftrightarrow> False"

fun deletes_line :: "nat \<Rightarrow> hl_edit \<Rightarrow> bool" where
  "deletes_line i (Del a _ _) \<longleftrightarrow> anc_line a = i"
| "deletes_line i (Ins _ _ _ _) \<longleftrightarrow> False"

definition line_image :: "jstr list \<Rightarrow> hl_edit list \<Rightarrow> nat \<Rightarrow> jstr list" where
  "line_image fl es i =
     map etext (filter (before_line i) es) @ (if list_ex (deletes_line i) es then [] else [fl ! (i - 1)])"

definition edited_body :: "jstr list \<Rightarrow> hl_edit list \<Rightarrow> jstr list" where
  "edited_body fl es = concat (map (line_image fl es) [1..<Suc (length fl)])"

definition put_start :: "jstr list \<Rightarrow> jstr list \<Rightarrow> jstr list" where
  "put_start ls fl = (if ls \<noteq> [] \<and> fl = [[]] then ls else ls @ fl)"

definition put_end :: "jstr list \<Rightarrow> jstr list \<Rightarrow> jstr list" where
  "put_end ls fl =
     (if ls = [] then fl
      else if fl = [[]] then ls
      else if fl \<noteq> [] \<and> last fl = [] then butlast fl @ ls @ [[]]
      else fl @ ls)"

definition edited :: "jstr list \<Rightarrow> hl_edit list \<Rightarrow> jstr list" where
  "edited fl es =
     put_end (map etext (filter is_eof_insert es))
       (put_start (map etext (filter is_bof_insert es)) (edited_body fl es))"

text \<open>Edits ready for bucketing: no insert after a line, and every line named exists.\<close>

fun normal_edit :: "nat \<Rightarrow> hl_edit \<Rightarrow> bool" where
  "normal_edit n (Del a _ _) \<longleftrightarrow> 1 \<le> anc_line a \<and> anc_line a \<le> n"
| "normal_edit n (Ins (Before_Anchor a) _ _ _) \<longleftrightarrow> 1 \<le> anc_line a \<and> anc_line a \<le> n"
| "normal_edit n (Ins (After_Anchor a) _ _ _) \<longleftrightarrow> False"
| "normal_edit n (Ins _ _ _ _) \<longleftrightarrow> True"

section \<open>Buckets\<close>

lemma bucketAnchorEditsByLine_snoc:
  "bucketAnchorEditsByLine (es @ [e]) =
     (let byLine = bucketAnchorEditsByLine es; line = bucket_line (fst e)
      in AList.update line ((case map_of byLine line of None \<Rightarrow> [] | Some b \<Rightarrow> b) @ [e]) byLine)"
  by (simp add: bucketAnchorEditsByLine_def Let_def split: option.splits)

lemma bucket_lookup:
  "map_of (bucketAnchorEditsByLine es) line =
     (let b = filter (\<lambda>e. bucket_line (fst e) = line) es in if b = [] then None else Some b)"
  by (induction es rule: rev_induct)
    (auto simp: bucketAnchorEditsByLine_snoc Let_def update_conv' bucketAnchorEditsByLine_def split: option.splits)

lemma bucket_keys:
  "distinct (map fst (bucketAnchorEditsByLine es))"
  "set (map fst (bucketAnchorEditsByLine es)) = (bucket_line \<circ> fst) ` set es"
proof -
  show "distinct (map fst (bucketAnchorEditsByLine es))"
    by (induction es rule: rev_induct)
      (simp_all add: bucketAnchorEditsByLine_snoc Let_def distinct_update, simp add: bucketAnchorEditsByLine_def)
  show "set (map fst (bucketAnchorEditsByLine es)) = (bucket_line \<circ> fst) ` set es"
    by (induction es rule: rev_induct)
      (simp_all add: bucketAnchorEditsByLine_snoc Let_def dom_update, simp add: bucketAnchorEditsByLine_def)
qed

text \<open>The effect of one bucket on the lines.\<close>

lemma apply_bucket_lines:
  assumes "sorted (map snd b)" "1 \<le> line" "line \<le> length pre" "b \<noteq> []"
  shows "apply_bucket ((pre @ tail, org), f) (line, b) =
    ((take (line - 1) pre
       @ (map etext (filter is_ins (map fst b)) @ (if list_ex (\<lambda>e. \<not> is_ins e) (map fst b) then [] else [pre ! (line - 1)]))
       @ drop line pre @ tail, snd (fst (apply_bucket ((pre @ tail, org), f) (line, b)))), track line f)"
proof -
  have "map etext (filter is_ins (map fst b)) \<noteq> [] \<or> list_ex (\<lambda>e. \<not> is_ins e) (map fst b)"
    using assms(4) by (cases b) auto
  moreover have "line - 1 < length pre" "Suc (line - 1) = line" using assms(2,3) by auto
  ultimately show ?thesis
    using assms(2,3)
    by (auto simp: apply_bucket_def Let_def sort_key_sorted [OF assms(1)] splice_one nth_append
        simp del: One_nat_def)
qed

definition bucket_out :: "jstr list \<Rightarrow> nat \<Rightarrow> indexed_edit list \<Rightarrow> jstr list" where
  "bucket_out fl line b =
     map etext (filter is_ins (map fst b)) @ (if list_ex (\<lambda>e. \<not> is_ins e) (map fst b) then [] else [fl ! (line - 1)])"

lemma concat_singles: "concat (map (\<lambda>i. [xs ! (i - 1)]) [Suc a..<Suc (length xs)]) = drop a xs"
  by (rule nth_equalityI) (auto simp: concat_map_singleton simp del: upt_Suc)

lemma upt_split_at: "1 \<le> k \<Longrightarrow> k \<le> n \<Longrightarrow> [1..<Suc n] = [1..<k] @ k # [Suc k..<Suc n]"
  using upt_add_eq_append [of 1 k "Suc n - k"] by (simp add: upt_conv_Cons del: upt_Suc)

text \<open>Splicing the buckets from the last line up gives the image of each line in order.\<close>

lemma apply_buckets_lines:
  assumes "sorted_wrt (>) ks"
    and "\<And>k. k \<in> set ks \<Longrightarrow> 1 \<le> k \<and> k \<le> length pre \<and> B k \<noteq> [] \<and> sorted (map snd (B k))"
  shows "fst (fst (foldl apply_bucket ((pre @ tail, org), f) (map (\<lambda>k. (k, B k)) ks))) =
    concat (map (\<lambda>i. if i \<in> set ks then bucket_out pre i (B i) else [pre ! (i - 1)]) [1..<Suc (length pre)]) @ tail"
  using assms
proof (induction ks arbitrary: pre tail org f)
  case Nil
  then show ?case using concat_singles [of pre 0] by simp
next
  case (Cons k ks)
  let ?pre = "take (k - 1) pre"
  have k: "1 \<le> k" "k \<le> length pre" "B k \<noteq> []" "sorted (map snd (B k))" using Cons.prems(2) [of k] by auto
  have ks: "i \<in> set ks \<Longrightarrow> 1 \<le> i \<and> i \<le> length ?pre \<and> B i \<noteq> [] \<and> sorted (map snd (B i))" for i
    using Cons.prems(1) Cons.prems(2) [of i] k by auto
  let ?out = "\<lambda>p ks i. if i \<in> set ks then bucket_out p i (B i) else [p ! (i - 1)]"
  obtain org' where step: "apply_bucket ((pre @ tail, org), f) (k, B k)
      = ((?pre @ (bucket_out pre k (B k) @ drop k pre @ tail), org'), track k f)"
    using apply_bucket_lines [OF k(4,1,2,3), of tail org f] by (simp add: bucket_out_def)
  have low: "map (?out ?pre ks) [1..<k] = map (?out pre (k # ks)) [1..<k]"
    using k by (auto simp: bucket_out_def)
  have "k \<notin> set ks" "\<And>i. k < i \<Longrightarrow> i \<notin> set (k # ks)" using Cons.prems(1) by auto
  then have high: "map (?out pre (k # ks)) [Suc k..<Suc (length pre)] = map (\<lambda>i. [pre ! (i - 1)]) [Suc k..<Suc (length pre)]"
    by (auto simp del: upt_Suc)
  have len: "Suc (length ?pre) = k" using k by simp
  have split: "concat (map g [1..<Suc (length pre)])
      = concat (map g [1..<k]) @ g k @ concat (map g [Suc k..<Suc (length pre)])" for g :: "nat \<Rightarrow> jstr list"
    unfolding upt_split_at [OF k(1,2)] by simp
  have "sorted_wrt (>) ks" using Cons.prems(1) by simp
  then have "fst (fst (foldl apply_bucket ((pre @ tail, org), f) (map (\<lambda>k. (k, B k)) (k # ks)))) =
      concat (map (?out ?pre ks) [1..<Suc (length ?pre)]) @ bucket_out pre k (B k) @ drop k pre @ tail"
    unfolding list.map foldl.simps step by (rule Cons.IH [OF _ ks])
  also have "\<dots> = concat (map (?out pre (k # ks)) [1..<Suc (length pre)]) @ tail"
    unfolding split len low high concat_singles by simp
  finally show ?case .
qed

section \<open>The implementation refines the reference\<close>

definition anchor_edits :: "hl_edit list \<Rightarrow> indexed_edit list" where
  "anchor_edits es = filter (\<lambda>(e, _). \<not> is_bof_insert e \<and> \<not> is_eof_insert e) (zip es [0..<length es])"

lemma anchor_edits_bucket:
  "map fst (filter (\<lambda>e. bucket_line (fst e) = i) (anchor_edits es))
   = filter (\<lambda>e. \<not> is_bof_insert e \<and> \<not> is_eof_insert e \<and> bucket_line e = i) es"
  using map_fst_filter_zip [of es "[0..<length es]" "\<lambda>e. (\<not> is_bof_insert e \<and> \<not> is_eof_insert e) \<and> bucket_line e = i"]
  by (simp add: anchor_edits_def case_prod_unfold filter_filter conj_commute conj_left_commute)

lemma anchor_edits_sorted: "sorted (map snd (filter P (anchor_edits es)))"
  unfolding anchor_edits_def by (intro sorted_filter) simp

lemma bucket_out_image:
  assumes "list_all (normal_edit n) es" "1 \<le> i"
  shows "bucket_out fl i (filter (\<lambda>e. bucket_line (fst e) = i) (anchor_edits es)) = line_image fl es i"
proof -
  have 1: "(\<not> is_bof_insert e \<and> \<not> is_eof_insert e \<and> bucket_line e = i) \<and> is_ins e \<longleftrightarrow> before_line i e"
    "(\<not> is_bof_insert e \<and> \<not> is_eof_insert e \<and> bucket_line e = i) \<and> \<not> is_ins e \<longleftrightarrow> deletes_line i e"
    if "e \<in> set es" for e
  proof -
    have "normal_edit n e" using assms(1) that by (simp add: list_all_iff)
    with assms(2) show "(\<not> is_bof_insert e \<and> \<not> is_eof_insert e \<and> bucket_line e = i) \<and> is_ins e \<longleftrightarrow> before_line i e"
      "(\<not> is_bof_insert e \<and> \<not> is_eof_insert e \<and> bucket_line e = i) \<and> \<not> is_ins e \<longleftrightarrow> deletes_line i e"
      by (cases "(i, e)" rule: before_line.cases; auto)+
  qed
  have "filter is_ins (filter (\<lambda>e. \<not> is_bof_insert e \<and> \<not> is_eof_insert e \<and> bucket_line e = i) es) = filter (before_line i) es"
    using 1(1) by (auto intro: filter_cong simp: filter_filter conj_commute)
  moreover have "list_ex (\<lambda>e. \<not> is_ins e) (filter (\<lambda>e. \<not> is_bof_insert e \<and> \<not> is_eof_insert e \<and> bucket_line e = i) es)
      \<longleftrightarrow> list_ex (deletes_line i) es"
    using 1(2) by (auto simp: list_ex_iff)
  ultimately show ?thesis
    by (simp only: bucket_out_def anchor_edits_bucket line_image_def)
qed

lemma line_image_untouched:
  assumes "list_all (normal_edit n) es" "i \<notin> (bucket_line \<circ> fst) ` set (anchor_edits es)" "1 \<le> i"
  shows "line_image fl es i = [fl ! (i - 1)]"
proof -
  have "filter (\<lambda>e. bucket_line (fst e) = i) (anchor_edits es) = []"
    using assms(2) by (auto simp: filter_empty_conv)
  then show ?thesis using bucket_out_image [OF assms(1,3), of fl] by (simp add: bucket_out_def)
qed

lemma strictly_descending: "distinct xs \<Longrightarrow> sorted_wrt (>) (rev (sort (xs :: nat list)))"
  by (simp add: sorted_wrt_rev strict_sorted_iff)

lemma anchor_edits_lines:
  assumes "list_all (normal_edit n) es" "k \<in> (bucket_line \<circ> fst) ` set (anchor_edits es)"
  shows "1 \<le> k \<and> k \<le> n"
proof -
  from assms(2) obtain e i where "(e, i) \<in> set (anchor_edits es)" "k = bucket_line e" by auto
  then have "e \<in> set es" "\<not> is_bof_insert e" "\<not> is_eof_insert e" "k = bucket_line e"
    by (auto simp: anchor_edits_def dest: set_zip_leftD)
  moreover from this have "normal_edit n e" using assms(1) by (simp add: list_all_iff)
  ultimately show ?thesis by (cases "(k, e)" rule: before_line.cases) auto
qed

definition buckets_in_order :: "hl_edit list \<Rightarrow> (nat \<times> indexed_edit list) list" where
  "buckets_in_order es =
     (let byLine = bucketAnchorEditsByLine (anchor_edits es)
      in map (lookup_bucket byLine) (rev (sort (map fst byLine))))"

text \<open>The order in which the buckets are applied: strictly descending existing lines.\<close>

lemma buckets_in_order:
  assumes "list_all (normal_edit n) es"
  obtains ks where "sorted_wrt (>) ks" "set ks = (bucket_line \<circ> fst) ` set (anchor_edits es)"
    "\<And>k. k \<in> set ks \<Longrightarrow> 1 \<le> k \<and> k \<le> n"
    "buckets_in_order es = map (\<lambda>k. (k, filter (\<lambda>e. bucket_line (fst e) = k) (anchor_edits es))) ks"
proof -
  let ?byLine = "bucketAnchorEditsByLine (anchor_edits es)"
  let ?ks = "rev (sort (map fst ?byLine))"
  have keys: "set ?ks = (bucket_line \<circ> fst) ` set (anchor_edits es)"
    using bucket_keys(2) [of "anchor_edits es"] by simp
  show ?thesis
  proof (rule that [of ?ks])
    show "sorted_wrt (>) ?ks" using bucket_keys(1) by (rule strictly_descending)
    show "\<And>k. k \<in> set ?ks \<Longrightarrow> 1 \<le> k \<and> k \<le> n" using anchor_edits_lines [OF assms] keys by blast
    show "buckets_in_order es = map (\<lambda>k. (k, filter (\<lambda>e. bucket_line (fst e) = k) (anchor_edits es))) ?ks"
      by (auto simp: buckets_in_order_def Let_def lookup_bucket_def bucket_lookup)
  qed (rule keys)
qed

lemma buckets_edited_body:
  assumes "list_all (normal_edit (length fl)) es"
  shows "fst (fst (foldl apply_bucket ((fl, org), f) (buckets_in_order es))) = edited_body fl es"
proof -
  let ?B = "\<lambda>k. filter (\<lambda>e. bucket_line (fst e) = k) (anchor_edits es)"
  obtain ks where ks: "sorted_wrt (>) ks" "set ks = (bucket_line \<circ> fst) ` set (anchor_edits es)"
    "\<And>k. k \<in> set ks \<Longrightarrow> 1 \<le> k \<and> k \<le> length fl" "buckets_in_order es = map (\<lambda>k. (k, ?B k)) ks"
    by (rule buckets_in_order [OF assms]) blast
  have "k \<in> set ks \<Longrightarrow> ?B k \<noteq> []" for k using ks(2) by (auto simp: filter_empty_conv)
  then have "fst (fst (foldl apply_bucket ((fl @ [], org), f) (map (\<lambda>k. (k, ?B k)) ks))) =
     concat (map (\<lambda>i. if i \<in> set ks then bucket_out fl i (?B i) else [fl ! (i - 1)]) [1..<Suc (length fl)]) @ []"
    using ks by (intro apply_buckets_lines) (auto simp: anchor_edits_sorted)
  also have "map (\<lambda>i. if i \<in> set ks then bucket_out fl i (?B i) else [fl ! (i - 1)]) [1..<Suc (length fl)]
      = map (line_image fl es) [1..<Suc (length fl)]"
    using ks(2) bucket_out_image [OF assms] line_image_untouched [OF assms] by (auto simp del: upt_Suc)
  finally show ?thesis using ks(4) by (simp add: edited_body_def)
qed

lemma insertAtStart_lines: "fst (insertAtStart (fl, org) ls) = put_start ls fl"
  by (auto simp: insertAtStart_def put_start_def splice_def Let_def)

lemma insertAtEnd_lines: "fst (fst (insertAtEnd (fl, org) ls)) = put_end ls fl"
proof (cases "fl \<noteq> [] \<and> last fl = []")
  case True
  then have "fl = butlast fl @ [[]]" by (metis append_butlast_last_id)
  then obtain ys where "fl = ys @ [[]]" by blast
  then show ?thesis by (auto simp: insertAtEnd_def put_end_def splice_def Let_def)
qed (auto simp: insertAtEnd_def put_end_def splice_def Let_def)

lemma apply_normalized_unfold:
  "apply_normalized fl es =
     (let (st1, changed1) = foldl apply_bucket ((fl, map (\<lambda>_. Original) fl), None) (buckets_in_order es);
          bofLines = map etext (filter is_bof_insert es);
          (st2, changed2) = (if bofLines \<noteq> [] then (insertAtStart st1 bofLines, track 1 changed1) else (st1, changed1));
          (st3, eofChanged) = insertAtEnd st2 (map etext (filter is_eof_insert es))
      in (st3, case eofChanged of None \<Rightarrow> changed2 | Some l \<Rightarrow> track l changed2))"
  by (simp only: apply_normalized_def buckets_in_order_def anchor_edits_def Let_def)

lemma put_start_Nil [simp]: "put_start [] fl = fl" by (simp add: put_start_def)

lemma apply_normalized_lines:
  assumes "list_all (normal_edit (length fl)) es"
  shows "fst (fst (apply_normalized fl es)) = edited fl es"
proof -
  obtain fl1 org1 c1 where f: "foldl apply_bucket ((fl, map (\<lambda>_. Original) fl), None) (buckets_in_order es) = ((fl1, org1), c1)"
    by (metis surj_pair)
  then have fl1: "fl1 = edited_body fl es"
    using buckets_edited_body [OF assms, of "map (\<lambda>_. Original) fl" None] by simp
  obtain org2 where "insertAtStart (fl1, org1) (map etext (filter is_bof_insert es))
      = (put_start (map etext (filter is_bof_insert es)) fl1, org2)"
    using insertAtStart_lines [of fl1 org1 "map etext (filter is_bof_insert es)"] by (metis fst_conv surj_pair)
  then show ?thesis
    using insertAtEnd_lines fl1
    by (auto simp: apply_normalized_unfold f edited_def case_prod_unfold Let_def)
qed

section \<open>Checking the anchors\<close>

definition anchor_fresh :: "(jstr \<Rightarrow> nat) \<Rightarrow> jstr list \<Rightarrow> anchor \<Rightarrow> bool" where
  "anchor_fresh xx fl a \<longleftrightarrow>
     anc_hash a = RANGE_INTERIOR_HASH \<or> anc_hash a = computeLineHash xx (anc_line a) (file_line fl (anc_line a))"

definition stale_anchors :: "(jstr \<Rightarrow> nat) \<Rightarrow> jstr list \<Rightarrow> anchor list \<Rightarrow> hash_mismatch list" where
  "stale_anchors xx fl as =
     map (\<lambda>a. \<lparr>hm_line = anc_line a, hm_expected = anc_hash a,
               hm_actual = computeLineHash xx (anc_line a) (file_line fl (anc_line a))\<rparr>)
       (filter (\<lambda>a. \<not> anchor_fresh xx fl a) as)"

lemma validate_anchors_spec:
  "validate_anchors xx fl as =
     (case find (\<lambda>a. anc_line a < 1 \<or> length fl < anc_line a) as of
        Some a \<Rightarrow> Inl (Line_does_not_exist (anc_line a) (length fl))
      | None \<Rightarrow> Inr (stale_anchors xx fl as))"
  by (induction as) (auto simp: stale_anchors_def anchor_fresh_def Let_def split: option.splits)

definition edits_exist :: "jstr list \<Rightarrow> hl_edit list \<Rightarrow> bool" where
  "edits_exist fl es \<longleftrightarrow> list_all (lines_exist (length fl)) es"

lemma edits_exist_find:
  "edits_exist fl es \<longleftrightarrow>
   find (\<lambda>a. anc_line a < 1 \<or> length fl < anc_line a) (concat (map getHashlineEditAnchors es)) = None"
  by (auto simp: edits_exist_def find_None_iff list_all_iff lines_exist_def not_less Suc_le_eq)

lemma validate_existing:
  "edits_exist fl es \<Longrightarrow>
   validateHashlineAnchors xx es fl = Inr (stale_anchors xx fl (concat (map getHashlineEditAnchors es)))"
  by (simp add: validateHashlineAnchors_def validate_anchors_spec edits_exist_find)

lemma validate_Inr:
  "validateHashlineAnchors xx es fl = Inr ms \<Longrightarrow>
   edits_exist fl es \<and> ms = stale_anchors xx fl (concat (map getHashlineEditAnchors es))"
  by (auto simp: validateHashlineAnchors_def validate_anchors_spec edits_exist_find split: option.splits)

section \<open>The edits after repair and rewriting\<close>

definition normalized_edits :: "(jstr \<Rightarrow> nat) \<Rightarrow> jstr list \<Rightarrow> hl_edit list \<Rightarrow> apply_options \<Rightarrow> hl_edit list" where
  "normalized_edits xx fl es opts =
     map (\<lambda>(ref, e). normalize_edit xx fl e) (fst (absorbReplacementBoundaryDuplicates xx es fl opts))"

lemma normalize_edit_normal: "lines_exist (length fl) e \<Longrightarrow> normal_edit (length fl) (normalize_edit xx fl e)"
  by (cases "(length fl, e)" rule: normal_edit.cases)
    (auto simp: lines_exist_def normalize_cursor_def)

lemma repaired_edit_exists:
  assumes "repaired_edit fl es (ref, e)" "edits_exist fl es"
  shows "lines_exist (length fl) e"
  using assms
  by (cases ref; cases e)
    (fastforce simp: repaired_edit_def edits_exist_def lines_exist_def list_all_length)+

lemma normalized_edits_normal:
  assumes "edits_exist fl es"
  shows "list_all (normal_edit (length fl)) (normalized_edits xx fl es opts)"
proof -
  have "list_all (repaired_edit fl es) (fst (absorbReplacementBoundaryDuplicates xx es fl opts))"
    using assms unfolding edits_exist_def by (rule absorb_repaired)
  then have "normal_edit (length fl) (normalize_edit xx fl e)"
    if "(ref, e) \<in> set (fst (absorbReplacementBoundaryDuplicates xx es fl opts))" for ref e
    using that assms by (intro normalize_edit_normal repaired_edit_exists) (auto simp: list_all_iff)
  then show ?thesis by (auto simp: normalized_edits_def list_all_iff)
qed

text \<open>The result of a call, branch by branch.\<close>

lemma applyHashlineEdits_cases:
  fixes content :: jstr
  defines "fl \<equiv> split_on 10 content"
  assumes "es \<noteq> []"
  shows "\<not> edits_exist fl es \<Longrightarrow> \<exists>n. applyHashlineEdits xx content es opts = Inl (Line_does_not_exist n (length fl))"
    and "edits_exist fl es \<Longrightarrow> ms = stale_anchors xx fl (concat (map getHashlineEditAnchors es)) \<Longrightarrow> ms \<noteq> [] \<Longrightarrow>
      applyHashlineEdits xx content es opts = Inl (HashlineMismatchError ms fl)"
    and "edits_exist fl es \<Longrightarrow> stale_anchors xx fl (concat (map getHashlineEditAnchors es)) = [] \<Longrightarrow>
      applyHashlineEdits xx content es opts =
        Inr (\<lparr>ar_lines = join_with [10] (edited fl (normalized_edits xx fl es opts)),
              ar_firstChangedLine = snd (apply_normalized fl (normalized_edits xx fl es opts)),
              ar_warnings = snd (absorbReplacementBoundaryDuplicates xx es fl opts)\<rparr>,
             mutated_edits (map (\<lambda>(ref, e). (ref, normalize_edit xx fl e))
               (fst (absorbReplacementBoundaryDuplicates xx es fl opts))) es)"
proof -
  show "\<exists>n. applyHashlineEdits xx content es opts = Inl (Line_does_not_exist n (length fl))" if "\<not> edits_exist fl es"
    using that assms(2)
    by (auto simp: applyHashlineEdits_def Let_def validateHashlineAnchors_def validate_anchors_spec edits_exist_find
        simp flip: fl_def)
  show "applyHashlineEdits xx content es opts = Inl (HashlineMismatchError ms fl)"
    if "edits_exist fl es" "ms = stale_anchors xx fl (concat (map getHashlineEditAnchors es))" "ms \<noteq> []"
    using that assms(2) by (simp add: applyHashlineEdits_def Let_def validate_existing flip: fl_def)
  assume e: "edits_exist fl es" "stale_anchors xx fl (concat (map getHashlineEditAnchors es)) = []"
  let ?refs = "map (\<lambda>(ref, e). (ref, normalize_edit xx fl e)) (fst (absorbReplacementBoundaryDuplicates xx es fl opts))"
  have "map snd ?refs = normalized_edits xx fl es opts" by (auto simp: normalized_edits_def)
  moreover have "fst (fst (apply_normalized fl (normalized_edits xx fl es opts))) = edited fl (normalized_edits xx fl es opts)"
    by (intro apply_normalized_lines normalized_edits_normal e)
  ultimately show "applyHashlineEdits xx content es opts =
      Inr (\<lparr>ar_lines = join_with [10] (edited fl (normalized_edits xx fl es opts)),
            ar_firstChangedLine = snd (apply_normalized fl (normalized_edits xx fl es opts)),
            ar_warnings = snd (absorbReplacementBoundaryDuplicates xx es fl opts)\<rparr>,
           mutated_edits ?refs es)"
    using assms(2) e
    by (simp add: applyHashlineEdits_def Let_def validate_existing case_prod_unfold flip: fl_def)
qed

section \<open>The first changed line\<close>

definition same_above :: "jstr list \<Rightarrow> nat option \<Rightarrow> jstr list \<Rightarrow> bool" where
  "same_above fl changed fl' \<longleftrightarrow>
     (case changed of
        None \<Rightarrow> fl' = fl
      | Some k \<Rightarrow> 1 \<le> k \<and> k - 1 \<le> length fl \<and> take (k - 1) fl' = take (k - 1) fl)"

lemma apply_bucket_changed: "b \<noteq> [] \<Longrightarrow> snd (apply_bucket (st, f) (line, b)) = track line f"
proof -
  assume "b \<noteq> []"
  then have "map fst (sort_key snd b) \<noteq> []" by (metis length_0_conv length_map length_sort)
  then have "map etext (filter is_ins (map fst (sort_key snd b))) \<noteq> [] \<or> list_ex (\<lambda>e. \<not> is_ins e) (map fst (sort_key snd b))"
    by (cases "map fst (sort_key snd b)") auto
  then show ?thesis by (cases st) (auto simp: apply_bucket_def Let_def)
qed

lemma apply_buckets_changed:
  "(\<And>k. k \<in> set ks \<Longrightarrow> B k \<noteq> []) \<Longrightarrow>
   snd (foldl apply_bucket (st, f) (map (\<lambda>k. (k, B k)) ks)) = foldl (\<lambda>f k. track k f) f ks"
proof (induction ks arbitrary: st f)
  case (Cons k ks)
  obtain st' where "apply_bucket (st, f) (k, B k) = (st', track k f)"
    using apply_bucket_changed [of "B k" st f k] Cons.prems by (metis list.set_intros(1) prod.collapse)
  with Cons show ?case by simp
qed simp

lemma foldl_track: "foldl (\<lambda>f k. track k f) None ks = (if ks = [] then None else Some (Min (set ks)))"
proof -
  have "track k (Some x) = Some (min k x)" for k x by (simp add: track_def min_def)
  then have "foldl (\<lambda>f k. track k f) (Some x) js = Some (fold min js x)" for js x
    by (induction js arbitrary: x) simp_all
  then show ?thesis by (cases ks) (simp_all add: track_def Min.set_eq_fold del: set_simps)
qed

lemma edited_body_split:
  assumes "1 \<le> k" "k \<le> Suc (length fl)" "\<And>i. 1 \<le> i \<Longrightarrow> i < k \<Longrightarrow> line_image fl es i = [fl ! (i - 1)]"
  shows "edited_body fl es = take (k - 1) fl @ concat (map (line_image fl es) [k..<Suc (length fl)])"
proof -
  have "[1..<Suc (length fl)] = [1..<k] @ [k..<Suc (length fl)]"
    using assms(1,2) upt_add_eq_append [of 1 k "Suc (length fl) - k"] by (simp del: upt_Suc)
  moreover have "map (line_image fl es) [1..<k] = map (\<lambda>i. [take (k - 1) fl ! (i - 1)]) [Suc 0..<Suc (length (take (k - 1) fl))]"
    using assms by (auto intro!: map_cong simp del: upt_Suc)
  then have "concat (map (line_image fl es) [1..<k]) = take (k - 1) fl"
    using concat_singles [of "take (k - 1) fl" 0] by (simp del: upt_Suc)
  ultimately show ?thesis by (simp add: edited_body_def del: upt_Suc)
qed

lemma buckets_same_above:
  assumes "list_all (normal_edit (length fl)) es"
  shows "same_above fl (snd (foldl apply_bucket ((fl, org), None) (buckets_in_order es))) (edited_body fl es)"
proof -
  let ?B = "\<lambda>k. filter (\<lambda>e. bucket_line (fst e) = k) (anchor_edits es)"
  obtain ks where ks: "sorted_wrt (>) ks" "set ks = (bucket_line \<circ> fst) ` set (anchor_edits es)"
    "\<And>k. k \<in> set ks \<Longrightarrow> 1 \<le> k \<and> k \<le> length fl" "buckets_in_order es = map (\<lambda>k. (k, ?B k)) ks"
    by (rule buckets_in_order [OF assms]) blast
  have "k \<in> set ks \<Longrightarrow> ?B k \<noteq> []" for k using ks(2) by (auto simp: filter_empty_conv)
  then have c: "snd (foldl apply_bucket ((fl, org), None) (buckets_in_order es))
      = (if ks = [] then None else Some (Min (set ks)))"
    unfolding ks(4) foldl_track [symmetric] by (rule apply_buckets_changed)
  have image: "line_image fl es i = [fl ! (i - 1)]" if "1 \<le> i" "i \<notin> set ks" for i
    using line_image_untouched [OF assms _ that(1)] that(2) ks(2) by blast
  show ?thesis
  proof (cases "ks = []")
    case True
    then have "edited_body fl es = take (Suc (length fl) - 1) fl @ concat (map (line_image fl es) [Suc (length fl)..<Suc (length fl)])"
      using image by (intro edited_body_split) auto
    then show ?thesis unfolding c by (simp add: same_above_def True)
  next
    case False
    define m where "m = Min (set ks)"
    have m: "m \<in> set ks" "\<And>i. i < m \<Longrightarrow> i \<notin> set ks" using False by (auto simp: m_def dest: Min_le [rotated])
    then have "edited_body fl es = take (m - 1) fl @ concat (map (line_image fl es) [m..<Suc (length fl)])"
      using image ks(3) [OF m(1)] by (intro edited_body_split) auto
    moreover have "1 \<le> m" "m - 1 \<le> length fl" using ks(3) [OF m(1)] by auto
    moreover have "snd (foldl apply_bucket ((fl, org), None) (buckets_in_order es)) = Some m"
      using c False by (simp add: m_def)
    ultimately show ?thesis
      by (simp add: same_above_def min_absorb2 del: upt_Suc)
  qed
qed

lemma insertAtEnd_same_above:
  assumes "same_above fl c fl2" "insertAtEnd (fl2, org) ls = ((fl3, org3), e)"
  shows "same_above fl (case e of None \<Rightarrow> c | Some l \<Rightarrow> track l c) fl3"
proof (cases e)
  case None
  with assms show ?thesis by (auto simp: insertAtEnd_def Let_def split: if_splits)
next
  case (Some l)
  with assms(2) have "1 \<le> l" "l - 1 \<le> length fl2" "take (l - 1) fl3 = take (l - 1) fl2"
    by (auto simp: insertAtEnd_def Let_def splice_def split: if_splits)
  moreover from this have "take j fl3 = take j fl2" if "j \<le> l - 1" for j
    using that by (metis min.absorb1 take_take)
  ultimately show ?thesis
    using assms(1) Some by (auto simp: same_above_def track_def split: option.splits) (metis diff_le_mono less_imp_le min.absorb1 take_take order_trans)+
qed

lemma apply_normalized_same_above:
  assumes "list_all (normal_edit (length fl)) es"
  shows "same_above fl (snd (apply_normalized fl es)) (edited fl es)"
proof -
  obtain fl1 org1 c1 where f: "foldl apply_bucket ((fl, map (\<lambda>_. Original) fl), None) (buckets_in_order es) = ((fl1, org1), c1)"
    by (metis surj_pair)
  then have 1: "same_above fl c1 fl1"
    using buckets_edited_body [OF assms, of "map (\<lambda>_. Original) fl" None]
      buckets_same_above [OF assms, of "map (\<lambda>_. Original) fl"] by simp
  define ls where "ls = map etext (filter is_bof_insert es)"
  obtain fl2 org2 c2 where 2: "(if ls \<noteq> [] then (insertAtStart (fl1, org1) ls, track 1 c1) else ((fl1, org1), c1)) = ((fl2, org2), c2)"
    by (metis surj_pair)
  have "same_above fl (track 1 c1) fl2"
    using 1 by (auto simp: same_above_def track_def split: option.splits)
  with 1 2 have "same_above fl c2 fl2" by (auto split: if_splits)
  moreover obtain fl3 org3 e where 3: "insertAtEnd (fl2, org2) (map etext (filter is_eof_insert es)) = ((fl3, org3), e)"
    by (metis surj_pair)
  ultimately have "same_above fl (case e of None \<Rightarrow> c2 | Some l \<Rightarrow> track l c2) fl3"
    by (rule insertAtEnd_same_above)
  moreover have "apply_normalized fl es = ((fl3, org3), case e of None \<Rightarrow> c2 | Some l \<Rightarrow> track l c2)"
    unfolding apply_normalized_unfold f Let_def prod.case ls_def [symmetric] 2 3 by simp
  ultimately show ?thesis using apply_normalized_lines [OF assms] by simp
qed

text \<open>A file and a script used by the witnesses: insert a line after the first, delete the second.\<close>

definition demo_text :: jstr where
  "demo_text = js ''ab'' @ 10 # js ''cd'' @ 10 # js ''ef''"

definition demo_edits :: "hl_edit list" where
  "demo_edits =
     [Ins (After_Anchor \<lparr>anc_line = 1, anc_hash = computeLineHash (\<lambda>_. 0) 1 (js ''ab'')\<rparr>) (js ''new'') 1 0,
      Del \<lparr>anc_line = 2, anc_hash = computeLineHash (\<lambda>_. 0) 2 (js ''cd'')\<rparr> 3 1]"

lemma demo_lines: "split_on 10 demo_text = [js ''ab'', js ''cd'', js ''ef'']"
  by (simp add: demo_text_def js_eval)

lemma demo_edits_ok: "demo_edits \<noteq> []" "edits_exist (split_on 10 demo_text) demo_edits"
  "list_all (anchor_fresh (\<lambda>_. 0) (split_on 10 demo_text)) (concat (map getHashlineEditAnchors demo_edits))"
  by (simp_all add: demo_edits_def edits_exist_def lines_exist_def demo_lines anchor_fresh_def file_line_def)

lemma demo_edits_absorbed:
  "absorbReplacementBoundaryDuplicates (\<lambda>_. 0) demo_edits [js ''ab'', js ''cd'', js ''ef'']
     \<lparr>autoDropPureInsertDuplicates = False\<rparr> = ([(Some 0, demo_edits ! 0), (Some 1, demo_edits ! 1)], [])"
  by (simp add: absorbReplacementBoundaryDuplicates_def absorb_loop.simps absorb_step_def demo_edits_def
      findReplacementGroup_def findPureInsertGroup_def Let_def absorb_pure_insert_def tryAbsorbPureInsertGroup_def
      absorb_leading_def absorb_trailing_def arr_geti_def js_eval push_edits_def own_edits_def)

section \<open>Properties\<close>

text \<open>C2: an edit is applied only to the lines it names.  A call returns a result exactly when every
  anchor names an existing line and carries that line's identifier (or the filler that a range gives
  its interior); an anchor past the end is an error, and a stale anchor is rejected with exactly the
  stale anchors, in order.\<close>

theorem applyHashlineEdits_checks_anchors:
  assumes "es \<noteq> []"
  shows "(if \<not> edits_exist (split_on 10 content) es
     then \<exists>n. applyHashlineEdits xx content es opts = Inl (Line_does_not_exist n (length (split_on 10 content)))
     else if list_all (anchor_fresh xx (split_on 10 content)) (concat (map getHashlineEditAnchors es))
     then \<exists>r. applyHashlineEdits xx content es opts = Inr r
     else applyHashlineEdits xx content es opts =
       Inl (HashlineMismatchError (stale_anchors xx (split_on 10 content) (concat (map getHashlineEditAnchors es)))
              (split_on 10 content)))"
proof -
  have "list_all (anchor_fresh xx fl) as \<longleftrightarrow> stale_anchors xx fl as = []" for fl as
    by (auto simp: stale_anchors_def list_all_iff filter_empty_conv)
  then show ?thesis
    using applyHashlineEdits_cases(1) [OF assms, of content xx opts]
      applyHashlineEdits_cases(2) [OF assms, of content _ xx opts, OF _ refl]
      applyHashlineEdits_cases(3) [OF assms, of content xx opts]
    by simp
qed

theorem applyHashlineEdits_checks_anchors_witness:
  "demo_edits \<noteq> [] \<and> (\<exists>r. applyHashlineEdits (\<lambda>_. 0) demo_text demo_edits \<lparr>autoDropPureInsertDuplicates = False\<rparr> = Inr r)"
  using applyHashlineEdits_checks_anchors [OF demo_edits_ok(1), of demo_text "\<lambda>_. 0" "\<lparr>autoDropPureInsertDuplicates = False\<rparr>"]
    demo_edits_ok by simp

text \<open>C1: the bottom-up splicing over line buckets computes the reference semantics: read from the
  top, each line becomes the inserts anchored before it followed by the line unless it is deleted, and the
  inserts of the two ends go around the result.\<close>

theorem applyHashlineEdits_refines:
  assumes "es \<noteq> []" "edits_exist (split_on 10 content) es"
    "list_all (anchor_fresh xx (split_on 10 content)) (concat (map getHashlineEditAnchors es))"
  shows "\<exists>r es'. applyHashlineEdits xx content es opts = Inr (r, es') \<and>
    ar_lines r = join_with [10] (edited (split_on 10 content) (normalized_edits xx (split_on 10 content) es opts))"
proof -
  have "stale_anchors xx (split_on 10 content) (concat (map getHashlineEditAnchors es)) = []"
    using assms(3) by (auto simp: stale_anchors_def list_all_iff filter_empty_conv)
  from applyHashlineEdits_cases(3) [OF assms(1,2) this] show ?thesis by simp
qed

theorem applyHashlineEdits_refines_witness:
  "\<exists>r es'. applyHashlineEdits (\<lambda>_. 0) demo_text demo_edits \<lparr>autoDropPureInsertDuplicates = False\<rparr> = Inr (r, es') \<and>
     ar_lines r = join_with [10] [js ''ab'', js ''new'', js ''ef'']"
  using applyHashlineEdits_refines [OF demo_edits_ok, of "\<lparr>autoDropPureInsertDuplicates = False\<rparr>"]
  by (simp add: demo_lines normalized_edits_def demo_edits_absorbed)
    (simp add: demo_edits_def normalize_cursor_def edited_def put_end_def edited_body_def line_image_def upt_rec)

text \<open>C9: the reported first changed line is sound: every line above it is as it was, and when none is
  reported the text is unchanged.\<close>

theorem firstChangedLine_sound:
  assumes "applyHashlineEdits xx content es opts = Inr (r, es')"
  shows "\<exists>fl'. ar_lines r = join_with [10] fl' \<and> same_above (split_on 10 content) (ar_firstChangedLine r) fl'"
proof (cases "es = []")
  case True
  with assms show ?thesis
    by (intro exI [of _ "split_on 10 content"]) (auto simp: applyHashlineEdits_def same_above_def)
next
  case False
  let ?fl = "split_on 10 content" and ?as = "concat (map getHashlineEditAnchors es)"
  have e: "edits_exist ?fl es" and s: "stale_anchors xx ?fl ?as = []"
    using applyHashlineEdits_cases(1) [OF False, of content xx opts]
      applyHashlineEdits_cases(2) [OF False, of content _ xx opts, OF _ refl] assms by auto
  from applyHashlineEdits_cases(3) [OF False e s, of opts] assms
  show ?thesis using apply_normalized_same_above [OF normalized_edits_normal [OF e, of xx opts]] by auto
qed

theorem firstChangedLine_sound_witness:
  "\<exists>r es' fl'. applyHashlineEdits (\<lambda>_. 0) demo_text demo_edits \<lparr>autoDropPureInsertDuplicates = False\<rparr> = Inr (r, es') \<and>
     ar_lines r = join_with [10] fl' \<and> same_above (split_on 10 demo_text) (ar_firstChangedLine r) fl'"
proof -
  have "stale_anchors (\<lambda>_. 0) (split_on 10 demo_text) (concat (map getHashlineEditAnchors demo_edits)) = []"
    using demo_edits_ok(3) by (simp add: stale_anchors_def list_all_iff filter_empty_conv)
  from applyHashlineEdits_cases(3) [OF demo_edits_ok(1,2) this]
  obtain r es' where "applyHashlineEdits (\<lambda>_. 0) demo_text demo_edits \<lparr>autoDropPureInsertDuplicates = False\<rparr> = Inr (r, es')"
    by blast
  with firstChangedLine_sound [OF this] show ?thesis by blast
qed

end
