(* ===== verification/Hashline_Script.thy ===== *)
theory Hashline_Script
  imports Hashline_Parser
begin

text \<open>
  The abstract syntax of a hashline script and its printed form, as the edit tool's prompt describes
  it, against which the parser is verified: printing a script and parsing the text gives back exactly
  the edits the script means.
\<close>

datatype target = At_BOF | At_EOF | At_line anchor

datatype hl_op =
    Insert_op insert_kind target "jstr list"
  | Replace_op anchor anchor "jstr list"

definition print_anchor :: "anchor \<Rightarrow> jstr" where
  "print_anchor a = nat_str (anc_line a) @ anc_hash a"

fun print_target :: "target \<Rightarrow> jstr" where
  "print_target At_BOF = js ''BOF''"
| "print_target At_EOF = js ''EOF''"
| "print_target (At_line a) = print_anchor a"

fun print_op :: "hl_op \<Rightarrow> jstr list" where
  "print_op (Insert_op k t ps) = (sigil_of k # print_target t) # ps"
| "print_op (Replace_op a b ps) =
     (HL_OP_REPLACE # print_anchor a @ [46, 46] @ print_anchor b) # ps"

definition print_script :: "hl_op list \<Rightarrow> jstr" where
  "print_script ops = join_with [10] (concat (map print_op ops)) @ [10]"

text \<open>Payload lines are single lines that do not look like op lines, headers or markers.\<close>

definition payload_line :: "jstr \<Rightarrow> bool" where
  "payload_line l \<longleftrightarrow> 10 \<notin> set l \<and> (l = [] \<or> last l \<noteq> 13) \<and> \<not> isPayloadTerminatorLine l"

fun op_ok :: "hl_op \<Rightarrow> bool" where
  "op_ok (Insert_op k t ps) \<longleftrightarrow>
     (case t of At_line a \<Rightarrow> full_anchor a | _ \<Rightarrow> True) \<and> ps \<noteq> [] \<and> list_all payload_line ps"
| "op_ok (Replace_op a b ps) \<longleftrightarrow>
     full_anchor a \<and> full_anchor b \<and> anc_line a \<le> anc_line b \<and>
     (anc_line a = anc_line b \<longrightarrow> anc_hash a = anc_hash b) \<and> list_all payload_line ps"

text \<open>What a script means: its edits, given the script line and the edit index it starts at.\<close>

fun target_cursor :: "insert_kind \<Rightarrow> target \<Rightarrow> cursor" where
  "target_cursor k At_BOF = Bof"
| "target_cursor k At_EOF = Eof"
| "target_cursor Before (At_line a) = Before_Anchor a"
| "target_cursor After (At_line a) = After_Anchor a"

fun op_edits :: "nat \<Rightarrow> nat \<Rightarrow> hl_op \<Rightarrow> hl_edit list" where
  "op_edits n idx (Insert_op k t ps) = inserts_at (target_cursor k t) n idx ps"
| "op_edits n idx (Replace_op a b ps) =
     inserts_at (Before_Anchor a) n idx ps @ deletes_at n (idx + length ps) (expandRange (a, b))"

fun script_edits :: "nat \<Rightarrow> nat \<Rightarrow> hl_op list \<Rightarrow> hl_edit list" where
  "script_edits n idx [] = []"
| "script_edits n idx (p # ps) =
     op_edits n idx p
       @ script_edits (n + length (print_op p)) (idx + length (op_edits n idx p)) ps"

section \<open>Printed anchors\<close>

lemma full_anchorE:
  assumes "full_anchor a"
  obtains x y where "anc_hash a = [x, y]" "is_lower x" "is_lower y" "1 \<le> anc_line a"
  using assms by (auto simp: full_anchor_def)

lemma nat_str_lineno:
  assumes "1 \<le> n"
  shows "\<exists>x xs. nat_str n = x # xs \<and> 49 \<le> x \<and> x \<le> 57 \<and> list_all is_digit xs"
  using hd_nat_str [of n] nat_str_digits [of _ n] nat_str_not_Nil [of n] assms
  by (cases "nat_str n") (auto simp: list_all_iff)

lemma rfirst_lineno:
  assumes "1 \<le> n" "s = [] \<or> \<not> is_digit (hd s)"
  shows "\<exists>p'. rfirst (RCap k RLineNo) (p, nat_str n @ s, c) = Some (p', s, (k, nat_str n) # c)"
proof -
  obtain x xs where n: "nat_str n = x # xs" "49 \<le> x" "x \<le> 57" "list_all is_digit xs"
    using nat_str_lineno [OF assms(1)] by blast
  have "dropWhile is_digit (xs @ s) = s"
    using n(4) assms(2) by (cases s) (auto simp: dropWhile_append list_all_iff)
  then have "\<exists>p'. rfirst RLineNo (p, nat_str n @ s, c) = Some (p', s, c)"
    unfolding RLineNo_def using n rfirst_RSeq [of "RCls (\<lambda>c. 49 \<le> c \<and> c \<le> 57)" "(p, nat_str n @ s, c)"]
    by auto
  then show ?thesis using rfirst_RCap [of RLineNo p "nat_str n @ s" c _ s c k] by auto
qed

lemma rfirst_body_end: "\<exists>p'. rfirst RBodyEnd (p, [], c) = Some (p', [], c)"
proof -
  have "rfirst (ROpt (RSeq (RChr 124) (RStar (RCls is_dot)))) (p, [], c) = Some (p, [], c)"
    by (simp add: ROpt_def RChr_def rfirst_RAlt rfirst_RSeq_None)
  moreover have "\<exists>p'. rfirst (RSeq RWs REnd) (p, [], c) = Some (p', [], c)"
    using rfirst_RSeq [of RWs "(p, [], c)" _ REnd] by simp
  ultimately show ?thesis unfolding RBodyEnd_def using rfirst_RSeq by blast
qed

lemma parseLid_print:
  assumes "full_anchor a"
  shows "parseLid (print_anchor a) n sg = Inr a"
proof -
  obtain x y where a: "anc_hash a = [x, y]" "is_lower x" "is_lower y" "1 \<le> anc_line a"
    using full_anchorE [OF assms] .
  let ?d = "nat_str (anc_line a)"
  obtain z zs where "?d = z # zs" "is_digit z" using nat_str_Cons by blast
  then obtain p1 where 1: "rfirst HL_ANCHOR_DECORATION_RE (None, ?d @ [x, y], []) = Some (p1, ?d @ [x, y], [])"
    using rfirst_decoration [of "[]" "[]" "[]" "?d @ [x, y]" z "zs @ [x, y]" None "[]"] by auto
  obtain p2 where 2: "rfirst (RCap 1 RLineNo) (p1, ?d @ [x, y], []) = Some (p2, [x, y], [(1, ?d)])"
    using rfirst_lineno [OF a(4), of "[x, y]" 1 p1 "[]"] a(2) by auto
  obtain p3 where 3: "rfirst (RCap 2 RHash2) (p2, [x, y], [(1, ?d)]) = Some (p3, [], [(2, [x, y]), (1, ?d)])"
    using rfirst_two_letters [OF a(2,3), of 2 p2 "[]" "[(1, ?d)]"] by (auto simp: RHash2_def)
  obtain p4 where 4: "rfirst RBodyEnd (p3, [], [(2, [x, y]), (1, ?d)]) = Some (p4, [], [(2, [x, y]), (1, ?d)])"
    using rfirst_body_end by blast
  have "rexec LID_CAPTURE_RE (print_anchor a) = Some (p4, [], [(2, [x, y]), (1, ?d)])"
    unfolding rexec_def LID_CAPTURE_RE_def print_anchor_def a(1)
    by (rule rfirst_RSeq [OF 1 rfirst_RSeq [OF 2 rfirst_RSeq [OF 3 4]]])
  then show ?thesis using a(1) by (simp add: parseLid_def grp_def cap_def)
qed

lemma deco_lang: "u \<in> lang HL_ANCHOR_DECORATION_RE \<Longrightarrow> c \<in> set u \<Longrightarrow> is_ws c \<or> is_deco c"
  by (auto simp: HL_ANCHOR_DECORATION_RE_def list_all_iff)

lemma lineno_lang: "u \<in> lang RLineNo \<Longrightarrow> c \<in> set u \<Longrightarrow> is_digit c"
  by (auto simp: RLineNo_def list_all_iff is_digit_def)

text \<open>What may follow the number of a bare line reference never starts with a digit or a letter.\<close>

definition bare_sep :: rx where
  "bare_sep = RSeq RWs (RSeq (RAlt (RChr 45) RDotDot) (RSeq RWs (RCap 2 RLineNo)))"

definition bare_body :: rx where
  "bare_body = RSeq (RChr 124) (RStar (RSeq (RNot REndpoint) (RCls is_dot)))"

definition not_alnum_start :: "jstr \<Rightarrow> bool" where
  "not_alnum_start v \<longleftrightarrow> v = [] \<or> \<not> is_digit (hd v) \<and> \<not> is_lower (hd v)"

lemma not_alnum_append: "not_alnum_start u \<Longrightarrow> not_alnum_start v \<Longrightarrow> not_alnum_start (u @ v)"
  by (cases u) (auto simp: not_alnum_start_def)

lemma not_alnum_ws: "list_all is_ws w \<Longrightarrow> not_alnum_start w"
  by (cases w) (auto simp: not_alnum_start_def is_ws_def is_digit_def is_lower_def)

lemma not_alnum_sep: "u \<in> lang bare_sep \<Longrightarrow> not_alnum_start u"
proof -
  assume "u \<in> lang bare_sep"
  then obtain w sp t where "u = w @ sp @ t" "list_all is_ws w" "sp = [45] \<or> sp = [46, 46]"
    unfolding bare_sep_def RDotDot_def by auto
  moreover from this(3) have "not_alnum_start (sp @ t)"
    by (auto simp: not_alnum_start_def is_digit_def is_lower_def)
  ultimately show ?thesis by (simp add: not_alnum_append not_alnum_ws)
qed

lemma not_alnum_body: "u \<in> lang bare_body \<Longrightarrow> not_alnum_start u"
  unfolding bare_body_def by (auto simp: not_alnum_start_def is_digit_def is_lower_def)

lemma bare_tail:
  assumes "v \<in> lang (RSeq (ROpt bare_sep) (RSeq (ROpt bare_body) (RSeq RWs REnd)))"
  shows "not_alnum_start v"
proof -
  from assms obtain s b w where "v = s @ b @ w" "s = [] \<or> s \<in> lang bare_sep"
    "b = [] \<or> b \<in> lang bare_body" "list_all is_ws w"
    by auto
  moreover have "not_alnum_start []" by (simp add: not_alnum_start_def)
  ultimately show ?thesis
    by (auto intro!: not_alnum_append dest: not_alnum_sep not_alnum_body not_alnum_ws)
qed

lemma bare_refuses:
  assumes "is_lower x"
  shows "rexec BARE_LINE_REF_RE (nat_str n @ x # t) = None"
proof (rule rexec_NoneI)
  let ?w = "nat_str n @ x # t"
  let ?tail = "RSeq (ROpt bare_sep) (RSeq (ROpt bare_body) (RSeq RWs REnd))"
  fix st assume st: "st \<in> set (rmatch BARE_LINE_REF_RE (None, ?w, []))"
  then have "fst (snd st) = []" by (rule rmatch_ends [rotated]) (simp add: BARE_LINE_REF_RE_def)
  with rmatch_lang [OF st] have "?w \<in> lang BARE_LINE_REF_RE" by auto
  then obtain d m v where w: "?w = d @ m @ v" and d: "d \<in> lang HL_ANCHOR_DECORATION_RE"
    and m: "m \<in> lang RLineNo" and v: "v \<in> lang ?tail"
    unfolding BARE_LINE_REF_RE_def lang.simps(3) [of HL_ANCHOR_DECORATION_RE]
      bare_sep_def [symmetric] bare_body_def [symmetric]
      lang.simps(3) [of "RCap 1 RLineNo"] lang.simps(6) by blast
  obtain z zs where z: "nat_str n = z # zs" "is_digit z" using nat_str_Cons by blast
  have "d = []" using w z deco_lang [OF d, of z] by (cases d) auto
  moreover have "dropWhile is_digit ?w = x # t"
    using assms by (auto simp: dropWhile_append dest: nat_str_digits)
  moreover have "dropWhile is_digit (m @ v) = v"
    using lineno_lang [OF m] bare_tail [OF v]
    by (cases v) (auto simp: dropWhile_append not_alnum_start_def)
  ultimately have "v = x # t" using w by simp
  with bare_tail [OF v] assms show False by (simp add: not_alnum_start_def)
qed

section \<open>Op lines\<close>

lemma rfirst_ws_end: "\<exists>p'. rfirst (RSeq RWs REnd) (p, [], c) = Some (p', [], c)"
  using rfirst_RSeq [of RWs "(p, [], c)" _ REnd] by simp

lemma rfirst_no_body: "rfirst (ROpt (RSeq (RChr k) r)) (p, [], c) = Some (p, [], c)"
  by (simp add: ROpt_def RChr_def rfirst_RAlt rfirst_RSeq_None)

lemma rfirst_sigil_ws:
  "s \<noteq> [] \<Longrightarrow> \<not> is_ws (hd s) \<Longrightarrow> rfirst (RChr k) (None, k # s, []) = Some (Some k, s, [])
    \<and> rfirst RWs (Some k, s, []) = Some (Some k, s, [])"
  by (cases s) (auto simp: RChr_def)

lemma insert_op_match:
  assumes "s \<noteq> []" "\<And>c. c \<in> set s \<Longrightarrow> c \<noteq> 124 \<and> \<not> is_ws c"
  shows "\<exists>p'. rexec (INSERT_OP_RE k) (k # s) = Some (p', [], [(1, s)])"
proof -
  let ?P = "\<lambda>c. c \<noteq> 124 \<and> \<not> is_ws c"
  obtain z zs where s: "s = z # zs" using assms(1) by (cases s) auto
  have "dropWhile ?P zs = []" using assms(2) s by (auto simp: dropWhile_eq_Nil_conv)
  then have "\<exists>p'. rfirst (RPlus (RCls ?P)) (Some k, s, []) = Some (p', [], [])"
    unfolding RPlus_def using s assms(2) [of z] rfirst_RSeq [of "RCls ?P" "(Some k, s, [])"] by auto
  then obtain p1 where 1: "rfirst (RCap 1 (RPlus (RCls ?P))) (Some k, s, []) = Some (p1, [], [(1, s)])"
    using rfirst_RCap [of "RPlus (RCls ?P)" "Some k" s "[]" _ "[]" "[]" 1] by auto
  obtain p2 where 2: "rfirst (RSeq RWs REnd) (p1, [], [(1, s)]) = Some (p2, [], [(1, s)])"
    using rfirst_ws_end by blast
  have "rfirst (RSeq (RCap 1 (RPlus (RCls ?P)))
      (RSeq (ROpt (RSeq (RChr HL_BODY_SEP) (RCap 2 (RStar (RCls is_dot))))) (RSeq RWs REnd)))
      (Some k, s, []) = Some (p2, [], [(1, s)])"
    by (rule rfirst_RSeq [OF 1 rfirst_RSeq [OF rfirst_no_body 2]])
  moreover have "s \<noteq> []" "\<not> is_ws (hd s)" using assms s by auto
  ultimately show ?thesis
    unfolding rexec_def INSERT_OP_RE_def
    using rfirst_sigil_ws [of s k] rfirst_RSeq by blast
qed

lemma replace_op_match:
  assumes "s = z # zs" "is_digit z" "\<And>c. c \<in> set zs \<Longrightarrow> \<not> is_ws c"
  shows "\<exists>p'. rexec REPLACE_OP_RE (HL_OP_REPLACE # s) = Some (p', [], [(1, s)])"
proof -
  let ?F = "\<lambda>c. \<not> is_ws c \<and> c \<noteq> 43 \<and> c \<noteq> 60 \<and> c \<noteq> 45 \<and> c \<noteq> 61"
  let ?B = "ROpt (RSeq (RChr 124) (RStar (RCls is_dot)))"
  let ?r = "RSeq (RCls ?F) (RSeq (RStar (RCls (\<lambda>c. \<not> is_ws c))) ?B)"
  have "dropWhile (\<lambda>c. \<not> is_ws c) zs = []" using assms(3) by (auto simp: dropWhile_eq_Nil_conv)
  then obtain p0 where "rfirst (RStar (RCls (\<lambda>c. \<not> is_ws c))) (Some z, zs, []) = Some (p0, [], [])"
    by simp
  then have "rfirst (RSeq (RStar (RCls (\<lambda>c. \<not> is_ws c))) ?B) (Some z, zs, []) = Some (p0, [], [])"
    using rfirst_no_body by (rule rfirst_RSeq)
  moreover have "rfirst (RCls ?F) (Some HL_OP_REPLACE, s, []) = Some (Some z, zs, [])"
    using assms(1,2) is_ws_digit [OF assms(2)] by (auto simp: is_digit_def)
  ultimately have "rfirst ?r (Some HL_OP_REPLACE, s, []) = Some (p0, [], [])"
    by (rule rfirst_RSeq [rotated])
  then have 1: "rfirst (RCap 1 ?r) (Some HL_OP_REPLACE, s, []) = Some (p0, [], [(1, s)])"
    using rfirst_RCap [of ?r "Some HL_OP_REPLACE" s "[]" p0 "[]" "[]" 1] by simp
  obtain p2 where 2: "rfirst (RSeq RWs REnd) (p0, [], [(1, s)]) = Some (p2, [], [(1, s)])"
    using rfirst_ws_end by blast
  have "s \<noteq> []" "\<not> is_ws (hd s)" using assms by auto
  then show ?thesis
    unfolding rexec_def REPLACE_OP_RE_def
    using rfirst_sigil_ws [of s HL_OP_REPLACE] rfirst_RSeq [OF _ rfirst_RSeq [OF _ rfirst_RSeq [OF 1 2]]]
    by blast
qed

lemma print_anchor_chars:
  assumes "full_anchor a" "c \<in> set (print_anchor a)"
  shows "is_digit c \<or> is_lower c"
  using assms by (auto simp: print_anchor_def full_anchor_def dest: nat_str_digits)

lemma digit_or_lower [simp]:
  "is_digit c \<or> is_lower c \<Longrightarrow> \<not> is_ws c \<and> c \<noteq> 124 \<and> c \<noteq> 46 \<and> c \<noteq> 10 \<and> c \<noteq> 13"
  by (auto simp: is_digit_def is_lower_def is_ws_def)

lemma split_pair_free: "46 \<notin> set s \<Longrightarrow> split_pair 46 46 s = [s]"
  by (induction "46::nat" "46::nat" s rule: split_pair.induct) (auto simp: cons_hd_def)

lemma split_pair_at:
  "46 \<notin> set s \<Longrightarrow> split_pair 46 46 (s @ 46 # 46 # t) = s # split_pair 46 46 t"
proof (induction s)
  case (Cons x s)
  then show ?case by (cases s) (auto simp: cons_hd_def)
qed simp

lemma str_includes_at: "str_includes [46, 46] (s @ 46 # 46 # t)"
  by (induction s) auto

lemma parseRange_print:
  assumes "full_anchor a" "full_anchor b" "anc_line a \<le> anc_line b"
    and "anc_line a = anc_line b \<Longrightarrow> anc_hash a = anc_hash b"
  shows "parseRange (print_anchor a @ 46 # 46 # print_anchor b) n sg = Inr (a, b)"
proof -
  obtain x y where a: "anc_hash a = [x, y]" "is_lower x"
    using full_anchorE [OF assms(1)] by metis
  have "\<not> rtest BARE_LINE_REF_RE (print_anchor a @ 46 # 46 # print_anchor b)"
    using bare_refuses [OF a(2)] by (simp add: rtest_def print_anchor_def a(1))
  moreover have "46 \<notin> set (print_anchor a)" "46 \<notin> set (print_anchor b)"
    using print_anchor_chars [OF assms(1), of 46] print_anchor_chars [OF assms(2), of 46]
    by (auto simp: is_digit_def is_lower_def)
  moreover have "print_anchor a \<noteq> []" "print_anchor b \<noteq> []" by (auto simp: print_anchor_def)
  ultimately show ?thesis
    using assms(3,4) str_includes_at [of "print_anchor a" "print_anchor b"]
    by (simp add: parseRange_def js_eval split_pair_at split_pair_free with_range_def
        parseLid_print [OF assms(1)] parseLid_print [OF assms(2)] split: if_splits)
qed

lemma print_target_chars:
  assumes "case t of At_line a \<Rightarrow> full_anchor a | _ \<Rightarrow> True" "c \<in> set (print_target t)"
  shows "c \<noteq> 124 \<and> \<not> is_ws c \<and> c \<noteq> 10 \<and> c \<noteq> 13"
  using assms print_anchor_chars digit_or_lower
  by (cases t) (auto simp: js_eval is_ws_def)

lemma parseInsertTarget_print:
  assumes "case t of At_line a \<Rightarrow> full_anchor a | _ \<Rightarrow> True"
  shows "parseInsertTarget (print_target t) n k = Inr (target_cursor k t)"
proof (cases t)
  case (At_line a)
  obtain z zs where "nat_str (anc_line a) = z # zs" "is_digit z" using nat_str_Cons by blast
  then have "print_anchor a \<noteq> js ''BOF''" "print_anchor a \<noteq> js ''EOF''"
    by (auto simp: print_anchor_def js_eval is_digit_def)
  with At_line assms show ?thesis
    by (cases k) (auto simp: parseInsertTarget_def parseLid_print)
qed (auto simp: parseInsertTarget_def js_eval)

section \<open>Parsing a printed script\<close>

lemma collectPayload_print:
  assumes "list_all payload_line ps" "rest = [] \<or> isPayloadTerminatorLine (hd rest)" "ps \<noteq> [] \<or> e = None"
  shows "collectPayload (ps @ rest) n e = Inr (ps, rest)"
proof -
  have "takeWhile (\<lambda>l. \<not> isPayloadTerminatorLine l) (ps @ rest) = ps"
    and "dropWhile (\<lambda>l. \<not> isPayloadTerminatorLine l) (ps @ rest) = rest"
    using assms(1,2) by (cases rest; auto simp: payload_line_def list_all_iff takeWhile_append dropWhile_append)+
  with assms(3) show ?thesis by (auto simp: collectPayload_def split: option.splits)
qed

lemma insert_op_other: "k \<noteq> k' \<Longrightarrow> rexec (INSERT_OP_RE k) (k' # s) = None"
  by (simp add: rexec_def rfirst_def INSERT_OP_RE_def RChr_def)

lemma parse_insert_print:
  assumes "op_ok (Insert_op k t ps)" "rest = [] \<or> isPayloadTerminatorLine (hd rest)"
  shows "parse_insert_op xx k (sigil_of k # print_target t) (ps @ rest) n idx
    = Some (Inr (inserts_at (target_cursor k t) n idx ps, rest))"
proof -
  from assms(1) have t: "case t of At_line a \<Rightarrow> full_anchor a | _ \<Rightarrow> True" by simp
  have "print_target t \<noteq> []" by (cases t) (simp_all add: js_def print_anchor_def)
  then obtain p' where "rexec (INSERT_OP_RE (sigil_of k)) (sigil_of k # print_target t)
      = Some (p', [], [(1, print_target t)])"
    using insert_op_match [of "print_target t" "sigil_of k"] print_target_chars [OF t] by blast
  moreover have "collectPayload (ps @ rest) n e = Inr (ps, rest)" for e
    using assms by (intro collectPayload_print) simp_all
  ultimately show ?thesis
    by (simp add: parse_insert_op_def grp_def cap_def parseInsertTarget_print [OF t]
        resolveInlineInsertBody_def)
qed

lemma sigil_of_simps [simp]: "sigil_of Before \<noteq> sigil_of After" "sigil_of After \<noteq> sigil_of Before"
  "sigil_of k \<noteq> HL_OP_REPLACE"
  by (cases k; simp add: sigil_of_def js_eval)+

lemma parse_replace_print:
  assumes "op_ok (Replace_op a b ps)" "rest = [] \<or> isPayloadTerminatorLine (hd rest)"
  shows "parse_replace_op (HL_OP_REPLACE # print_anchor a @ 46 # 46 # print_anchor b) (ps @ rest) n idx
    = Some (Inr (op_edits n idx (Replace_op a b ps), rest))"
proof -
  let ?s = "print_anchor a @ 46 # 46 # print_anchor b"
  obtain z zs where "nat_str (anc_line a) = z # zs" "is_digit z" using nat_str_Cons by blast
  then have "?s = z # zs @ anc_hash a @ 46 # 46 # print_anchor b" "is_digit z"
    by (simp_all add: print_anchor_def)
  moreover have "\<And>c. c \<in> set ?s \<Longrightarrow> \<not> is_ws c"
    using assms(1) print_anchor_chars [of a] print_anchor_chars [of b] digit_or_lower
    by (auto simp: is_ws_def [of 46])
  ultimately obtain p' where "rexec REPLACE_OP_RE (HL_OP_REPLACE # ?s) = Some (p', [], [(1, ?s)])"
    using replace_op_match [of ?s z "zs @ anc_hash a @ 46 # 46 # print_anchor b"] by auto
  with assms show ?thesis
    by (simp add: parse_replace_op_def grp_def cap_def parseRange_print collectPayload_print)
qed

lemma parse_op_print:
  assumes "op_ok p" "rest = [] \<or> isPayloadTerminatorLine (hd rest)"
  shows "parse_op xx (hd (print_op p)) (tl (print_op p) @ rest) n idx = Inr (op_edits n idx p, rest)"
proof (cases p)
  case (Insert_op k t ps)
  then show ?thesis
    using assms parse_insert_print [of k t ps rest xx n idx]
    by (cases k) (simp_all add: parse_op_def parse_insert_op_def [of xx Before "sigil_of After # _"] insert_op_other)
next
  case (Replace_op a b ps)
  then have "parse_insert_op xx k (hd (print_op p)) (tl (print_op p) @ rest) n idx = None" for k
    by (simp add: parse_insert_op_def insert_op_other)
  with assms parse_replace_print [of a b ps rest n idx] Replace_op show ?thesis
    by (simp add: parse_op_def)
qed

lemma print_op_head:
  "print_op p = hd (print_op p) # tl (print_op p)"
  "\<exists>s. hd (print_op p) = s \<and> s \<noteq> [] \<and> hd s \<in> {171, 187, 8788}"
  by (cases p; auto simp: sigil_of_def js_eval split: insert_kind.splits)+

lemma sigil_line:
  assumes "l \<noteq> []" "hd l \<in> {171, 187, 8788}"
  shows "trim l \<noteq> []" "l \<noteq> END_PATCH_MARKER" "l \<noteq> ABORT_MARKER" "l \<noteq> BEGIN_PATCH_MARKER"
    "isPayloadTerminatorLine l"
proof -
  have "\<not> is_ws (hd l)" using assms(2) by (auto simp: is_ws_def)
  with assms(1) show "trim l \<noteq> []" by (metis hd_in_set trim_eq_Nil)
  show "l \<noteq> END_PATCH_MARKER" "l \<noteq> ABORT_MARKER" "l \<noteq> BEGIN_PATCH_MARKER"
    using assms(2) by (auto simp: js_eval)
  show "isPayloadTerminatorLine l" using assms by (auto simp: isPayloadTerminatorLine_def js_eval)
qed

lemma parse_loop_print:
  "list_all op_ok ops \<Longrightarrow>
   parse_loop xx (concat (map print_op ops)) n idx = Inr (script_edits n idx ops, [])"
proof (induction ops arbitrary: n idx)
  case (Cons p ops)
  let ?rest = "concat (map print_op ops)"
  obtain l ps where p: "print_op p = l # ps" using print_op_head(1) by blast
  have l: "l \<noteq> []" "hd l \<in> {171, 187, 8788}" using print_op_head(2) [of p] p by auto
  have "?rest = [] \<or> isPayloadTerminatorLine (hd ?rest)"
  proof (cases ops)
    case (Cons q qs)
    then have "hd ?rest = hd (print_op q)" using print_op_head(1) [of q] by (metis concat.simps(2) hd_append2 list.discI list.simps(9))
    then show ?thesis using print_op_head(2) [of q] sigil_line(5) by auto
  qed simp
  then have "parse_op xx l (ps @ ?rest) n idx = Inr (op_edits n idx p, ?rest)"
    using parse_op_print [of p ?rest xx n idx] Cons.prems p by simp
  with sigil_line [OF l] Cons p show ?case
    by (simp add: parse_loop.simps(2))
qed simp

lemma op_lines_single:
  assumes "op_ok p" "l \<in> set (print_op p)"
  shows "10 \<notin> set l \<and> (l = [] \<or> last l \<noteq> 13)"
proof (cases p)
  case (Insert_op k t ps)
  have "10 \<notin> set (sigil_of k # print_target t)" "13 \<notin> set (sigil_of k # print_target t)"
    using assms(1) Insert_op print_target_chars [of t]
    by (cases k; auto simp: sigil_of_def js_eval)+
  moreover have "last (sigil_of k # print_target t) \<in> set (sigil_of k # print_target t)" by simp
  ultimately show ?thesis
    using assms Insert_op by (auto simp: payload_line_def list_all_iff)
next
  case (Replace_op a b ps)
  let ?l = "HL_OP_REPLACE # print_anchor a @ [46, 46] @ print_anchor b"
  have "10 \<notin> set ?l" "13 \<notin> set ?l"
    using assms(1) Replace_op print_anchor_chars [of a 10] print_anchor_chars [of b 10]
      print_anchor_chars [of a 13] print_anchor_chars [of b 13]
    by (auto simp: js_eval)
  moreover have "last ?l \<in> set ?l" by (rule last_in_set) simp
  ultimately show ?thesis
    using assms Replace_op by (auto simp: payload_line_def list_all_iff)
qed

lemma script_lines_print:
  assumes "list_all op_ok ops" "ops \<noteq> []"
  shows "script_lines (print_script ops) = concat (map print_op ops)"
proof -
  let ?L = "concat (map print_op ops)"
  have one: "10 \<notin> set l \<and> (l = [] \<or> last l \<noteq> 13)" if "l \<in> set ?L" for l
    using that assms(1) op_lines_single by (fastforce simp: list_all_iff)
  have "print_op (hd ops) \<noteq> []" using print_op_head(1) [of "hd ops"] by (metis list.discI)
  with assms(2) have "?L \<noteq> []" by (cases ops) simp_all
  then have "split_on 10 (join_with [10] ?L) = ?L" using one by (intro split_join) auto
  then have "split_on 10 (print_script ops) = ?L @ [[]]"
    by (simp add: print_script_def split_on_snoc)
  moreover have "map strip_cr ?L = ?L"
    using one by (intro map_idI) (auto simp: strip_cr_def)
  ultimately show ?thesis
    by (simp add: script_lines_def split_crlf_def print_script_def)
qed

lemma parseHashline_print:
  assumes "list_all op_ok ops" "ops \<noteq> []"
  shows "parseHashline xx (print_script ops) = Inr (script_edits 1 0 ops)"
  by (simp add: parseHashline_def parseHashlineWithWarnings_def script_lines_print [OF assms]
      parse_loop_print [OF assms(1)])

text \<open>A script used by the witnesses: replace lines 3 to 5 by two lines, then insert at the end of the file.\<close>

definition demo_ops :: "hl_op list" where
  "demo_ops =
     [Replace_op \<lparr>anc_line = 3, anc_hash = js ''ab''\<rparr> \<lparr>anc_line = 5, anc_hash = js ''cd''\<rparr> [js ''x'', js ''  y''],
      Insert_op After At_EOF [js ''end'']]"

lemma demo_ops_ok: "list_all op_ok demo_ops" "demo_ops \<noteq> []"
  by (simp_all add: demo_ops_def full_anchor_def js_eval payload_line_def isPayloadTerminatorLine_def
      isEnvelopeOrAbortMarkerLine_def trimEnd_def)

lemma demo_ops_parse: "parseHashline (\<lambda>_. 0) (print_script demo_ops) = Inr (script_edits 1 0 demo_ops)"
  by (rule parseHashline_print [OF demo_ops_ok])

lemma demo_ops_length: "length (script_edits 1 0 demo_ops) = 6"
  by (simp add: demo_ops_def inserts_at_def deletes_at_def expandRange_def)

section \<open>Properties\<close>

text \<open>C5: printing a script and parsing the text gives back exactly the edits the script means, with the
  op's script line on each edit, consecutive edit indices and no warning.\<close>

theorem parse_print_script:
  assumes "list_all op_ok ops" "ops \<noteq> []"
  shows "parseHashlineWithWarnings xx (print_script ops) = Inr (script_edits 1 0 ops, [])"
  unfolding parseHashlineWithWarnings_def
  by (simp add: script_lines_print [OF assms] parse_loop_print [OF assms(1)])

theorem parse_print_script_witness:
  "parseHashlineWithWarnings (\<lambda>_. 0) (print_script demo_ops) = Inr (script_edits 1 0 demo_ops, [])"
  by (rule parse_print_script [OF demo_ops_ok])

text \<open>C6: the parser never accepts a line number alone.  Every insert it returns names a line by number
  and identifier, and every deleted line either carries its identifier or lies strictly between two
  lines that the same op deletes with theirs.\<close>

theorem parsed_edits_anchored:
  assumes "parseHashline xx diff = Inr es"
  shows "well_anchored es"
proof -
  from assms obtain ws where "parse_loop xx (script_lines diff) 1 0 = Inr (es, ws)"
    by (auto simp: parseHashline_def parseHashlineWithWarnings_def map_sum_def split: sum.splits)
  then show ?thesis by (rule parse_loop_anchored)
qed

theorem parsed_edits_anchored_witness:
  "parseHashline (\<lambda>_. 0) (print_script demo_ops) = Inr (script_edits 1 0 demo_ops)
   \<and> well_anchored (script_edits 1 0 demo_ops) \<and> length (script_edits 1 0 demo_ops) = 6"
  using parsed_edits_anchored [OF demo_ops_parse] demo_ops_parse demo_ops_length by blast

text \<open>The edits of a script are numbered in order from 0.\<close>

theorem parsed_edit_indices:
  assumes "parseHashline xx diff = Inr es"
  shows "map eindex es = [0..<length es]"
proof -
  from assms obtain ws where "parse_loop xx (script_lines diff) 1 0 = Inr (es, ws)"
    by (auto simp: parseHashline_def parseHashlineWithWarnings_def map_sum_def split: sum.splits)
  from parse_loop_indices [OF this] show ?thesis by simp
qed

theorem parsed_edit_indices_witness:
  "parseHashline (\<lambda>_. 0) (print_script demo_ops) = Inr (script_edits 1 0 demo_ops)
   \<and> map eindex (script_edits 1 0 demo_ops) = [0, 1, 2, 3, 4, 5]"
proof -
  have "[0..<6] = [0, 1, 2, 3, 4, 5::nat]" by (simp add: upt_rec)
  then show ?thesis
    using parsed_edit_indices [OF demo_ops_parse] demo_ops_parse demo_ops_length by simp
qed

end
