(* ===== verification/Hashline_Effects.thy ===== *)
theory Hashline_Effects
  imports Hashline_Apply Hashline_Script
begin

text \<open>
  What a script does to a file, end to end over theories \<open>Hashline_Script\<close> and \<open>Hashline_Apply\<close>:
  which lines survive any script, and the exact text after one replacement, with and without boundary
  repair.
\<close>

section \<open>Lines that survive\<close>

definition inserted_texts :: "hl_edit list \<Rightarrow> jstr list" where
  "inserted_texts es = map etext (filter is_ins es)"

text \<open>The non-empty lines that no edit deletes and whose text no edit inserts, in file order.\<close>

definition spared :: "jstr list \<Rightarrow> hl_edit list \<Rightarrow> nat \<Rightarrow> bool" where
  "spared fl es i \<longleftrightarrow>
     \<not> list_ex (deletes_line i) es \<and> fl ! (i - 1) \<noteq> [] \<and> fl ! (i - 1) \<notin> set (inserted_texts es)"

definition spared_lines :: "jstr list \<Rightarrow> hl_edit list \<Rightarrow> jstr list" where
  "spared_lines fl es = map (\<lambda>i. fl ! (i - 1)) (filter (spared fl es) [1..<Suc (length fl)])"

lemma subseq_concat:
  "(\<And>i. i \<in> set is \<Longrightarrow> subseq (g i) (f i)) \<Longrightarrow> subseq (concat (map g is)) (concat (map f is))"
  by (induction "is") (auto intro: list_emb_append_mono)

lemma map_filter_concat: "map f (filter P xs) = concat (map (\<lambda>x. if P x then [f x] else []) xs)"
  by (induction xs) simp_all

lemma file_line_nth: "1 \<le> i \<Longrightarrow> i \<le> length fl \<Longrightarrow> file_line fl i = fl ! (i - 1)"
  by (simp add: file_line_def)

text \<open>Neither boundary repair nor the rewriting of cursors deletes a spared line.\<close>

lemma spared_not_deleted:
  assumes "edits_exist fl es" "spared fl es i" "1 \<le> i" "i \<le> length fl"
  shows "\<not> list_ex (deletes_line i) (normalized_edits xx fl es opts)"
proof
  assume "list_ex (deletes_line i) (normalized_edits xx fl es opts)"
  then obtain ref e where e: "(ref, e) \<in> set (fst (absorbReplacementBoundaryDuplicates xx es fl opts))"
    "deletes_line i (normalize_edit xx fl e)"
    by (auto simp: normalized_edits_def list_ex_iff)
  then obtain a n j where d: "e = Del a n j" "anc_line a = i" by (cases e) auto
  have "repaired_edit fl es (ref, e)"
    using absorb_repaired [of fl es xx opts] assms(1) e(1) by (auto simp: edits_exist_def list_all_iff)
  then have "e \<in> set es \<or> (\<exists>c j. Ins c (file_line fl i) n j \<in> set es)"
    using d by (auto simp: repaired_edit_def split: option.splits) (metis nth_mem)
  moreover have "Ins c (file_line fl i) n j \<in> set es \<Longrightarrow> fl ! (i - 1) \<in> set (inserted_texts es)" for c j
    using assms(3,4) by (force simp: inserted_texts_def file_line_nth)
  ultimately show False using assms(2) d by (auto simp: spared_def list_ex_iff)
qed

lemma subseq_put_start:
  assumes "subseq xs fl" "[] \<notin> set xs"
  shows "subseq xs (put_start ls fl)"
proof (cases "ls \<noteq> [] \<and> fl = [[]]")
  case True
  then have "xs = []" using assms by (cases xs) (auto elim: list_emb.cases)
  then show ?thesis by simp
qed (use assms in \<open>auto simp: put_start_def\<close>)

lemma subseq_put_end:
  assumes "subseq xs fl" "[] \<notin> set xs"
  shows "subseq xs (put_end ls fl)"
proof -
  have "fl = [[]] \<Longrightarrow> xs = []" using assms by (cases xs) (auto elim: list_emb.cases)
  moreover have "subseq fl (butlast fl @ ls @ [[]])" if "fl \<noteq> []" "last fl = []"
    using that by (metis append_butlast_last_id list_emb_append_mono list_emb_append2 subseq_order.order_refl)
  ultimately show ?thesis
    using assms(1) by (auto simp: put_end_def intro: subseq_order.order_trans)
qed

lemma spared_lines_survive:
  assumes "edits_exist fl es"
  shows "subseq (spared_lines fl es) (edited fl (normalized_edits xx fl es opts))"
proof -
  let ?es = "normalized_edits xx fl es opts"
  have "subseq (if spared fl es i then [fl ! (i - 1)] else []) (line_image fl ?es i)" if "i \<in> set [1..<Suc (length fl)]" for i
    using spared_not_deleted [OF assms, of i xx opts] that by (auto simp: line_image_def)
  then have "subseq (spared_lines fl es) (edited_body fl ?es)"
    unfolding spared_lines_def edited_body_def map_filter_concat by (rule subseq_concat)
  moreover have "[] \<notin> set (spared_lines fl es)" by (auto simp: spared_lines_def spared_def)
  ultimately show ?thesis unfolding edited_def by (intro subseq_put_end subseq_put_start)
qed

section \<open>One replacement\<close>

text \<open>Edits that insert \<open>ps\<close> before line \<open>at\<close> and delete the lines \<open>lo\<close> to \<open>hi\<close> around it.\<close>

lemma edited_body_block:
  assumes "1 \<le> lo" "lo \<le> at" "at \<le> hi" "hi \<le> length fl"
    and ins: "\<And>i. map etext (filter (before_line i) es) = (if i = at then ps else [])"
    and del: "\<And>i. list_ex (deletes_line i) es \<longleftrightarrow> lo \<le> i \<and> i \<le> hi"
  shows "edited_body fl es = take (lo - 1) fl @ ps @ drop hi fl"
proof -
  have img: "line_image fl es i = (if i = at then ps else []) @ (if lo \<le> i \<and> i \<le> hi then [] else [fl ! (i - 1)])" for i
    unfolding line_image_def ins del by simp
  have "edited_body fl es = take (lo - 1) fl @ concat (map (line_image fl es) [lo..<Suc (length fl)])"
    using assms(1-4) by (intro edited_body_split) (auto simp: img)
  moreover have "[lo..<Suc (length fl)] = [lo..<at] @ at # [Suc at..<Suc hi] @ [Suc hi..<Suc (length fl)]"
    using assms(2-4) upt_add_eq_append [of lo at "Suc (length fl) - at"]
      upt_add_eq_append [of "Suc at" "Suc hi" "length fl - hi"]
    by (simp add: upt_conv_Cons del: upt_Suc)
  moreover have "concat (map (line_image fl es) [lo..<at]) = []" "concat (map (line_image fl es) [Suc at..<Suc hi]) = []"
    using assms(2,3) by (auto simp: img)
  moreover have "map (line_image fl es) [Suc hi..<Suc (length fl)] = map (\<lambda>i. [fl ! (i - 1)]) [Suc hi..<Suc (length fl)]"
    using assms(2,3) by (intro map_cong) (auto simp: img)
  then have "concat (map (line_image fl es) [Suc hi..<Suc (length fl)]) = drop hi fl" by (simp only: concat_singles)
  moreover have "line_image fl es at = ps" using assms(2,3) by (simp add: img)
  ultimately show ?thesis by (simp del: upt_Suc)
qed

definition op_group :: "nat \<Rightarrow> anchor \<Rightarrow> anchor \<Rightarrow> jstr list \<Rightarrow> replacement_group" where
  "op_group n a b ps =
     \<lparr>rg_startIndex = 0, rg_endIndex = length ps + length (expandRange (a, b)) - 1, rg_sourceLineNum = n,
      rg_replacement = ps, rg_deletes = expandRange (a, b)\<rparr>"

lemma inserts_at_props:
  "length (inserts_at c n i ps) = length ps"
  "map etext (inserts_at c n i ps) = ps"
  "e \<in> set (inserts_at c n i ps) \<Longrightarrow> \<exists>t j. e = Ins c t n j"
  by (auto simp: inserts_at_def o_def map_nth)

lemma deletes_at_props:
  "length (deletes_at n i as) = length as"
  "map eanchor (deletes_at n i as) = as"
  "e \<in> set (deletes_at n i as) \<Longrightarrow> \<exists>a \<in> set as. \<exists>j. e = Del a n j"
  by (auto simp: deletes_at_def o_def map_nth)

lemma op_group_lines:
  assumes "anc_line a \<le> anc_line b"
  shows "rg_startLine (op_group n a b ps) = anc_line a" "rg_endLine (op_group n a b ps) = anc_line b"
    "expandRange (a, b) \<noteq> []"
proof -
  have len: "length (expandRange (a, b)) = Suc (anc_line b) - anc_line a" by (rule expandRange_length)
  with assms show ne: "expandRange (a, b) \<noteq> []" by auto
  show "rg_startLine (op_group n a b ps) = anc_line a" "rg_endLine (op_group n a b ps) = anc_line b"
    using assms ne len by (auto simp: rg_startLine_def rg_endLine_def op_group_def hd_conv_nth last_conv_nth expandRange_nth)
qed

lemma findReplacementGroup_op:
  assumes "anc_line a \<le> anc_line b" "ps \<noteq> []"
  shows "findReplacementGroup (op_edits n idx (Replace_op a b ps)) 0 = Some (op_group n a b ps)"
proof -
  let ?I = "inserts_at (Before_Anchor a) n idx ps" and ?D = "deletes_at n (idx + length ps) (expandRange (a, b))"
  have get: "arr_get (?I @ ?D) 0 = Some (Ins (Before_Anchor a) (ps ! 0) n idx)"
    using assms(2) by (simp add: arr_get_def nth_append inserts_at_def)
  have ne: "?D \<noteq> []" using op_group_lines(3) [OF assms(1)] by (simp add: deletes_at_def)
  then obtain a' j where d: "hd ?D = Del a' n j" using deletes_at_props(3) [OF hd_in_set [OF ne]] by blast
  have "before_insert_of n e" if "e \<in> set ?I" for e using inserts_at_props(3) [OF that] by auto
  then have "takeWhile (before_insert_of n) (?I @ ?D) = ?I @ takeWhile (before_insert_of n) ?D"
    by (rule takeWhile_append2)
  moreover have "takeWhile (before_insert_of n) ?D = []" using d by (cases ?D) auto
  ultimately have 1: "takeWhile (before_insert_of n) (?I @ ?D) = ?I" by simp
  have "delete_of n e" if "e \<in> set ?D" for e using deletes_at_props(3) [OF that] by auto
  then have 2: "takeWhile (delete_of n) ?D = ?D" by simp
  have 3: "list_all (\<lambda>k. anc_line (expandRange (a, b) ! k) = anc_line (expandRange (a, b) ! 0) + k)
      [0..<length (expandRange (a, b))]"
    by (auto simp: list_all_iff expandRange_nth expandRange_length)
  have 4: "anc_line a = anc_line (expandRange (a, b) ! 0)" using assms(1) by (simp add: expandRange_nth)
  have 5: "drop (length ps) (?I @ ?D) = ?D" by (simp add: inserts_at_props)
  show ?thesis
    unfolding op_edits.simps findReplacementGroup_def get option.case hl_edit.case cursor.case Let_def drop_0 1
      inserts_at_props add_0 5 2 deletes_at_props
    by (simp only: ne 3 4 op_group_def simp_thms if_False add_0)
qed

lemma target_lines:
  "l \<in> set (collectAnchorTargetLines es) \<longleftrightarrow> (\<exists>e \<in> set es. getAnchorTargetLine e = Some l)"
proof -
  have "l \<in> set (fold (\<lambda>e ls. case getAnchorTargetLine e of None \<Rightarrow> ls | Some l \<Rightarrow> set_add l ls) es ls) \<longleftrightarrow>
    l \<in> set ls \<or> (\<exists>e \<in> set es. getAnchorTargetLine e = Some l)" for ls
    by (induction es arbitrary: ls) (auto split: option.splits)
  then show ?thesis by (simp add: collectAnchorTargetLines_def)
qed

lemma expandRange_lines: "a' \<in> set (expandRange (a, b)) \<Longrightarrow> anc_line a \<le> anc_line a' \<and> anc_line a' \<le> anc_line b"
  by (auto simp: expandRange_def)

lemma op_targets:
  assumes "anc_line a \<le> anc_line b"
    and "l \<in> set (collectAnchorTargetLines (op_edits n idx (Replace_op a b ps)))"
  shows "anc_line a \<le> l \<and> l \<le> anc_line b"
proof -
  from assms(2) obtain e where "getAnchorTargetLine e = Some l"
    "e \<in> set (inserts_at (Before_Anchor a) n idx ps) \<or> e \<in> set (deletes_at n (idx + length ps) (expandRange (a, b)))"
    by (auto simp: target_lines)
  moreover have "e \<in> set (inserts_at (Before_Anchor a) n idx ps) \<Longrightarrow> getAnchorTargetLine e = Some (anc_line a)"
    using inserts_at_props(3) by fastforce
  moreover have "e \<in> set (deletes_at n (idx + length ps) (expandRange (a, b))) \<Longrightarrow>
      \<exists>a' \<in> set (expandRange (a, b)). getAnchorTargetLine e = Some (anc_line a')"
    using deletes_at_props(3) by fastforce
  ultimately show ?thesis using assms(1) expandRange_lines by auto
qed

text \<open>The lines around one replacement belong to no other op, so the counts are not cut.\<close>

lemma op_safe_counts:
  fixes n idx a b ps
  defines "g \<equiv> op_group n a b ps" and "ts \<equiv> collectAnchorTargetLines (op_edits n idx (Replace_op a b ps))"
  assumes "1 \<le> anc_line a" "anc_line a \<le> anc_line b"
  shows "safe_prefix_count fl ts g = prefix_count fl g" "safe_suffix_count fl ts g = suffix_count fl g"
proof -
  have start: "rg_startLine g = anc_line a" "rg_endLine g = anc_line b" unfolding g_def by (rule op_group_lines [OF assms(4)])+
  have "prefix_count fl g < anc_line a"
    using prefix_count_repeats [of g fl] assms(3) start by (simp add: repeats_above_def)
  then have "l \<notin> set ts" if "l \<in> set (contiguousRange (anc_line a - prefix_count fl g) (prefix_count fl g))" for l
    using op_targets [OF assms(4), of l n idx ps] that by (auto simp: ts_def contiguousRange_iff)
  then show "safe_prefix_count fl ts g = prefix_count fl g"
    by (auto simp: safe_prefix_count_def Let_def hasExternalTargets_def list_ex_iff start)
  have "l \<notin> set ts" if "l \<in> set (contiguousRange (anc_line b + 1) (suffix_count fl g))" for l
    using op_targets [OF assms(4), of l n idx ps] that by (auto simp: ts_def contiguousRange_iff)
  then show "safe_suffix_count fl ts g = suffix_count fl g"
    by (auto simp: safe_suffix_count_def Let_def hasExternalTargets_def list_ex_iff start)
qed

lemma absorb_deletes_only:
  assumes "list_all (\<lambda>e. \<not> is_ins e) es"
  shows "fst (absorbReplacementBoundaryDuplicates xx es fl opts) = own_edits es 0 (length es - 1) \<or> es = []"
proof -
  let ?st = "absorb_loop xx fl opts (collectAnchorTargetLines es) es 0
    \<lparr>ab_absorbed = [], ab_next = length es, ab_warnings = [], ab_keys = []\<rparr>"
  have "(\<lambda>i st. ab_absorbed st = map (\<lambda>i. (Some i, es ! i)) [0..<i]) (length es) ?st"
  proof (rule absorb_loop_invariant)
    fix i j st st'
    assume inv: "ab_absorbed st = map (\<lambda>i. (Some i, es ! i)) [0..<i]" and i: "i < length es"
      and step: "absorb_step xx fl opts (collectAnchorTargetLines es) es i st = (j, st')"
    from assms i obtain a n k where "es ! i = Del a n k" by (cases "es ! i") (auto simp: list_all_length)
    then have "findReplacementGroup es i = None" "findPureInsertGroup es i = None"
      using i by (simp_all add: findReplacementGroup_def findPureInsertGroup_def)
    with step inv show "ab_absorbed st' = map (\<lambda>i. (Some i, es ! i)) [0..<Suc j]"
      by (auto simp: absorb_step_def push_edits_def)
  qed simp_all
  then show ?thesis
    by (cases es) (auto simp: absorbReplacementBoundaryDuplicates_def Let_def own_edits_def)
qed

text \<open>The deletions that widen a replacement.\<close>

definition widening :: "(jstr \<Rightarrow> nat) \<Rightarrow> jstr list \<Rightarrow> nat \<Rightarrow> nat \<Rightarrow> nat list \<Rightarrow> hl_edit list" where
  "widening xx fl n i ls = map (\<lambda>k. deleteEditForAutoAbsorbedLine xx (ls ! k) n (i + k) fl) [0..<length ls]"

lemma widening_props:
  "filter (before_line i) (widening xx fl n j ls) = []"
  "list_ex (deletes_line i) (widening xx fl n j ls) \<longleftrightarrow> i \<in> set ls"
  "filter is_bof_insert (widening xx fl n j ls) = []" "filter is_eof_insert (widening xx fl n j ls) = []"
  by (auto simp: widening_def deleteEditForAutoAbsorbedLine_def filter_empty_conv list_ex_iff in_set_conv_nth)

lemma own_edits_all: "es \<noteq> [] \<Longrightarrow> map (\<lambda>(ref, e). f e) (own_edits es 0 (length es - Suc 0)) = map f es"
  by (simp add: own_edits_def o_def) (metis (no_types) map_nth map_map comp_def map_eq_conv)

lemma normalize_op_edits:
  "map (normalize_edit xx fl) (op_edits n idx (Replace_op a b ps)) = op_edits n idx (Replace_op a b ps)"
  by (auto simp: inserts_at_def deletes_at_def normalize_cursor_def)

lemma own_op_edits:
  fixes n idx a b ps
  defines "es \<equiv> op_edits n idx (Replace_op a b ps)"
  assumes "es \<noteq> []"
  shows "map (\<lambda>(ref, e). normalize_edit xx fl e) (own_edits es 0 (length es - Suc 0)) = es"
  using own_edits_all [OF assms(2), of "normalize_edit xx fl"] normalize_op_edits [of xx fl n idx a b ps]
  by (simp add: es_def)

lemma normalize_widening: "map (normalize_edit xx fl) (widening xx' fl' n i ls) = widening xx' fl' n i ls"
  by (simp add: widening_def deleteEditForAutoAbsorbedLine_def)

lemma prefix_count_Nil: "rg_replacement g = [] \<Longrightarrow> prefix_count fl g = 0"
  and suffix_count_Nil: "rg_replacement g = [] \<Longrightarrow> suffix_count fl g = 0"
  by (simp_all add: prefix_count_def suffix_count_def first_nonzero_def countMatchingPrefixBlock_def
      countMatchingSuffixBlock_def countMatchingSingleStructuralPrefixBoundary_def
      countMatchingSingleStructuralSuffixBoundary_def)

lemma normalized_op_edits:
  fixes n idx a b ps fl
  defines "g \<equiv> op_group n a b ps" and "es \<equiv> op_edits n idx (Replace_op a b ps)"
  assumes "1 \<le> anc_line a" "anc_line a \<le> anc_line b"
  shows "\<exists>i j. normalized_edits xx fl es opts =
    widening xx fl n i (contiguousRange (anc_line a - prefix_count fl g) (prefix_count fl g))
    @ es @ widening xx fl n j (contiguousRange (anc_line b + 1) (suffix_count fl g))"
proof (cases "ps = []")
  case True
  then have "rg_replacement g = []" by (simp add: g_def op_group_def)
  moreover have "es \<noteq> []" "list_all (\<lambda>e. \<not> is_ins e) es"
    using True op_group_lines(3) [OF assms(4)] deletes_at_props(3) [of _ n idx "expandRange (a, b)"]
    by (auto simp: es_def deletes_at_def list_all_iff inserts_at_def)
  moreover from this have "fst (absorbReplacementBoundaryDuplicates xx es fl opts) = own_edits es 0 (length es - 1)"
    using absorb_deletes_only by blast
  ultimately show ?thesis
    by (simp add: normalized_edits_def own_op_edits [of n idx a b ps, folded es_def] prefix_count_Nil suffix_count_Nil widening_def contiguousRange_def)
next
  case False
  let ?ts = "collectAnchorTargetLines es"
  let ?st = "\<lparr>ab_absorbed = [], ab_next = length es, ab_warnings = [], ab_keys = []\<rparr> :: absorb_state"
  have ne: "es \<noteq> []" "length es = Suc (rg_endIndex g)"
    using False op_group_lines(3) [OF assms(4)]
    by (auto simp: es_def g_def op_group_def inserts_at_props deletes_at_props length_greater_0_conv [symmetric]
        simp del: length_greater_0_conv)
  have "absorb_step xx fl opts ?ts es 0 ?st = (rg_endIndex g, absorb_replacement xx fl ?ts es g ?st)"
    using findReplacementGroup_op [OF assms(4) False, of n idx] by (simp add: absorb_step_def es_def g_def)
  then have "absorb_loop xx fl opts ?ts es 0 ?st = absorb_replacement xx fl ?ts es g ?st"
    using ne by (simp add: absorb_loop.simps [of xx fl opts ?ts es 0] absorb_loop.simps [of xx fl opts ?ts es "Suc _"])
  moreover have "rg_startIndex g = 0" "rg_endIndex g = length es - 1" "rg_sourceLineNum g = n"
    "rg_startLine g = anc_line a" "rg_endLine g = anc_line b"
    "safe_prefix_count fl ?ts g = prefix_count fl g" "safe_suffix_count fl ?ts g = suffix_count fl g"
    using ne op_group_lines(1,2) [OF assms(4)] op_safe_counts [OF assms(3,4)]
    by (simp_all add: g_def es_def) (simp_all add: op_group_def)
  ultimately have "\<exists>i j. fst (absorbReplacementBoundaryDuplicates xx es fl opts) =
      map (Pair None) (widening xx fl n i (contiguousRange (anc_line a - prefix_count fl g) (prefix_count fl g)))
      @ own_edits es 0 (length es - 1)
      @ map (Pair None) (widening xx fl n j (contiguousRange (anc_line b + 1) (suffix_count fl g)))"
    by (simp add: absorbReplacementBoundaryDuplicates_def Let_def absorb_replacement_def push_fresh_def push_edits_def
        widening_def o_def) blast
  then show ?thesis
    using normalize_widening own_op_edits [of n idx a b ps, folded es_def, OF ne(1)] by (auto simp: normalized_edits_def o_def) blast
qed

lemma set_contiguousRange: "set (contiguousRange a n) = {a..<a + n}"
  by (simp add: contiguousRange_def add.commute)

lemma op_edits_image:
  assumes "anc_line a \<le> anc_line b"
  shows "map etext (filter (before_line i) (op_edits n idx (Replace_op a b ps))) = (if i = anc_line a then ps else [])"
    and "list_ex (deletes_line i) (op_edits n idx (Replace_op a b ps)) \<longleftrightarrow> anc_line a \<le> i \<and> i \<le> anc_line b"
    and "filter is_bof_insert (op_edits n idx (Replace_op a b ps)) = []"
    and "filter is_eof_insert (op_edits n idx (Replace_op a b ps)) = []"
proof -
  let ?I = "inserts_at (Before_Anchor a) n idx ps" and ?D = "deletes_at n (idx + length ps) (expandRange (a, b))"
  have I: "filter (before_line i) ?I = (if i = anc_line a then ?I else [])" "\<not> list_ex (deletes_line i) ?I"
    "filter is_bof_insert ?I = []" "filter is_eof_insert ?I = []"
    by (auto simp: inserts_at_def filter_empty_conv list_ex_iff)
  have D: "filter (before_line i) ?D = []" "filter is_bof_insert ?D = []" "filter is_eof_insert ?D = []"
    "list_ex (deletes_line i) ?D \<longleftrightarrow> (\<exists>k < length (expandRange (a, b)). anc_line (expandRange (a, b) ! k) = i)"
    by (auto simp: deletes_at_def filter_empty_conv list_ex_iff)
  have "(\<exists>k < length (expandRange (a, b)). anc_line (expandRange (a, b) ! k) = i) \<longleftrightarrow>
      (\<exists>k < Suc (anc_line b) - anc_line a. anc_line a + k = i)"
    by (auto simp: expandRange_length expandRange_nth)
  also have "\<dots> \<longleftrightarrow> anc_line a \<le> i \<and> i \<le> anc_line b" by presburger
  finally show "list_ex (deletes_line i) (op_edits n idx (Replace_op a b ps)) \<longleftrightarrow> anc_line a \<le> i \<and> i \<le> anc_line b"
    using I D(4) by simp
  show "map etext (filter (before_line i) (op_edits n idx (Replace_op a b ps))) = (if i = anc_line a then ps else [])"
    using I D by (simp add: inserts_at_props)
  show "filter is_bof_insert (op_edits n idx (Replace_op a b ps)) = []"
    "filter is_eof_insert (op_edits n idx (Replace_op a b ps)) = []"
    using I D by simp_all
qed

lemma edited_op:
  fixes n a b ps fl
  defines "g \<equiv> op_group n a b ps"
  assumes "1 \<le> anc_line a" "anc_line a \<le> anc_line b" "anc_line b \<le> length fl"
  shows "edited fl (normalized_edits xx fl (op_edits n idx (Replace_op a b ps)) opts)
    = take (anc_line a - 1 - prefix_count fl g) fl @ ps @ drop (anc_line b + suffix_count fl g) fl"
proof -
  let ?p = "prefix_count fl g" and ?s = "suffix_count fl g" and ?es = "op_edits n idx (Replace_op a b ps)"
  obtain i j where n: "normalized_edits xx fl ?es opts =
      widening xx fl n i (contiguousRange (anc_line a - ?p) ?p) @ ?es
      @ widening xx fl n j (contiguousRange (anc_line b + 1) ?s)"
    using normalized_op_edits [OF assms(2,3)] unfolding g_def by blast
  have p: "?p < anc_line a"
    using prefix_count_repeats [of g fl] assms(2) op_group_lines(1) [OF assms(3)] by (simp add: repeats_above_def g_def)
  have s: "?s \<le> length fl - anc_line b"
    using suffix_count_repeats [of fl g] op_group_lines(2) [OF assms(3)] by (simp add: repeats_below_def g_def)
  have "edited fl (normalized_edits xx fl ?es opts) = edited_body fl (normalized_edits xx fl ?es opts)"
    by (simp add: edited_def n widening_props op_edits_image(3,4) [OF assms(3)] put_end_def del: op_edits.simps)
  also have "\<dots> = take (anc_line a - ?p - 1) fl @ ps @ drop (anc_line b + ?s) fl"
  proof (rule edited_body_block)
    show "map etext (filter (before_line i) (normalized_edits xx fl ?es opts)) = (if i = anc_line a then ps else [])" for i
      by (simp add: n widening_props op_edits_image(1) [OF assms(3)] del: op_edits.simps)
    show "list_ex (deletes_line i) (normalized_edits xx fl ?es opts) \<longleftrightarrow> anc_line a - ?p \<le> i \<and> i \<le> anc_line b + ?s" for i
      using p assms(3)
      by (auto simp: n widening_props op_edits_image(2) [OF assms(3)] set_contiguousRange simp del: op_edits.simps)
  qed (use p s assms in auto)
  finally show ?thesis by (simp add: diff_right_commute)
qed

text \<open>When the repeated lines do not overlap in the payload, widening only drops the repetition.\<close>

lemma absorbed_lines_kept:
  assumes "repeats_above fl (anc_line a) ps p" "repeats_below fl (anc_line b) ps s" "p + s \<le> length ps"
    "anc_line a \<le> anc_line b" "anc_line b \<le> length fl"
  shows "take (anc_line a - 1 - p) fl @ ps @ drop (anc_line b + s) fl
    = take (anc_line a - 1) fl @ slice p (length ps - s) ps @ drop (anc_line b) fl"
proof -
  have "take p ps = take p (drop (anc_line a - 1 - p) fl)"
    using assms by (intro nth_equalityI) (auto simp: repeats_above_def arr_get_eq_Some add.commute)
  then have 1: "take (anc_line a - 1 - p) fl @ take p ps = take (anc_line a - 1) fl"
    using assms(1) by (simp add: repeats_above_def flip: take_add)
  have "drop (length ps - s) ps = take s (drop (anc_line b) fl)"
    using assms by (intro nth_equalityI) (auto simp: repeats_below_def arr_get_eq_Some)
  then have 2: "drop (length ps - s) ps @ drop (anc_line b + s) fl = drop (anc_line b) fl"
    using append_take_drop_id [of s "drop (anc_line b) fl"] by (simp add: add.commute)
  have "ps = take p ps @ slice p (length ps - s) ps @ drop (length ps - s) ps"
    using assms(3) append_take_drop_id [of "length ps - s - p" "drop p ps"] by (simp add: slice_def)
  then show ?thesis using 1 2 by (metis append.assoc)
qed

lemma apply_fresh_edits:
  assumes "es \<noteq> []" "edits_exist (split_on 10 content) es"
    "list_all (anchor_fresh xx (split_on 10 content)) (concat (map getHashlineEditAnchors es))"
  obtains r es' where "applyHashlineEdits xx content es opts = Inr (r, es')"
    "ar_lines r = join_with [10] (edited (split_on 10 content) (normalized_edits xx (split_on 10 content) es opts))"
proof -
  have "stale_anchors xx (split_on 10 content) (concat (map getHashlineEditAnchors es)) = []"
    using assms(3) by (auto simp: stale_anchors_def list_all_iff filter_empty_conv)
  from applyHashlineEdits_cases(3) [OF assms(1,2) this, of opts] that show ?thesis by auto
qed

lemma op_edits_ok:
  assumes "1 \<le> anc_line a" "anc_line a \<le> anc_line b" "anc_line b \<le> length fl"
    "anchor_fresh xx fl a" "anchor_fresh xx fl b"
  shows "op_edits n idx (Replace_op a b ps) \<noteq> []" "edits_exist fl (op_edits n idx (Replace_op a b ps))"
    "list_all (anchor_fresh xx fl) (concat (map getHashlineEditAnchors (op_edits n idx (Replace_op a b ps))))"
proof -
  let ?I = "inserts_at (Before_Anchor a) n idx ps" and ?D = "deletes_at n (idx + length ps) (expandRange (a, b))"
  show "op_edits n idx (Replace_op a b ps) \<noteq> []"
    using op_group_lines(3) [OF assms(2)] by (simp add: deletes_at_def)
  have range: "anc_line a \<le> anc_line c \<and> anc_line c \<le> anc_line b \<and> anchor_fresh xx fl c" if "c \<in> set (expandRange (a, b))" for c
    using expandRange_lines [OF that] that assms(4,5) by (auto simp: expandRange_def anchor_fresh_def split: if_splits)
  have I: "getHashlineEditAnchors e = [a]" if "e \<in> set ?I" for e using inserts_at_props(3) [OF that] by auto
  have D: "\<exists>c \<in> set (expandRange (a, b)). getHashlineEditAnchors e = [c]" if "e \<in> set ?D" for e
    using deletes_at_props(3) [OF that] by auto
  have ok: "c \<in> set (getHashlineEditAnchors e) \<Longrightarrow> 1 \<le> anc_line c \<and> anc_line c \<le> length fl \<and> anchor_fresh xx fl c"
    if "e \<in> set (?I @ ?D)" for e c
    using that I [of e] D [of e] range [of c] assms by auto
  then show "edits_exist fl (op_edits n idx (Replace_op a b ps))"
    "list_all (anchor_fresh xx fl) (concat (map getHashlineEditAnchors (op_edits n idx (Replace_op a b ps))))"
    unfolding edits_exist_def lines_exist_def list_all_iff op_edits.simps set_concat set_map by blast+
qed

section \<open>Properties\<close>

text \<open>C3: no script loses text silently.  Every non-empty line that no edit of the script deletes, and
  whose text the script does not itself insert, is still in the file, in the same order, whatever
  boundary repair and the bottom-up splicing did.\<close>

theorem untouched_lines_survive:
  assumes "es \<noteq> []" "edits_exist (split_on 10 content) es"
    "list_all (anchor_fresh xx (split_on 10 content)) (concat (map getHashlineEditAnchors es))"
  shows "\<exists>r es' out. applyHashlineEdits xx content es opts = Inr (r, es') \<and> ar_lines r = join_with [10] out \<and>
    subseq (spared_lines (split_on 10 content) es) out"
  using apply_fresh_edits [OF assms, of opts] spared_lines_survive [OF assms(2), of xx opts] by metis

theorem untouched_lines_survive_witness:
  "\<exists>r es' out. applyHashlineEdits (\<lambda>_. 0) demo_text demo_edits \<lparr>autoDropPureInsertDuplicates = False\<rparr> = Inr (r, es') \<and>
     ar_lines r = join_with [10] out \<and> subseq [js ''ab'', js ''ef''] out"
proof -
  have "spared_lines (split_on 10 demo_text) demo_edits = [js ''ab'', js ''ef'']"
    by (simp add: demo_lines demo_edits_def spared_lines_def spared_def inserted_texts_def upt_rec js_eval)
  with untouched_lines_survive [OF demo_edits_ok, of "\<lparr>autoDropPureInsertDuplicates = False\<rparr>"] show ?thesis by simp
qed

text \<open>C4: a replacement of lines \<open>a\<close> to \<open>b\<close> by a payload gives exactly the file with those lines
  replaced.  If the payload starts with \<open>p\<close> lines that repeat the lines above and ends with \<open>s\<close> lines
  that repeat the lines below, and the two do not overlap, the repetition is dropped from the payload and
  nothing around the range is lost.\<close>

theorem replacement_effect:
  fixes n a b ps content
  defines "p \<equiv> prefix_count (split_on 10 content) (op_group n a b ps)"
    and "s \<equiv> suffix_count (split_on 10 content) (op_group n a b ps)"
  assumes "1 \<le> anc_line a" "anc_line a \<le> anc_line b" "anc_line b \<le> length (split_on 10 content)"
    "anchor_fresh xx (split_on 10 content) a" "anchor_fresh xx (split_on 10 content) b" "p + s \<le> length ps"
  shows "\<exists>r es'. applyHashlineEdits xx content (op_edits n idx (Replace_op a b ps)) opts = Inr (r, es') \<and>
    ar_lines r = join_with [10] (take (anc_line a - 1) (split_on 10 content)
      @ slice p (length ps - s) ps @ drop (anc_line b) (split_on 10 content))"
proof -
  have "repeats_above (split_on 10 content) (anc_line a) ps p" "repeats_below (split_on 10 content) (anc_line b) ps s"
    using prefix_count_repeats [of "op_group n a b ps" "split_on 10 content"]
      suffix_count_repeats [of "split_on 10 content" "op_group n a b ps"] assms(3) op_group_lines(1,2) [OF assms(4), of n ps]
    by (simp_all add: p_def s_def) (simp_all add: op_group_def)
  note absorbed_lines_kept [OF this assms(8,4,5)]
  moreover note edited_op [OF assms(3-5), of xx n idx ps opts]
  ultimately show ?thesis
    using apply_fresh_edits [OF op_edits_ok [OF assms(3-7), of n idx ps], of opts] unfolding p_def s_def by metis
qed

definition demo_anchor :: anchor where
  "demo_anchor = \<lparr>anc_line = 2, anc_hash = computeLineHash (\<lambda>_. 0) 2 (js ''cd'')\<rparr>"

lemma demo_counts:
  "prefix_count (split_on 10 demo_text) (op_group 1 demo_anchor demo_anchor [js ''x'', js ''y'']) = 0"
  "suffix_count (split_on 10 demo_text) (op_group 1 demo_anchor demo_anchor [js ''x'', js ''y'']) = 0"
  by (simp_all add: demo_lines prefix_count_def suffix_count_def first_nonzero_def countMatchingPrefixBlock_def
      countMatchingSuffixBlock_def countMatchingSingleStructuralPrefixBoundary_def
      countMatchingSingleStructuralSuffixBoundary_def rg_startLine_def rg_endLine_def op_group_def expandRange_def
      demo_anchor_def js_eval)

theorem replacement_effect_witness:
  "\<exists>r es'. applyHashlineEdits (\<lambda>_. 0) demo_text (op_edits 1 0 (Replace_op demo_anchor demo_anchor [js ''x'', js ''y'']))
      \<lparr>autoDropPureInsertDuplicates = False\<rparr> = Inr (r, es') \<and>
    ar_lines r = join_with [10] [js ''ab'', js ''x'', js ''y'', js ''ef'']"
proof -
  have "1 \<le> anc_line demo_anchor" "anc_line demo_anchor \<le> anc_line demo_anchor" "anc_line demo_anchor \<le> length (split_on 10 demo_text)"
    "anchor_fresh (\<lambda>_. 0) (split_on 10 demo_text) demo_anchor" "anchor_fresh (\<lambda>_. 0) (split_on 10 demo_text) demo_anchor"
    by (simp_all add: demo_anchor_def demo_lines anchor_fresh_def file_line_def)
  from replacement_effect [OF this, of 1 "[js ''x'', js ''y'']" 0 "\<lparr>autoDropPureInsertDuplicates = False\<rparr>"]
  show ?thesis unfolding demo_counts by (simp add: demo_lines demo_anchor_def slice_def)
qed

text \<open>C31: a flaw of boundary repair.  A payload that repeats both the lines above and the lines
  below is counted twice: replacing the middle line of \<open>a b x a b\<close> by \<open>a b\<close> deletes all five lines and
  leaves the two of the payload.\<close>

theorem absorb_overlap_loses_lines:
  "\<exists>r es'. applyHashlineEdits xx (join_with [10] [js ''a'', js ''b'', js ''x'', js ''a'', js ''b''])
      (op_edits 1 0 (Replace_op \<lparr>anc_line = 3, anc_hash = computeLineHash xx 3 (js ''x'')\<rparr>
         \<lparr>anc_line = 3, anc_hash = computeLineHash xx 3 (js ''x'')\<rparr> [js ''a'', js ''b''])) opts = Inr (r, es') \<and>
    ar_lines r = join_with [10] [js ''a'', js ''b'']"
proof -
  let ?fl = "[js ''a'', js ''b'', js ''x'', js ''a'', js ''b'']" and ?ps = "[js ''a'', js ''b'']"
  let ?a = "\<lparr>anc_line = 3, anc_hash = computeLineHash xx 3 (js ''x'')\<rparr>"
  have fl: "split_on 10 (join_with [10] ?fl) = ?fl" by (simp add: js_eval)
  have a: "1 \<le> anc_line ?a" "anc_line ?a \<le> anc_line ?a" "anc_line ?a \<le> length ?fl" "anchor_fresh xx ?fl ?a"
    by (simp_all add: anchor_fresh_def file_line_def)
  have "prefix_count ?fl (op_group 1 ?a ?a ?ps) = 2" "suffix_count ?fl (op_group 1 ?a ?a ?ps) = 2"
    by (simp_all add: prefix_count_def suffix_count_def first_nonzero_def countMatchingPrefixBlock_def
        countMatchingSuffixBlock_def rg_startLine_def rg_endLine_def op_group_def expandRange_def numeral_eq_Suc)
  then have ed: "edited ?fl (normalized_edits xx ?fl (op_edits 1 0 (Replace_op ?a ?a ?ps)) opts) = ?ps"
    using edited_op [OF a(1-3), of xx 1 0 ?ps opts] by (simp del: op_edits.simps)
  show ?thesis
    using apply_fresh_edits [of "op_edits 1 0 (Replace_op ?a ?a ?ps)" "join_with [10] ?fl" xx opts, unfolded fl ed,
        OF op_edits_ok [OF a a(4)]] by blast
qed

end
