(* ===== verification/File_Read_Cache.thy ===== *)
theory File_Read_Cache
  imports Js_Prelude "HOL-Library.AList"
begin

text \<open>
  The per-session cache of file contents shown to the model (\<open>edit/file-read-cache.ts\<close>).  The
  \<open>lru-cache\<close> package is a parameter (\<open>lru_ops\<close>) with its documented laws as \<open>lru_laws\<close>.  The cache stores
  arrays of references to snapshot objects, and recording compatible lines mutates the newest object in
  place, so the snapshots live in an explicit heap and the cached arrays hold their addresses.
\<close>

definition MAX_GENERATIONS_PER_PATH :: nat where "MAX_GENERATIONS_PER_PATH = 8"

record snapshot =
  sn_lines :: "(nat \<times> jstr) list"
  sn_lineCount :: "nat option"
  sn_recordedAt :: nat

text \<open>What the cache uses of \<open>LRUCache\<close>: \<open>get\<close> also updates recency, hence the new store.\<close>

record 's lru_ops =
  lru_get :: "'s \<Rightarrow> jstr \<Rightarrow> nat list option \<times> 's"
  lru_set :: "'s \<Rightarrow> jstr \<Rightarrow> nat list \<Rightarrow> 's"
  lru_delete :: "'s \<Rightarrow> jstr \<Rightarrow> 's"
  lru_clear :: "'s \<Rightarrow> 's"

definition lru_val :: "'s lru_ops \<Rightarrow> 's \<Rightarrow> jstr \<Rightarrow> nat list option" where
  "lru_val ops s k = fst (lru_get ops s k)"

text \<open>Documented behaviour: a set key is present; setting one key may evict others but never changes
  them; reading changes no value.\<close>

definition lru_laws :: "'s lru_ops \<Rightarrow> bool" where
  "lru_laws ops \<longleftrightarrow>
     (\<forall>s k j. lru_val ops (snd (lru_get ops s k)) j = lru_val ops s j) \<and>
     (\<forall>s k v. lru_val ops (lru_set ops s k v) k = Some v) \<and>
     (\<forall>s k v j. j \<noteq> k \<longrightarrow> lru_val ops (lru_set ops s k v) j \<in> {lru_val ops s j, None}) \<and>
     (\<forall>s k. lru_val ops (lru_delete ops s k) k = None) \<and>
     (\<forall>s k j. j \<noteq> k \<longrightarrow> lru_val ops (lru_delete ops s k) j = lru_val ops s j) \<and>
     (\<forall>s j. lru_val ops (lru_clear ops s) j = None)"

record 's file_read_cache =
  fc_store :: 's
  fc_heap :: "snapshot list"

section \<open>Operations\<close>

definition hasConflict :: "snapshot \<Rightarrow> (nat \<times> jstr) list \<Rightarrow> nat option \<Rightarrow> bool" where
  "hasConflict existing incoming incomingLineCount \<longleftrightarrow>
     list_ex (\<lambda>(n, content).
        (case map_of (sn_lines existing) n of None \<Rightarrow> False | Some prior \<Rightarrow> prior \<noteq> content) \<or>
        (case sn_lineCount existing of None \<Rightarrow> False | Some c \<Rightarrow> n > c)) incoming \<or>
     (case incomingLineCount of
        None \<Rightarrow> False
      | Some c \<Rightarrow>
          (case sn_lineCount existing of None \<Rightarrow> False | Some c' \<Rightarrow> c' \<noteq> c) \<or>
          list_ex (\<lambda>(n, _). n > c) (sn_lines existing))"

text \<open>\<open>map.set\<close> for each entry in turn; \<open>new Map(entries)\<close> starts from the empty map.\<close>

definition set_all :: "(nat \<times> jstr) list \<Rightarrow> (nat \<times> jstr) list \<Rightarrow> (nat \<times> jstr) list" where
  "set_all entries m = foldl (\<lambda>m (n, content). AList.update n content m) m entries"

definition fc_get :: "'s lru_ops \<Rightarrow> 's file_read_cache \<Rightarrow> jstr \<Rightarrow> snapshot option \<times> 's file_read_cache" where
  "fc_get ops c path =
     (case lru_get ops (fc_store c) path of (r, s) \<Rightarrow>
        (case r of Some (a # _) \<Rightarrow> Some (fc_heap c ! a) | _ \<Rightarrow> None, c\<lparr>fc_store := s\<rparr>))"

definition generations :: "'s lru_ops \<Rightarrow> 's file_read_cache \<Rightarrow> jstr \<Rightarrow> snapshot list \<times> 's file_read_cache" where
  "generations ops c path =
     (case lru_get ops (fc_store c) path of (r, s) \<Rightarrow>
        (case r of None \<Rightarrow> [] | Some as \<Rightarrow> map (\<lambda>a. fc_heap c ! a) as, c\<lparr>fc_store := s\<rparr>))"

definition record_entries ::
  "'s lru_ops \<Rightarrow> nat \<Rightarrow> 's file_read_cache \<Rightarrow> jstr \<Rightarrow> (nat \<times> jstr) list \<Rightarrow> nat option \<Rightarrow> 's file_read_cache" where
  "record_entries ops now c path entries lineCount =
     (case lru_get ops (fc_store c) path of (r, s) \<Rightarrow>
        let gens = (case r of None \<Rightarrow> [] | Some as \<Rightarrow> as);
            fresh = \<lparr>sn_lines = set_all entries [], sn_lineCount = lineCount, sn_recordedAt = now\<rparr>;
            start = c\<lparr>fc_heap := fc_heap c @ [fresh],
                      fc_store := lru_set ops s path (take MAX_GENERATIONS_PER_PATH (length (fc_heap c) # gens))\<rparr>
        in case gens of
             [] \<Rightarrow> start
           | a # _ \<Rightarrow>
               (let newest = fc_heap c ! a
                in if hasConflict newest entries lineCount then start
                   else c\<lparr>fc_store := s,
                          fc_heap := (fc_heap c)[a :=
                            newest\<lparr>sn_lines := set_all entries (sn_lines newest),
                                   sn_lineCount := (case lineCount of None \<Rightarrow> sn_lineCount newest | Some n \<Rightarrow> Some n),
                                   sn_recordedAt := now\<rparr>]\<rparr>))"

definition recordContiguous ::
  "'s lru_ops \<Rightarrow> nat \<Rightarrow> 's file_read_cache \<Rightarrow> jstr \<Rightarrow> nat \<Rightarrow> jstr list \<Rightarrow> 's file_read_cache" where
  "recordContiguous ops now c path startLine ls =
     (if ls = [] then c
      else record_entries ops now c path (map (\<lambda>idx. (startLine + idx, ls ! idx)) [0..<length ls]) None)"

definition recordFull :: "'s lru_ops \<Rightarrow> nat \<Rightarrow> 's file_read_cache \<Rightarrow> jstr \<Rightarrow> jstr list \<Rightarrow> 's file_read_cache" where
  "recordFull ops now c path ls =
     record_entries ops now c path (map (\<lambda>idx. (idx + 1, ls ! idx)) [0..<length ls]) (Some (length ls))"

definition recordSparse ::
  "'s lru_ops \<Rightarrow> nat \<Rightarrow> 's file_read_cache \<Rightarrow> jstr \<Rightarrow> (nat \<times> jstr) list \<Rightarrow> 's file_read_cache" where
  "recordSparse ops now c path entries =
     (if entries = [] then c else record_entries ops now c path entries None)"

definition invalidate :: "'s lru_ops \<Rightarrow> 's file_read_cache \<Rightarrow> jstr \<Rightarrow> 's file_read_cache" where
  "invalidate ops c path = c\<lparr>fc_store := lru_delete ops (fc_store c) path\<rparr>"

definition clear_cache :: "'s lru_ops \<Rightarrow> 's file_read_cache \<Rightarrow> 's file_read_cache" where
  "clear_cache ops c = c\<lparr>fc_store := lru_clear ops (fc_store c)\<rparr>"

text \<open>The calls a session makes.\<close>

datatype cache_call =
    Get_call jstr
  | Generations_call jstr
  | Contiguous_call nat jstr nat "jstr list"
  | Full_call nat jstr "jstr list"
  | Sparse_call nat jstr "(nat \<times> jstr) list"
  | Invalidate_call jstr
  | Clear_call

fun cache_step :: "'s lru_ops \<Rightarrow> 's file_read_cache \<Rightarrow> cache_call \<Rightarrow> 's file_read_cache" where
  "cache_step ops c (Get_call p) = snd (fc_get ops c p)"
| "cache_step ops c (Generations_call p) = snd (generations ops c p)"
| "cache_step ops c (Contiguous_call now p n ls) = recordContiguous ops now c p n ls"
| "cache_step ops c (Full_call now p ls) = recordFull ops now c p ls"
| "cache_step ops c (Sparse_call now p es) = recordSparse ops now c p es"
| "cache_step ops c (Invalidate_call p) = invalidate ops c p"
| "cache_step ops c Clear_call = clear_cache ops c"

section \<open>Invariant\<close>

definition snapshot_ok :: "snapshot \<Rightarrow> bool" where
  "snapshot_ok sn \<longleftrightarrow>
     distinct (map fst (sn_lines sn)) \<and>
     (case sn_lineCount sn of None \<Rightarrow> True | Some c \<Rightarrow> list_all (\<lambda>(n, _). n \<le> c) (sn_lines sn))"

text \<open>Every cached array is non-empty, holds at most 8 distinct live addresses, and no two paths share a
  snapshot; a snapshot of a whole file has no line past its end.\<close>

definition cache_inv :: "'s lru_ops \<Rightarrow> 's file_read_cache \<Rightarrow> bool" where
  "cache_inv ops c \<longleftrightarrow>
     (\<forall>p as. lru_val ops (fc_store c) p = Some as \<longrightarrow>
        as \<noteq> [] \<and> length as \<le> MAX_GENERATIONS_PER_PATH \<and> distinct as \<and> set as \<subseteq> {..<length (fc_heap c)}) \<and>
     (\<forall>p q as bs. p \<noteq> q \<longrightarrow> lru_val ops (fc_store c) p = Some as \<longrightarrow> lru_val ops (fc_store c) q = Some bs \<longrightarrow>
        set as \<inter> set bs = {}) \<and>
     list_all snapshot_ok (fc_heap c)"

lemma lru_laws_simps:
  assumes "lru_laws ops"
  shows "lru_val ops (snd (lru_get ops s k)) j = lru_val ops s j"
    "lru_val ops (lru_set ops s k v) k = Some v"
    "lru_val ops (lru_delete ops s k) j = (if j = k then None else lru_val ops s j)"
    "lru_val ops (lru_clear ops s) j = None"
  using assms by (auto simp: lru_laws_def)

lemma lru_set_other:
  assumes "lru_laws ops" "j \<noteq> k" "lru_val ops (lru_set ops s k v) j = Some as"
  shows "lru_val ops s j = Some as"
  using assms unfolding lru_laws_def by (metis empty_iff insert_iff option.distinct(1))

text \<open>A store whose values are among those of the old one keeps the invariant.\<close>

lemma cache_inv_sub:
  assumes "cache_inv ops c" "\<And>p as. lru_val ops s p = Some as \<Longrightarrow> lru_val ops (fc_store c) p = Some as"
  shows "cache_inv ops (c\<lparr>fc_store := s\<rparr>)"
  using assms unfolding cache_inv_def by simp blast

lemma set_all_distinct: "distinct (map fst m) \<Longrightarrow> distinct (map fst (set_all es m))"
  unfolding set_all_def by (induction es arbitrary: m) (auto simp: distinct_update)

lemma set_all_keys: "fst ` set (set_all es m) = fst ` set m \<union> fst ` set es"
  unfolding set_all_def
proof (induction es arbitrary: m)
  case (Cons e es)
  then show ?case by (cases e) (auto simp: dom_update [unfolded set_map])
qed simp

lemma set_all_map_of: "map_of (set_all es m) n = (case map_of (rev es) n of Some x \<Rightarrow> Some x | None \<Rightarrow> map_of m n)"
  unfolding set_all_def
proof (induction es arbitrary: m)
  case (Cons e es)
  then show ?case by (cases e) (auto simp: update_conv' map_add_def map_of_append split: option.splits)
qed simp

text \<open>The entries a call records never lie past the line count that comes with them.\<close>

definition entries_ok :: "(nat \<times> jstr) list \<Rightarrow> nat option \<Rightarrow> bool" where
  "entries_ok entries lineCount \<longleftrightarrow> (\<forall>c. lineCount = Some c \<longrightarrow> list_all (\<lambda>(n, _). n \<le> c) entries)"

lemma list_all_keys: "list_all (\<lambda>(n, _). n \<le> c) xs \<longleftrightarrow> (\<forall>n \<in> fst ` set xs. n \<le> c)"
  by (auto simp: list_all_iff)

lemma merged_ok:
  assumes "snapshot_ok sn" "entries_ok entries lc" "\<not> hasConflict sn entries lc"
  shows "snapshot_ok (sn\<lparr>sn_lines := set_all entries (sn_lines sn),
     sn_lineCount := (case lc of None \<Rightarrow> sn_lineCount sn | Some n \<Rightarrow> Some n), sn_recordedAt := now\<rparr>)"
proof -
  have "n \<le> c" if "n \<in> fst ` set (sn_lines sn) \<union> fst ` set entries"
    "(case lc of None \<Rightarrow> sn_lineCount sn | Some n \<Rightarrow> Some n) = Some c" for n c
    using assms that
    by (cases lc; cases "sn_lineCount sn")
      (fastforce simp: snapshot_ok_def entries_ok_def hasConflict_def list_all_iff list_ex_iff)+
  then show ?thesis
    using assms(1)
    by (auto simp: snapshot_ok_def set_all_distinct list_all_keys set_all_keys split: option.splits)
qed

lemma fresh_ok: "entries_ok entries lc \<Longrightarrow> snapshot_ok \<lparr>sn_lines = set_all entries [], sn_lineCount = lc, sn_recordedAt = now\<rparr>"
  by (auto simp: snapshot_ok_def set_all_distinct list_all_keys set_all_keys entries_ok_def split: option.splits)

definition gens_of :: "'s lru_ops \<Rightarrow> 's file_read_cache \<Rightarrow> jstr \<Rightarrow> nat list" where
  "gens_of ops c p = (case lru_val ops (fc_store c) p of None \<Rightarrow> [] | Some as \<Rightarrow> as)"

definition merged_snapshot :: "nat \<Rightarrow> (nat \<times> jstr) list \<Rightarrow> nat option \<Rightarrow> snapshot \<Rightarrow> snapshot" where
  "merged_snapshot now entries lc sn =
     sn\<lparr>sn_lines := set_all entries (sn_lines sn),
        sn_lineCount := (case lc of None \<Rightarrow> sn_lineCount sn | Some n \<Rightarrow> Some n), sn_recordedAt := now\<rparr>"

lemma record_entries_unfold:
  "record_entries ops now c p entries lc =
     (if gens_of ops c p = [] \<or> hasConflict (fc_heap c ! hd (gens_of ops c p)) entries lc
      then c\<lparr>fc_heap := fc_heap c @ [\<lparr>sn_lines = set_all entries [], sn_lineCount = lc, sn_recordedAt = now\<rparr>],
             fc_store := lru_set ops (snd (lru_get ops (fc_store c) p)) p
               (take MAX_GENERATIONS_PER_PATH (length (fc_heap c) # gens_of ops c p))\<rparr>
      else c\<lparr>fc_store := snd (lru_get ops (fc_store c) p),
             fc_heap := (fc_heap c)[hd (gens_of ops c p) :=
               merged_snapshot now entries lc (fc_heap c ! hd (gens_of ops c p))]\<rparr>)"
  by (auto simp: record_entries_def gens_of_def lru_val_def merged_snapshot_def Let_def case_prod_unfold
      split: option.splits list.splits)

lemma cache_inv_heap:
  assumes "cache_inv ops c" "list_all snapshot_ok h" "length (fc_heap c) \<le> length h"
  shows "cache_inv ops (c\<lparr>fc_heap := h\<rparr>)"
  using assms unfolding cache_inv_def by simp (meson lessThan_subset_iff order_trans)

lemma cache_invD:
  assumes "cache_inv ops c" "lru_val ops (fc_store c) p = Some as"
  shows "as \<noteq> []" "length as \<le> MAX_GENERATIONS_PER_PATH" "distinct as" "set as \<subseteq> {..<length (fc_heap c)}"
    and "\<And>q bs. p \<noteq> q \<Longrightarrow> lru_val ops (fc_store c) q = Some bs \<Longrightarrow> set as \<inter> set bs = {}"
  using assms unfolding cache_inv_def by blast+

lemma gens_of_inv:
  assumes "cache_inv ops c"
  shows "length (gens_of ops c p) \<le> MAX_GENERATIONS_PER_PATH" "distinct (gens_of ops c p)"
    "set (gens_of ops c p) \<subseteq> {..<length (fc_heap c)}"
  by (cases "lru_val ops (fc_store c) p"; simp add: gens_of_def cache_invD(2-4) [OF assms])+

lemma start_generation_inv:
  assumes laws: "lru_laws ops" and inv: "cache_inv ops c" and sn: "snapshot_ok sn"
  shows "cache_inv ops (c\<lparr>fc_heap := fc_heap c @ [sn],
    fc_store := lru_set ops (snd (lru_get ops (fc_store c) p)) p
      (take MAX_GENERATIONS_PER_PATH (length (fc_heap c) # gens_of ops c p))\<rparr>)" (is "cache_inv ops ?c")
proof -
  let ?as = "take MAX_GENERATIONS_PER_PATH (length (fc_heap c) # gens_of ops c p)"
  have p: "lru_val ops (fc_store ?c) p = Some ?as" by (simp add: lru_laws_simps [OF laws])
  have other: "lru_val ops (fc_store c) q = Some bs" if "lru_val ops (fc_store ?c) q = Some bs" "q \<noteq> p" for q bs
  proof -
    have "lru_val ops (snd (lru_get ops (fc_store c) p)) q = Some bs"
      by (rule lru_set_other [OF laws that(2)]) (use that(1) in simp)
    then show ?thesis by (simp add: lru_laws_simps(1) [OF laws])
  qed
  have sub: "set ?as \<subseteq> insert (length (fc_heap c)) (set (gens_of ops c p))" by (auto dest: in_set_takeD)
  have as: "?as \<noteq> []" "length ?as \<le> MAX_GENERATIONS_PER_PATH" "distinct ?as" "set ?as \<subseteq> {..<length (fc_heap ?c)}"
  proof -
    have new: "length (fc_heap c) \<notin> set (gens_of ops c p)" using gens_of_inv(3) [OF inv, of p] by auto
    then show "distinct ?as" using gens_of_inv(2) [OF inv, of p] by (intro distinct_take) simp
    show "?as \<noteq> []" "length ?as \<le> MAX_GENERATIONS_PER_PATH" by (simp_all add: MAX_GENERATIONS_PER_PATH_def)
    show "set ?as \<subseteq> {..<length (fc_heap ?c)}" using sub gens_of_inv(3) [OF inv, of p] by fastforce
  qed
  have disj: "set ?as \<inter> set bs = {}" if "lru_val ops (fc_store ?c) q = Some bs" "q \<noteq> p" for q bs
  proof -
    have q: "lru_val ops (fc_store c) q = Some bs" by (rule other [OF that])
    then have "length (fc_heap c) \<notin> set bs" using cache_invD(4) [OF inv q] by auto
    moreover have "set (gens_of ops c p) \<inter> set bs = {}"
      using cache_invD(5) [OF inv _ _ q] that(2) by (cases "lru_val ops (fc_store c) p") (auto simp: gens_of_def)
    ultimately show ?thesis using sub by blast
  qed
  show ?thesis
    unfolding cache_inv_def
  proof (intro conjI allI impI)
    fix q bs assume q: "lru_val ops (fc_store ?c) q = Some bs"
    have "bs \<noteq> [] \<and> length bs \<le> MAX_GENERATIONS_PER_PATH \<and> distinct bs \<and> set bs \<subseteq> {..<length (fc_heap ?c)}"
    proof (cases "q = p")
      case True then show ?thesis using as q p by simp
    next
      case False
      then show ?thesis using cache_invD(1-4) [OF inv other [OF q]] by fastforce
    qed
    then show "bs \<noteq> []" "length bs \<le> MAX_GENERATIONS_PER_PATH" "distinct bs" "set bs \<subseteq> {..<length (fc_heap ?c)}" by auto
  next
    fix q r as bs
    assume "q \<noteq> r" and q: "lru_val ops (fc_store ?c) q = Some as" and r: "lru_val ops (fc_store ?c) r = Some bs"
    then show "set as \<inter> set bs = {}"
    proof (cases "q = p \<or> r = p")
      case True
      then show ?thesis using \<open>q \<noteq> r\<close> disj [OF q] disj [OF r] p q r by auto
    next
      case False
      then show ?thesis using cache_invD(5) [OF inv other [OF q] \<open>q \<noteq> r\<close> other [OF r]] by blast
    qed
  next
    show "list_all snapshot_ok (fc_heap ?c)" using inv sn by (simp add: cache_inv_def)
  qed
qed

lemma record_entries_inv:
  assumes laws: "lru_laws ops" and inv: "cache_inv ops c" and ok: "entries_ok entries lc"
  shows "cache_inv ops (record_entries ops now c p entries lc)"
proof (cases "gens_of ops c p = [] \<or> hasConflict (fc_heap c ! hd (gens_of ops c p)) entries lc")
  case True
  then show ?thesis
    using start_generation_inv [OF laws inv fresh_ok [OF ok, of now], of p] by (simp add: record_entries_unfold)
next
  case False
  let ?a = "hd (gens_of ops c p)"
  have "?a < length (fc_heap c)" using False gens_of_inv(3) [OF inv, of p] by (cases "gens_of ops c p") auto
  then have "snapshot_ok (fc_heap c ! ?a)" using inv by (simp add: cache_inv_def list_all_length)
  then have "snapshot_ok (merged_snapshot now entries lc (fc_heap c ! ?a))"
    using False merged_ok ok by (simp add: merged_snapshot_def)
  then have heap: "list_all snapshot_ok ((fc_heap c)[?a := merged_snapshot now entries lc (fc_heap c ! ?a)])"
    using inv set_update_subset_insert [of "fc_heap c" ?a] by (fastforce simp: cache_inv_def list_all_iff)
  have "cache_inv ops (c\<lparr>fc_store := snd (lru_get ops (fc_store c) p)\<rparr>)"
    by (rule cache_inv_sub [OF inv]) (simp add: lru_laws_simps(1) [OF laws])
  from cache_inv_heap [OF this heap]
  have "cache_inv ops (c\<lparr>fc_store := snd (lru_get ops (fc_store c) p),
      fc_heap := (fc_heap c)[?a := merged_snapshot now entries lc (fc_heap c ! ?a)]\<rparr>)" by simp
  with False show ?thesis by (simp add: record_entries_unfold)
qed

lemma upt_entries_ok: "entries_ok (map (\<lambda>idx. (idx + 1, ls ! idx)) [0..<length ls]) (Some (length ls))"
  by (auto simp: entries_ok_def list_all_iff)

lemma cache_step_inv:
  assumes "lru_laws ops" "cache_inv ops c"
  shows "cache_inv ops (cache_step ops c call)"
proof -
  have sub: "cache_inv ops (c\<lparr>fc_store := s\<rparr>)" if "\<And>p as. lru_val ops s p = Some as \<Longrightarrow> lru_val ops (fc_store c) p = Some as" for s
    by (rule cache_inv_sub [OF assms(2) that])
  have rec: "cache_inv ops (record_entries ops now c p entries lc)" if "entries_ok entries lc" for now p entries lc
    by (rule record_entries_inv [OF assms that])
  have none: "entries_ok entries None" for entries by (simp add: entries_ok_def)
  have stores: "cache_inv ops (c\<lparr>fc_store := snd (lru_get ops (fc_store c) p)\<rparr>)"
    "cache_inv ops (c\<lparr>fc_store := lru_delete ops (fc_store c) p\<rparr>)" "cache_inv ops (c\<lparr>fc_store := lru_clear ops (fc_store c)\<rparr>)" for p
    by (rule sub; simp add: lru_laws_simps [OF assms(1)] split: if_splits)+
  show ?thesis
    using stores assms(2) rec [OF none] rec [OF upt_entries_ok]
    by (cases call)
      (auto simp: fc_get_def generations_def case_prod_unfold recordContiguous_def recordFull_def recordSparse_def
        invalidate_def clear_cache_def)
qed

text \<open>Any sequence of calls on a cache keeps the invariant.\<close>

interpretation frc: invariant_object "cache_step ops" "\<lambda>c. lru_laws ops \<and> cache_inv ops c" for ops
  by unfold_locales (simp add: cache_step_inv)

section \<open>What is read back\<close>

definition newest :: "'s lru_ops \<Rightarrow> 's file_read_cache \<Rightarrow> jstr \<Rightarrow> snapshot option" where
  "newest ops c p = fst (fc_get ops c p)"

lemma newest_gens: "newest ops c p = (case gens_of ops c p of [] \<Rightarrow> None | a # _ \<Rightarrow> Some (fc_heap c ! a))"
  by (auto simp: newest_def fc_get_def gens_of_def lru_val_def case_prod_unfold split: option.splits list.splits)

lemma generations_gens: "fst (generations ops c p) = map (\<lambda>a. fc_heap c ! a) (gens_of ops c p)"
  by (auto simp: generations_def gens_of_def lru_val_def case_prod_unfold split: option.splits)

text \<open>After recording, the newest snapshot of the path holds the recorded lines.\<close>

lemma record_entries_newest:
  assumes laws: "lru_laws ops" and inv: "cache_inv ops c"
  obtains sn where "newest ops (record_entries ops now c p entries lc) p = Some sn"
    "\<And>n x. map_of (rev entries) n = Some x \<Longrightarrow> map_of (sn_lines sn) n = Some x"
    "lc \<noteq> None \<Longrightarrow> sn_lineCount sn = lc"
proof (cases "gens_of ops c p = [] \<or> hasConflict (fc_heap c ! hd (gens_of ops c p)) entries lc")
  case True
  let ?sn = "\<lparr>sn_lines = set_all entries [], sn_lineCount = lc, sn_recordedAt = now\<rparr>"
  have "newest ops (record_entries ops now c p entries lc) p = Some ?sn"
    using True by (simp add: record_entries_unfold newest_gens gens_of_def lru_laws_simps(2) [OF laws] MAX_GENERATIONS_PER_PATH_def)
  then show ?thesis by (rule that) (auto simp: set_all_map_of split: option.splits)
next
  case False
  obtain a as where as: "gens_of ops c p = a # as" using False by (cases "gens_of ops c p") auto
  let ?sn = "merged_snapshot now entries lc (fc_heap c ! a)"
  have "a < length (fc_heap c)" using as gens_of_inv(3) [OF inv, of p] by simp
  moreover have "gens_of ops (record_entries ops now c p entries lc) p = a # as"
    using False by (simp add: record_entries_unfold gens_of_def [of ops "c\<lparr>fc_store := _, fc_heap := _\<rparr>"]
        lru_laws_simps(1) [OF laws]) (simp add: as flip: gens_of_def)
  moreover have "fc_heap (record_entries ops now c p entries lc) = (fc_heap c)[a := ?sn]"
    using False as by (simp add: record_entries_unfold)
  ultimately have "newest ops (record_entries ops now c p entries lc) p = Some ?sn"
    by (simp add: newest_gens)
  then show ?thesis by (rule that) (auto simp: set_all_map_of merged_snapshot_def split: option.splits)
qed

text \<open>Recording under one path leaves the snapshots of every other path as they are, unless the store
  evicts that path.\<close>

lemma record_entries_other:
  assumes laws: "lru_laws ops" and inv: "cache_inv ops c" and "q \<noteq> p"
  shows "fst (generations ops (record_entries ops now c p entries lc) q) \<in> {fst (generations ops c q), []}"
proof -
  let ?c = "record_entries ops now c p entries lc"
  have q: "gens_of ops ?c q = gens_of ops c q \<or> gens_of ops ?c q = []"
  proof -
    have "lru_val ops (lru_set ops (snd (lru_get ops (fc_store c) p)) p v) q \<in> {lru_val ops (fc_store c) q, None}" for v
      using laws \<open>q \<noteq> p\<close> lru_laws_simps(1) [OF laws, of "fc_store c" p q] unfolding lru_laws_def by metis
    then have "lru_val ops (fc_store ?c) q \<in> {lru_val ops (fc_store c) q, None}"
      by (simp add: record_entries_unfold lru_laws_simps(1) [OF laws])
    then show ?thesis by (auto simp: gens_of_def)
  qed
  have "fc_heap ?c ! a = fc_heap c ! a" if "a \<in> set (gens_of ops c q)" for a
  proof (cases "gens_of ops c p = [] \<or> hasConflict (fc_heap c ! hd (gens_of ops c p)) entries lc")
    case True
    then show ?thesis using that gens_of_inv(3) [OF inv, of q] by (auto simp: record_entries_unfold nth_append)
  next
    case False
    then obtain b bs where b: "gens_of ops c p = b # bs" by (cases "gens_of ops c p") auto
    then have "lru_val ops (fc_store c) p = Some (b # bs)" by (simp add: gens_of_def split: option.splits)
    moreover from that obtain as where "lru_val ops (fc_store c) q = Some as" "a \<in> set as"
      by (cases "lru_val ops (fc_store c) q") (auto simp: gens_of_def)
    ultimately have "a \<noteq> b" using cache_invD(5) [OF inv, of p "b # bs" q as] \<open>q \<noteq> p\<close> by auto
    then show ?thesis using False b by (simp add: record_entries_unfold)
  qed
  then have "map (\<lambda>a. fc_heap ?c ! a) (gens_of ops c q) = map (\<lambda>a. fc_heap c ! a) (gens_of ops c q)" by simp
  with q show ?thesis by (auto simp: generations_gens)
qed

section \<open>A least-recently-used store\<close>

text \<open>A concrete store with the documented behaviour: most recent key first, 30 keys kept.\<close>

definition MAX_PATHS_PER_SESSION :: nat where "MAX_PATHS_PER_SESSION = 30"

definition mru_ops :: "(jstr \<times> nat list) list lru_ops" where
  "mru_ops =
     \<lparr>lru_get = (\<lambda>s k. case map_of s k of
          None \<Rightarrow> (None, s)
        | Some v \<Rightarrow> (Some v, (k, v) # filter (\<lambda>(j, _). j \<noteq> k) s)),
      lru_set = (\<lambda>s k v. take MAX_PATHS_PER_SESSION ((k, v) # filter (\<lambda>(j, _). j \<noteq> k) s)),
      lru_delete = (\<lambda>s k. filter (\<lambda>(j, _). j \<noteq> k) s),
      lru_clear = (\<lambda>s. [])\<rparr>"

lemma map_of_take: "map_of (take n xs) j = map_of xs j \<or> map_of (take n xs) j = None"
proof (induction xs arbitrary: n)
  case (Cons x xs)
  then show ?case by (cases n) auto
qed simp

lemma map_of_filter_key: "map_of (filter (\<lambda>(j, _). j \<noteq> k) s) j = (if j = k then None else map_of s j)"
  by (induction s) auto

lemma mru_laws: "lru_laws mru_ops"
proof -
  have v: "lru_val mru_ops s k = map_of s k" for s k
    by (simp add: lru_val_def mru_ops_def split: option.splits)
  have "map_of (take MAX_PATHS_PER_SESSION ((k, x) # filter (\<lambda>(j, _). j \<noteq> k) s)) j \<in> {map_of s j, None}" if "j \<noteq> k" for k x s j
    using map_of_take [of MAX_PATHS_PER_SESSION "(k, x) # filter (\<lambda>(j, _). j \<noteq> k) s" j] that
    by (auto simp: map_of_filter_key)
  moreover have "map_of (snd (lru_get mru_ops s k)) j = map_of s j" for s k j
    by (auto simp: mru_ops_def map_of_filter_key split: option.splits)
  moreover have "map_of (take MAX_PATHS_PER_SESSION ((k, x) # xs)) k = Some x" for k :: jstr and x :: "nat list" and xs
    by (simp add: MAX_PATHS_PER_SESSION_def)
  moreover have ops: "lru_set mru_ops s k x = take MAX_PATHS_PER_SESSION ((k, x) # filter (\<lambda>(j, _). j \<noteq> k) s)"
    "lru_delete mru_ops s k = filter (\<lambda>(j, _). j \<noteq> k) s" "lru_clear mru_ops s = []" for s k x
    by (simp_all add: mru_ops_def)
  ultimately show ?thesis
    unfolding lru_laws_def v ops map_of_filter_key by (intro conjI allI impI) simp_all
qed

section \<open>Properties\<close>

text \<open>C11: after any sequence of calls on a new cache, every path has at most 8 generations, all of them
  live and none shared with another path, and no snapshot of a whole file has a line past its end.\<close>

theorem cache_runs_invariant:
  assumes "lru_laws ops" "\<And>p. lru_val ops s p = None"
  shows "cache_inv ops (foldl (cache_step ops) \<lparr>fc_store = s, fc_heap = []\<rparr> calls)"
  using frc.run_inv [of ops "\<lparr>fc_store = s, fc_heap = []\<rparr>" calls] assms by (simp add: cache_inv_def)

theorem cache_runs_invariant_witness:
  "cache_inv mru_ops (foldl (cache_step mru_ops) \<lparr>fc_store = [], fc_heap = []\<rparr>
     [Full_call 1 (js ''a'') [js ''x''], Full_call 2 (js ''a'') [js ''y''], Get_call (js ''a'')])"
  by (rule cache_runs_invariant [OF mru_laws]) (simp add: lru_val_def mru_ops_def)

text \<open>Recording the whole content of a file makes the newest snapshot of its path exactly that
  content, with its line count and no line past the end, whether it extends the previous snapshot or starts
  a new generation; the snapshots of every other path are untouched unless the store evicts that path.\<close>

theorem recordFull_read_back:
  assumes "lru_laws ops" "cache_inv ops c"
  shows "(\<exists>sn. newest ops (recordFull ops now c p ls) p = Some sn \<and> sn_lineCount sn = Some (length ls) \<and>
      (\<forall>i < length ls. map_of (sn_lines sn) (i + 1) = Some (ls ! i)) \<and>
      (\<forall>n x. map_of (sn_lines sn) n = Some x \<longrightarrow> n \<le> length ls)) \<and>
    (\<forall>q. q \<noteq> p \<longrightarrow>
      fst (generations ops (recordFull ops now c p ls) q) \<in> {fst (generations ops c q), []})"
proof -
  let ?es = "map (\<lambda>idx. (idx + 1, ls ! idx)) [0..<length ls]"
  obtain sn where sn: "newest ops (recordFull ops now c p ls) p = Some sn"
    "\<And>n x. map_of (rev ?es) n = Some x \<Longrightarrow> map_of (sn_lines sn) n = Some x"
    "sn_lineCount sn = Some (length ls)"
    using record_entries_newest [OF assms, of now p ?es "Some (length ls)"] unfolding recordFull_def by auto
  have "map_of (rev ?es) (i + 1) = Some (ls ! i)" if "i < length ls" for i
    using that by (intro map_of_is_SomeI) (auto simp: distinct_map inj_on_def rev_map)
  then have 1: "\<forall>i < length ls. map_of (sn_lines sn) (i + 1) = Some (ls ! i)" using sn(2) by blast
  have inv: "cache_inv ops (recordFull ops now c p ls)"
    unfolding recordFull_def by (rule record_entries_inv [OF assms upt_entries_ok])
  from sn(1) obtain a where "a \<in> set (gens_of ops (recordFull ops now c p ls) p)" "sn = fc_heap (recordFull ops now c p ls) ! a"
    by (auto simp: newest_gens split: list.splits)
  then have "snapshot_ok sn"
    using inv gens_of_inv(3) [OF inv, of p] by (auto simp: cache_inv_def list_all_length)
  then have "\<forall>n x. map_of (sn_lines sn) n = Some x \<longrightarrow> n \<le> length ls"
    using sn(3) by (auto simp: snapshot_ok_def list_all_iff dest: map_of_SomeD)
  moreover have "fst (generations ops (recordFull ops now c p ls) q) \<in> {fst (generations ops c q), []}" if "q \<noteq> p" for q
    unfolding recordFull_def by (rule record_entries_other [OF assms that])
  ultimately show ?thesis using sn(1,3) 1 by blast
qed

theorem recordFull_read_back_witness:
  "\<exists>sn. newest mru_ops (recordFull mru_ops 5 \<lparr>fc_store = [], fc_heap = []\<rparr> (js ''a'') [js ''x'', js ''y'']) (js ''a'') = Some sn
     \<and> map_of (sn_lines sn) 2 = Some (js ''y'')"
proof -
  have "cache_inv mru_ops \<lparr>fc_store = [], fc_heap = []\<rparr>" by (simp add: cache_inv_def lru_val_def mru_ops_def)
  from recordFull_read_back [OF mru_laws this, of 5 "js ''a''" "[js ''x'', js ''y'']"]
  obtain sn where sn: "newest mru_ops (recordFull mru_ops 5 \<lparr>fc_store = [], fc_heap = []\<rparr> (js ''a'') [js ''x'', js ''y'']) (js ''a'') = Some sn"
    and all: "\<forall>i < length [js ''x'', js ''y'']. map_of (sn_lines sn) (i + 1) = Some ([js ''x'', js ''y''] ! i)"
    by blast
  from all [rule_format, of 1] have "map_of (sn_lines sn) 2 = Some (js ''y'')" by (simp add: numeral_2_eq_2)
  with sn show ?thesis by blast
qed

end
