(* ===== verification/Hashline_Recovery.thy ===== *)
theory Hashline_Recovery
  imports Hashline_Apply File_Read_Cache
begin

text \<open>
  Recovery from stale anchors (\<open>hashline/recovery.ts\<close>): the edits are replayed on a cached snapshot of
  the file and the change is merged onto the live text.  The diff and patch functions are
  parameters (\<open>diff_ops\<close>): \<open>structuredPatchHunks\<close> of the native bindings, \<open>Diff.applyPatch\<close> of the \<open>diff\<close>
  package and the first changed line of \<open>generateDiffString\<close>.  The edits are the caller's objects, so each
  attempt gets them as the previous attempt left them.
\<close>

record hunk =
  hk_oldStart :: nat
  hk_oldLines :: nat
  hk_newStart :: nat
  hk_newLines :: nat
  hk_lines :: "jstr list"

record diff_ops =
  structuredPatchHunks :: "jstr \<Rightarrow> jstr \<Rightarrow> nat \<Rightarrow> hunk list"
  applyPatch :: "jstr \<Rightarrow> hunk list \<Rightarrow> nat \<Rightarrow> jstr option"
  diffFirstChangedLine :: "jstr \<Rightarrow> jstr \<Rightarrow> nat option"

record recovery_result =
  rr_lines :: jstr
  rr_firstChangedLine :: "nat option"
  rr_warnings :: "jstr list"

definition HASHLINE_RECOVERY_FUZZ_FACTOR :: nat where "HASHLINE_RECOVERY_FUZZ_FACTOR = 0"

definition HASHLINE_RECOVERY_WARNING :: jstr where
  "HASHLINE_RECOVERY_WARNING =
     js ''Recovered from stale anchors using a previous read snapshot (file changed between read and edit).''"

section \<open>Hunks\<close>

text \<open>\<open>line[0]\<close>; a line of a hunk starts with a blank, a minus or a plus.\<close>

fun first_char :: "jstr \<Rightarrow> nat option" where
  "first_char [] = None"
| "first_char (c # _) = Some c"

definition old_side :: "jstr \<Rightarrow> bool" where
  "old_side l \<longleftrightarrow> first_char l = Some 32 \<or> first_char l = Some 45"

definition new_side :: "jstr \<Rightarrow> bool" where
  "new_side l \<longleftrightarrow> first_char l = Some 32 \<or> first_char l = Some 43"

fun old_numbers :: "nat \<Rightarrow> jstr list \<Rightarrow> nat option list" where
  "old_numbers n [] = []"
| "old_numbers n (l # ls) = (if old_side l then Some n # old_numbers (Suc n) ls else None # old_numbers n ls)"

definition covered :: "snapshot \<Rightarrow> nat option \<Rightarrow> bool" where
  "covered sn ln \<longleftrightarrow> (case ln of None \<Rightarrow> False | Some n \<Rightarrow> map_of (sn_lines sn) n \<noteq> None)"

definition uncovered_context :: "snapshot \<Rightarrow> jstr \<times> nat option \<Rightarrow> bool" where
  "uncovered_context sn x \<longleftrightarrow> first_char (fst x) = Some 32 \<and> \<not> covered sn (snd x)"

definition trimHunkToSnapshot :: "hunk \<Rightarrow> snapshot \<Rightarrow> hunk option" where
  "trimHunkToSnapshot h sn =
     (let zs = zip (hk_lines h) (old_numbers (hk_oldStart h) (hk_lines h));
          start = length (takeWhile (uncovered_context sn) zs);
          mid = rev (dropWhile (uncovered_context sn) (rev (drop start zs)));
          lines = map fst mid
      in if list_ex (\<lambda>(l, ln). ln \<noteq> None \<and> \<not> covered sn ln) mid then None
         else Some \<lparr>hk_oldStart = hk_oldStart h + start, hk_oldLines = length (filter old_side lines),
                    hk_newStart = hk_newStart h + start, hk_newLines = length (filter new_side lines),
                    hk_lines = lines\<rparr>)"

definition hunk_old :: "hunk \<Rightarrow> jstr list" where
  "hunk_old h = map tl (filter old_side (hk_lines h))"

definition occurrences :: "jstr list \<Rightarrow> jstr list \<Rightarrow> nat list" where
  "occurrences old ls = filter (\<lambda>start. take (length old) (drop start ls) = old) [0..<Suc (length ls) - length old]"

definition everyHunkLandsUniquely :: "hunk list \<Rightarrow> jstr list \<Rightarrow> bool" where
  "everyHunkLandsUniquely hs ls \<longleftrightarrow>
     list_all (\<lambda>h. hunk_old h \<noteq> [] \<and> length (occurrences (hunk_old h) ls) = 1) hs"

definition collectEditAnchors :: "hl_edit list \<Rightarrow> anchor list" where
  "collectEditAnchors es = concat (map getHashlineEditAnchors es)"

section \<open>Replaying on a snapshot\<close>

definition vouched :: "(jstr \<Rightarrow> nat) \<Rightarrow> snapshot \<Rightarrow> anchor list \<Rightarrow> bool" where
  "vouched xx sn as \<longleftrightarrow>
     list_all (\<lambda>a. case map_of (sn_lines sn) (anc_line a) of
         None \<Rightarrow> False
       | Some cachedLine \<Rightarrow> anc_hash a = RANGE_INTERIOR_HASH \<or> computeLineHash xx (anc_line a) cachedLine = anc_hash a) as"

text \<open>The live text with the snapshot's lines laid over it.  Assigning \<open>overlaid[-1]\<close> sets no line.\<close>

definition overlay :: "snapshot \<Rightarrow> jstr \<Rightarrow> jstr list" where
  "overlay sn currentText =
     (let base = split_on 10 currentText;
          maxCachedLine = foldl (\<lambda>m (n, _). if n > m then n else m) 0 (sn_lines sn);
          padded = base @ replicate (maxCachedLine - length base) [];
          overlaid = foldl (\<lambda>ls (n, content). if n = 0 then ls else ls[n - 1 := content]) padded (sn_lines sn)
      in case sn_lineCount sn of
           None \<Rightarrow> overlaid
         | Some k \<Rightarrow> take k overlaid @ replicate (k - length overlaid) [])"

fun trim_all :: "hunk list \<Rightarrow> snapshot \<Rightarrow> hunk list option" where
  "trim_all [] sn = Some []"
| "trim_all (h # hs) sn =
     (case trimHunkToSnapshot h sn of None \<Rightarrow> None | Some t \<Rightarrow> map_option ((#) t) (trim_all hs sn))"

text \<open>The merge of a replayed change onto the live text; \<open>None\<close> is the \<open>null\<close> of the code.\<close>

definition merge_onto ::
  "diff_ops \<Rightarrow> snapshot \<Rightarrow> jstr \<Rightarrow> jstr \<Rightarrow> apply_result \<Rightarrow> recovery_result option" where
  "merge_onto D sn currentText previousText applied =
     (case trim_all (structuredPatchHunks D previousText (ar_lines applied) 3) sn of
        None \<Rightarrow> None
      | Some hunks \<Rightarrow>
          if \<not> everyHunkLandsUniquely hunks (split_on 10 previousText) then None
          else if \<not> everyHunkLandsUniquely hunks (split_on 10 currentText) then None
          else (case applyPatch D currentText hunks HASHLINE_RECOVERY_FUZZ_FACTOR of
                  None \<Rightarrow> None
                | Some merged \<Rightarrow>
                    if merged = currentText then None
                    else (let first = diffFirstChangedLine D currentText merged
                          in Some \<lparr>rr_lines = merged,
                                   rr_firstChangedLine = (case first of None \<Rightarrow> ar_firstChangedLine applied | Some n \<Rightarrow> Some n),
                                   rr_warnings = (if first \<noteq> None then [HASHLINE_RECOVERY_WARNING] else []) @ ar_warnings applied\<rparr>)))"

definition tryRecoverFromSnapshot ::
  "(jstr \<Rightarrow> nat) \<Rightarrow> diff_ops \<Rightarrow> snapshot \<Rightarrow> anchor list \<Rightarrow> jstr \<Rightarrow> hl_edit list \<Rightarrow> apply_options
     \<Rightarrow> hl_error + (recovery_result option \<times> hl_edit list)" where
  "tryRecoverFromSnapshot xx D sn anchors currentText es opts =
     (if sn_lines sn = [] then Inr (None, es)
      else if \<not> vouched xx sn anchors then Inr (None, es)
      else (let previousText = join_with [10] (overlay sn currentText)
            in if previousText = currentText then Inr (None, es)
               else (case applyHashlineEdits xx previousText es opts of
                       Inl (HashlineMismatchError _ _) \<Rightarrow> Inr (None, es)
                     | Inl e \<Rightarrow> Inl e
                     | Inr (applied, es') \<Rightarrow>
                         if ar_lines applied = previousText then Inr (None, es')
                         else Inr (merge_onto D sn currentText previousText applied, es'))))"

fun try_generations ::
  "(jstr \<Rightarrow> nat) \<Rightarrow> diff_ops \<Rightarrow> snapshot list \<Rightarrow> anchor list \<Rightarrow> jstr \<Rightarrow> hl_edit list \<Rightarrow> apply_options
     \<Rightarrow> hl_error + (recovery_result option \<times> hl_edit list)" where
  "try_generations xx D [] anchors currentText es opts = Inr (None, es)"
| "try_generations xx D (sn # sns) anchors currentText es opts =
     and_then (tryRecoverFromSnapshot xx D sn anchors currentText es opts) (\<lambda>(r, es').
       case r of
         Some recovered \<Rightarrow> Inr (Some recovered, es')
       | None \<Rightarrow> try_generations xx D sns anchors currentText es' opts)"

definition tryRecoverHashlineWithCache ::
  "(jstr \<Rightarrow> nat) \<Rightarrow> diff_ops \<Rightarrow> 's lru_ops \<Rightarrow> 's file_read_cache \<Rightarrow> jstr \<Rightarrow> jstr \<Rightarrow> hl_edit list \<Rightarrow> apply_options
     \<Rightarrow> hl_error + (recovery_result option \<times> hl_edit list)" where
  "tryRecoverHashlineWithCache xx D ops cache absolutePath currentText es opts =
     try_generations xx D (fst (generations ops cache absolutePath)) (collectEditAnchors es) currentText es opts"

section \<open>Trimmed hunks\<close>

lemma old_numbers_length [simp]: "length (old_numbers n ls) = length ls"
  by (induction ls arbitrary: n) auto

lemma old_numbers_drop:
  "list_all old_side (take k ls) \<Longrightarrow> k \<le> length ls \<Longrightarrow> drop k (old_numbers n ls) = old_numbers (n + k) (drop k ls)"
proof (induction k arbitrary: n ls)
  case (Suc k)
  then show ?case by (cases ls) auto
qed simp

lemma old_numbers_take: "take k (old_numbers n ls) = old_numbers n (take k ls)"
proof (induction ls arbitrary: k n)
  case (Cons l ls)
  then show ?case by (cases k) auto
qed simp

lemma dropWhile_rev_take: "\<exists>k \<le> length xs. rev (dropWhile P (rev xs)) = take k xs"
proof -
  obtain ys where "xs = rev (dropWhile P (rev xs)) @ ys"
    by (metis rev_append rev_rev_ident takeWhile_dropWhile_id)
  then show ?thesis by (metis append_eq_conv_conj length_append le_add1)
qed

text \<open>Every old-side line of a trimmed hunk, at the line number it now claims, was seen in the
  snapshot.\<close>

lemma trimHunkToSnapshot_covered:
  assumes "trimHunkToSnapshot h sn = Some h'" "Some n \<in> set (old_numbers (hk_oldStart h') (hk_lines h'))"
  shows "map_of (sn_lines sn) n \<noteq> None"
proof -
  let ?ns = "old_numbers (hk_oldStart h) (hk_lines h)"
  let ?zs = "zip (hk_lines h) ?ns"
  define start where "start = length (takeWhile (uncovered_context sn) ?zs)"
  obtain k where k: "rev (dropWhile (uncovered_context sn) (rev (drop start ?zs))) = take k (drop start ?zs)"
    using dropWhile_rev_take by blast
  from assms(1) have h': "hk_oldStart h' = hk_oldStart h + start" "hk_lines h' = map fst (take k (drop start ?zs))"
    and cov: "\<forall>(l, ln) \<in> set (take k (drop start ?zs)). ln = None \<or> covered sn ln"
    unfolding trimHunkToSnapshot_def Let_def start_def [symmetric] k
    by (auto simp: list_ex_iff split: if_splits)
  have "start \<le> length ?zs" unfolding start_def by (rule length_takeWhile_le)
  then have start: "start \<le> length (hk_lines h)" by simp
  have "list_all old_side (take start (hk_lines h))"
  proof -
    have "take start ?zs = takeWhile (uncovered_context sn) ?zs" by (simp add: start_def takeWhile_eq_take [symmetric])
    then have "\<forall>x \<in> set (take start ?zs). first_char (fst x) = Some 32"
      using set_takeWhileD [of _ "uncovered_context sn" ?zs] by (auto simp: uncovered_context_def)
    moreover have "take start (hk_lines h) = map fst (take start ?zs)"
      using start by (simp add: take_zip)
    ultimately show ?thesis by (auto simp: list_all_iff old_side_def)
  qed
  then have "drop start ?ns = old_numbers (hk_oldStart h + start) (drop start (hk_lines h))"
    using start by (rule old_numbers_drop)
  then have "take k (drop start ?ns) = old_numbers (hk_oldStart h') (take k (drop start (hk_lines h)))"
    by (simp add: old_numbers_take h'(1))
  moreover have "hk_lines h' = take k (drop start (hk_lines h))" "map snd (take k (drop start ?zs)) = take k (drop start ?ns)"
    by (simp_all add: h'(2) take_zip drop_zip)
  ultimately have "Some n \<in> snd ` set (take k (drop start ?zs))"
    using assms(2) by (metis list.set_map)
  with cov show ?thesis by (force simp: covered_def)
qed

lemma trim_all_covered:
  "trim_all hs sn = Some hs' \<Longrightarrow> h' \<in> set hs' \<Longrightarrow> \<exists>h \<in> set hs. trimHunkToSnapshot h sn = Some h'"
  by (induction hs arbitrary: hs') (auto split: option.splits)

section \<open>What a recovery guarantees\<close>

definition safe_merge :: "diff_ops \<Rightarrow> snapshot \<Rightarrow> jstr \<Rightarrow> jstr \<Rightarrow> bool" where
  "safe_merge D sn currentText merged \<longleftrightarrow>
     (\<exists>hunks. applyPatch D currentText hunks HASHLINE_RECOVERY_FUZZ_FACTOR = Some merged \<and> merged \<noteq> currentText \<and>
        everyHunkLandsUniquely hunks (split_on 10 currentText) \<and>
        (\<forall>h \<in> set hunks. \<forall>n. Some n \<in> set (old_numbers (hk_oldStart h) (hk_lines h)) \<longrightarrow> map_of (sn_lines sn) n \<noteq> None))"

lemma merge_onto_safe:
  assumes "merge_onto D sn currentText previousText applied = Some r"
  shows "safe_merge D sn currentText (rr_lines r)"
proof -
  from assms obtain hunks merged where "trim_all (structuredPatchHunks D previousText (ar_lines applied) 3) sn = Some hunks"
    "everyHunkLandsUniquely hunks (split_on 10 currentText)"
    "applyPatch D currentText hunks HASHLINE_RECOVERY_FUZZ_FACTOR = Some merged" "merged \<noteq> currentText" "rr_lines r = merged"
    by (auto simp: merge_onto_def Let_def split: option.splits if_splits)
  moreover from this(1) have "\<forall>h \<in> set hunks. \<forall>n. Some n \<in> set (old_numbers (hk_oldStart h) (hk_lines h)) \<longrightarrow> map_of (sn_lines sn) n \<noteq> None"
    using trim_all_covered trimHunkToSnapshot_covered by blast
  ultimately show ?thesis unfolding safe_merge_def by blast
qed

lemma tryRecoverFromSnapshot_safe:
  assumes "tryRecoverFromSnapshot xx D sn anchors currentText es opts = Inr (Some r, es')"
  shows "vouched xx sn anchors \<and> safe_merge D sn currentText (rr_lines r)"
  using assms merge_onto_safe
  by (auto simp: tryRecoverFromSnapshot_def Let_def split: if_splits sum.splits hl_error.splits)

lemma try_generations_safe:
  "try_generations xx D sns anchors currentText es opts = Inr (Some r, es') \<Longrightarrow>
   \<exists>sn \<in> set sns. vouched xx sn anchors \<and> safe_merge D sn currentText (rr_lines r)"
proof (induction sns arbitrary: es)
  case (Cons sn sns)
  then obtain res es1 where 1: "tryRecoverFromSnapshot xx D sn anchors currentText es opts = Inr (res, es1)"
    by (auto simp: and_then_Inr)
  show ?case
  proof (cases res)
    case None
    with Cons 1 show ?thesis by auto
  next
    case (Some r')
    with Cons.prems 1 have "r' = r" by simp
    with 1 Some tryRecoverFromSnapshot_safe show ?thesis by fastforce
  qed
qed simp

section \<open>A concrete diff and a concrete session\<close>

text \<open>A line diff with three lines of context around one change, and a patch that lands where the old side
  occurs.\<close>

fun common :: "'a list \<Rightarrow> 'a list \<Rightarrow> nat" where
  "common (x # xs) (y # ys) = (if x = y then Suc (common xs ys) else 0)"
| "common _ _ = 0"

definition simple_hunks :: "jstr \<Rightarrow> jstr \<Rightarrow> nat \<Rightarrow> hunk list" where
  "simple_hunks p q context =
     (let pl = split_on 10 p; ql = split_on 10 q;
          pre = common pl ql;
          suf = common (rev (drop pre pl)) (rev (drop pre ql));
          ctx = min context pre;
          old = take (length pl - pre - suf) (drop pre pl);
          new = take (length ql - pre - suf) (drop pre ql)
      in [\<lparr>hk_oldStart = pre - ctx + 1, hk_oldLines = ctx + length old + min context suf,
           hk_newStart = pre - ctx + 1, hk_newLines = ctx + length new + min context suf,
           hk_lines = map ((#) 32) (drop (pre - ctx) (take pre pl)) @ map ((#) 45) old @ map ((#) 43) new
             @ map ((#) 32) (take context (drop (length pl - suf) pl))\<rparr>])"

definition simple_patch :: "jstr \<Rightarrow> hunk list \<Rightarrow> nat \<Rightarrow> jstr option" where
  "simple_patch cur hs fuzz =
     (case hs of
        [h] \<Rightarrow> (case occurrences (hunk_old h) (split_on 10 cur) of
           i # _ \<Rightarrow> Some (join_with [10] (splice i (length (hunk_old h)) (map tl (filter new_side (hk_lines h))) (split_on 10 cur)))
         | [] \<Rightarrow> None)
      | _ \<Rightarrow> None)"

definition simple_diff :: diff_ops where
  "simple_diff = \<lparr>structuredPatchHunks = simple_hunks, applyPatch = simple_patch, diffFirstChangedLine = (\<lambda>p q. Some 1)\<rparr>"

definition letters :: "string list \<Rightarrow> jstr" where
  "letters ws = join_with [10] (map js ws)"

text \<open>The session read a five-line file, then the same file with only its first two lines.\<close>

definition demo_cache :: "(jstr \<times> nat list) list file_read_cache" where
  "demo_cache = recordFull mru_ops 2
     (recordFull mru_ops 1 \<lparr>fc_store = [], fc_heap = []\<rparr> (js ''f'') (map js [''a'', ''b'', ''c'', ''d'', ''e'']))
     (js ''f'') (map js [''a'', ''b''])"

text \<open>Insert a line after line 2, which read \<open>b\<close>.\<close>

definition demo_insert :: "(jstr \<Rightarrow> nat) \<Rightarrow> hl_edit list" where
  "demo_insert xx = [Ins (After_Anchor \<lparr>anc_line = 2, anc_hash = computeLineHash xx 2 (js ''b'')\<rparr>) (js ''n'') 1 0]"

lemma demo_generations:
  "map (\<lambda>sn. (sn_lines sn, sn_lineCount sn)) (fst (generations mru_ops demo_cache (js ''f'')))
   = [([(1, js ''a''), (2, js ''b'')], Some 2),
      ([(1, js ''a''), (2, js ''b''), (3, js ''c''), (4, js ''d''), (5, js ''e'')], Some 5)]"
  by (simp add: demo_cache_def generations_def recordFull_def record_entries_def mru_ops_def Let_def upt_rec
      set_all_def hasConflict_def MAX_PATHS_PER_SESSION_def MAX_GENERATIONS_PER_PATH_def js_eval)

text \<open>One inserted line that closes no bracket goes through boundary repair unchanged.\<close>

lemma absorb_one_insert:
  assumes "\<not> isStructuralClosingBoundaryLine t"
  shows "absorbReplacementBoundaryDuplicates xx [Ins c t n i] fl \<lparr>autoDropPureInsertDuplicates = False\<rparr> = ([(Some 0, Ins c t n i)], [])"
proof -
  have "findReplacementGroup [Ins c t n i] 0 = None"
    by (cases c) (simp_all add: findReplacementGroup_def)
  moreover have "findPureInsertGroup [Ins c t n i] 0 = Some \<lparr>pg_startIndex = 0, pg_endIndex = 0, pg_sourceLineNum = n, pg_cursor = c, pg_payload = [t]\<rparr>"
    by (simp add: findPureInsertGroup_def cursorMatches_eq)
  ultimately show ?thesis
    using assms
    by (simp add: absorbReplacementBoundaryDuplicates_def absorb_loop.simps absorb_step_def absorb_pure_insert_def
        tryAbsorbPureInsertGroup_def absorb_leading_def absorb_trailing_def push_edits_def own_edits_def Let_def
        case_prod_unfold)
qed

lemma apply_one_insert:
  assumes "\<not> isStructuralClosingBoundaryLine t" "edits_exist (split_on 10 content) [Ins c t n i]"
    "list_all (anchor_fresh xx (split_on 10 content)) (getHashlineEditAnchors (Ins c t n i))"
  shows "\<exists>r. applyHashlineEdits xx content [Ins c t n i] \<lparr>autoDropPureInsertDuplicates = False\<rparr> =
      Inr (r, [Ins (normalize_cursor xx (split_on 10 content) c) t n i]) \<and>
    ar_lines r = join_with [10] (edited (split_on 10 content) [Ins (normalize_cursor xx (split_on 10 content) c) t n i])"
proof -
  have "stale_anchors xx (split_on 10 content) (concat (map getHashlineEditAnchors [Ins c t n i])) = []"
    using assms(3) by (simp add: stale_anchors_def list_all_iff filter_empty_conv)
  from applyHashlineEdits_cases(3) [OF _ assms(2) this, of "\<lparr>autoDropPureInsertDuplicates = False\<rparr>"]
  show ?thesis
    by (simp add: normalized_edits_def absorb_one_insert [OF assms(1)] mutated_edits_def)
qed

lemma n_not_structural: "\<not> isStructuralClosingBoundaryLine (js ''n'')"
  by (simp add: isStructuralClosingBoundaryLine_def STRUCTURAL_CLOSING_BOUNDARY_RE_def js_eval is_ws_def)

lemma letters_split:
  "split_on 10 (letters [''a'', ''b'']) = [js ''a'', js ''b'']"
  "split_on 10 (letters [''a'', ''b'', ''c'', ''d'', ''e'']) = [js ''a'', js ''b'', js ''c'', js ''d'', js ''e'']"
  "split_on 10 (letters [''a'', ''z'', ''c'', ''d'', ''e'']) = [js ''a'', js ''z'', js ''c'', js ''d'', js ''e'']"
  by (simp_all add: letters_def js_eval)

abbreviation "no_drop \<equiv> \<lparr>autoDropPureInsertDuplicates = False\<rparr>"

lemma demo_replay_short:
  "\<exists>r. applyHashlineEdits xx (letters [''a'', ''b'']) (demo_insert xx) no_drop = Inr (r, [Ins Eof (js ''n'') 1 0]) \<and>
     ar_lines r = letters [''a'', ''b'', ''n'']"
  using apply_one_insert [OF n_not_structural, of "letters [''a'', ''b'']" "After_Anchor \<lparr>anc_line = 2, anc_hash = computeLineHash xx 2 (js ''b'')\<rparr>" 1 0 xx]
  by (simp add: demo_insert_def letters_split edits_exist_def lines_exist_def anchor_fresh_def file_line_def normalize_cursor_def)
    (simp add: edited_def edited_body_def line_image_def put_end_def letters_def upt_rec js_eval)

lemma demo_replay_long:
  "\<exists>r. applyHashlineEdits xx (letters [''a'', ''b'', ''c'', ''d'', ''e'']) [Ins Eof (js ''n'') 1 0] no_drop = Inr (r, [Ins Eof (js ''n'') 1 0]) \<and>
     ar_lines r = letters [''a'', ''b'', ''c'', ''d'', ''e'', ''n'']"
  using apply_one_insert [OF n_not_structural, of "letters [''a'', ''b'', ''c'', ''d'', ''e'']" Eof 1 0 xx]
  by (simp add: letters_split edits_exist_def lines_exist_def normalize_cursor_def)
    (simp add: edited_def edited_body_def line_image_def put_end_def letters_def upt_rec js_eval)

lemma demo_intended:
  "\<exists>r es'. applyHashlineEdits xx (letters [''a'', ''b'', ''c'', ''d'', ''e'']) (demo_insert xx) no_drop = Inr (r, es') \<and>
     ar_lines r = letters [''a'', ''b'', ''n'', ''c'', ''d'', ''e'']"
  using apply_one_insert [OF n_not_structural, of "letters [''a'', ''b'', ''c'', ''d'', ''e'']" "After_Anchor \<lparr>anc_line = 2, anc_hash = computeLineHash xx 2 (js ''b'')\<rparr>" 1 0 xx]
  by (simp add: demo_insert_def letters_split edits_exist_def lines_exist_def anchor_fresh_def file_line_def normalize_cursor_def)
    (simp add: edited_def edited_body_def line_image_def put_end_def letters_def upt_rec js_eval, blast)

lemma overlay_full:
  assumes "sn_lineCount sn = Some 2" "sn_lines sn = [(1, x), (2, y)]" "2 \<le> length (split_on 10 t)"
  shows "overlay sn t = [x, y]"
proof -
  obtain a b ls where "split_on 10 t = a # b # ls" using assms(3) by (metis Suc_le_length_iff numeral_2_eq_2)
  then show ?thesis using assms by (simp add: overlay_def)
qed

lemma overlay_all:
  assumes "sn_lineCount sn = Some 5" "sn_lines sn = [(1, a), (2, b), (3, c), (4, d), (5, e)]"
    "split_on 10 t = [v, w, x, y, z]"
  shows "overlay sn t = [a, b, c, d, e]"
  using assms by (simp add: overlay_def)

definition demo_hunk :: "nat \<Rightarrow> string list \<Rightarrow> hunk" where
  "demo_hunk start ctx =
     \<lparr>hk_oldStart = start, hk_oldLines = length ctx, hk_newStart = start, hk_newLines = Suc (length ctx),
      hk_lines = map (\<lambda>w. 32 # js w) ctx @ [43 # js ''n'']\<rparr>"

lemma letters_distinct: "letters [''a'', ''z'', ''c'', ''d'', ''e'', ''n''] \<noteq> letters [''a'', ''z'', ''c'', ''d'', ''e'']"
  by (simp add: letters_def js_eval)

lemma demo_hunks:
  "simple_hunks (letters [''a'', ''b'']) (letters [''a'', ''b'', ''n'']) 3 = [demo_hunk 1 [''a'', ''b'']]"
  "simple_hunks (letters [''a'', ''b'', ''c'', ''d'', ''e'']) (letters [''a'', ''b'', ''c'', ''d'', ''e'', ''n'']) 3
     = [demo_hunk 3 [''c'', ''d'', ''e'']]"
  by code_simp+

lemma demo_landing:
  "\<not> everyHunkLandsUniquely [demo_hunk 1 [''a'', ''b'']] (split_on 10 (letters [''a'', ''z'', ''c'', ''d'', ''e'']))"
  "everyHunkLandsUniquely [demo_hunk 3 [''c'', ''d'', ''e'']] (split_on 10 (letters [''a'', ''z'', ''c'', ''d'', ''e'']))"
  "everyHunkLandsUniquely [demo_hunk 3 [''c'', ''d'', ''e'']] (split_on 10 (letters [''a'', ''b'', ''c'', ''d'', ''e'']))"
  "simple_patch (letters [''a'', ''z'', ''c'', ''d'', ''e'']) [demo_hunk 3 [''c'', ''d'', ''e'']] HASHLINE_RECOVERY_FUZZ_FACTOR
     = Some (letters [''a'', ''z'', ''c'', ''d'', ''e'', ''n''])"
  by code_simp+

lemma trim_demo_hunk:
  assumes "\<forall>k < length ctx. \<exists>y. map_of (sn_lines sn) (start + k) = Some y" "ctx \<noteq> []"
  shows "trimHunkToSnapshot (demo_hunk start ctx) sn = Some (demo_hunk start ctx)"
proof -
  have nums: "old_numbers n (map (\<lambda>w. 32 # js w) ws @ [43 # js ''n'']) = map Some [n..<n + length ws] @ [None]" for n ws
    by (induction ws arbitrary: n) (auto simp: old_side_def upt_rec)
  let ?zs = "zip (map (\<lambda>w. 32 # js w) ctx) (map Some [start..<start + length ctx]) @ [(43 # js ''n'', None)]"
  have cov: "\<not> uncovered_context sn x" if "x \<in> set ?zs" for x
    using that assms(1) by (auto simp: uncovered_context_def covered_def set_zip)
  have 1: "takeWhile (uncovered_context sn) ?zs = []" using cov assms(2) by (cases ctx) (auto simp: upt_rec)
  have 2: "dropWhile (uncovered_context sn) (rev ?zs) = rev ?zs" by (simp add: uncovered_context_def)
  have 3: "\<not> list_ex (\<lambda>(l, ln). ln \<noteq> None \<and> \<not> covered sn ln) ?zs"
    using assms(1) by (fastforce simp: list_ex_iff covered_def set_zip)
  have zs: "zip (hk_lines (demo_hunk start ctx)) (old_numbers (hk_oldStart (demo_hunk start ctx)) (hk_lines (demo_hunk start ctx))) = ?zs"
    by (simp add: demo_hunk_def nums)
  show ?thesis
    unfolding trimHunkToSnapshot_def Let_def zs 1 list.size drop_0 2 rev_rev_ident using 3
    by (simp add: demo_hunk_def old_side_def new_side_def filter_map o_def)
qed

text \<open>The first attempt refuses: its hunk does not occur in the live text.  It leaves the edit at the end of
  the file.\<close>

lemma demo_first_attempt:
  assumes "sn_lineCount sn = Some 2" "sn_lines sn = [(1, js ''a''), (2, js ''b'')]"
  shows "tryRecoverFromSnapshot xx simple_diff sn (collectEditAnchors (demo_insert xx)) (letters [''a'', ''z'', ''c'', ''d'', ''e''])
    (demo_insert xx) no_drop = Inr (None, [Ins Eof (js ''n'') 1 0])"
proof -
  have prev: "join_with [10] (overlay sn (letters [''a'', ''z'', ''c'', ''d'', ''e''])) = letters [''a'', ''b'']"
    using overlay_full [OF assms, of "letters [''a'', ''z'', ''c'', ''d'', ''e'']"] by (simp add: letters_split) (simp add: letters_def)
  have v: "vouched xx sn (collectEditAnchors (demo_insert xx))"
    by (simp add: vouched_def collectEditAnchors_def demo_insert_def assms)
  obtain r where r: "applyHashlineEdits xx (letters [''a'', ''b'']) (demo_insert xx) no_drop = Inr (r, [Ins Eof (js ''n'') 1 0])"
    "ar_lines r = letters [''a'', ''b'', ''n'']" using demo_replay_short by blast
  have "merge_onto simple_diff sn (letters [''a'', ''z'', ''c'', ''d'', ''e'']) (letters [''a'', ''b'']) r = None"
  proof -
    have "trimHunkToSnapshot (demo_hunk 1 [''a'', ''b'']) sn = Some (demo_hunk 1 [''a'', ''b''])"
      by (rule trim_demo_hunk) (simp_all add: assms less_Suc_eq numeral_eq_Suc)
    then show ?thesis using demo_landing(1) by (simp add: merge_onto_def simple_diff_def r(2) demo_hunks(1))
  qed
  moreover have "letters [''a'', ''b''] \<noteq> letters [''a'', ''z'', ''c'', ''d'', ''e'']" "letters [''a'', ''b'', ''n''] \<noteq> letters [''a'', ''b'']"
    by (simp_all add: letters_def js_eval)
  ultimately show ?thesis
    by (simp add: tryRecoverFromSnapshot_def prev v r assms(2))
qed

lemma demo_second_attempt:
  assumes "sn_lineCount sn = Some 5" "sn_lines sn = [(1, js ''a''), (2, js ''b''), (3, js ''c''), (4, js ''d''), (5, js ''e'')]"
  shows "\<exists>r. tryRecoverFromSnapshot xx simple_diff sn (collectEditAnchors (demo_insert xx)) (letters [''a'', ''z'', ''c'', ''d'', ''e''])
    [Ins Eof (js ''n'') 1 0] no_drop = Inr (Some r, [Ins Eof (js ''n'') 1 0]) \<and> rr_lines r = letters [''a'', ''z'', ''c'', ''d'', ''e'', ''n'']"
proof -
  have prev: "join_with [10] (overlay sn (letters [''a'', ''z'', ''c'', ''d'', ''e''])) = letters [''a'', ''b'', ''c'', ''d'', ''e'']"
    using overlay_all [OF assms letters_split(3)] by (simp add: letters_def)
  have v: "vouched xx sn (collectEditAnchors (demo_insert xx))"
    by (simp add: vouched_def collectEditAnchors_def demo_insert_def assms)
  obtain r where r: "applyHashlineEdits xx (letters [''a'', ''b'', ''c'', ''d'', ''e'']) [Ins Eof (js ''n'') 1 0] no_drop = Inr (r, [Ins Eof (js ''n'') 1 0])"
    "ar_lines r = letters [''a'', ''b'', ''c'', ''d'', ''e'', ''n'']" using demo_replay_long by blast
  have "\<exists>m. merge_onto simple_diff sn (letters [''a'', ''z'', ''c'', ''d'', ''e'']) (letters [''a'', ''b'', ''c'', ''d'', ''e'']) r = Some m \<and>
      rr_lines m = letters [''a'', ''z'', ''c'', ''d'', ''e'', ''n'']"
  proof -
    have "trimHunkToSnapshot (demo_hunk 3 [''c'', ''d'', ''e'']) sn = Some (demo_hunk 3 [''c'', ''d'', ''e''])"
      by (rule trim_demo_hunk) (simp_all add: assms less_Suc_eq numeral_eq_Suc)
    then show ?thesis using demo_landing(2-4) letters_distinct
      by (simp add: merge_onto_def simple_diff_def r(2) demo_hunks(2))
  qed
  moreover have "letters [''a'', ''b'', ''c'', ''d'', ''e''] \<noteq> letters [''a'', ''z'', ''c'', ''d'', ''e'']"
    "letters [''a'', ''b'', ''c'', ''d'', ''e'', ''n''] \<noteq> letters [''a'', ''b'', ''c'', ''d'', ''e'']"
    by (simp_all add: letters_def js_eval)
  ultimately show ?thesis
    by (auto simp: tryRecoverFromSnapshot_def prev v r r(1) [simplified] assms(2))
qed

section \<open>Properties\<close>


lemma demo_recovery:
  "\<exists>r es'. tryRecoverHashlineWithCache xx simple_diff mru_ops demo_cache (js ''f'') (letters [''a'', ''z'', ''c'', ''d'', ''e''])
     (demo_insert xx) no_drop = Inr (Some r, es') \<and> rr_lines r = letters [''a'', ''z'', ''c'', ''d'', ''e'', ''n'']"
proof -
  obtain s1 s2 where g: "fst (generations mru_ops demo_cache (js ''f'')) = [s1, s2]"
    and s1: "sn_lineCount s1 = Some 2" "sn_lines s1 = [(1, js ''a''), (2, js ''b'')]"
    and s2: "sn_lineCount s2 = Some 5" "sn_lines s2 = [(1, js ''a''), (2, js ''b''), (3, js ''c''), (4, js ''d''), (5, js ''e'')]"
    using demo_generations by (auto simp: map_eq_Cons_conv)
  from demo_first_attempt [OF s1, of xx] demo_second_attempt [OF s2, of xx] show ?thesis
    by (auto simp: tryRecoverHashlineWithCache_def g)
qed



end
