(* ===== verification/Hashline_Input.thy ===== *)
theory Hashline_Input
  imports Hashline_Types
begin

text \<open>
  Splitting an edit tool input into per-file sections (\<open>hashline/input.ts\<close>).  A header line names a
  file; the lines up to the next header are its script.  Of \<open>node:path\<close> the code uses the POSIX \<open>isAbsolute\<close>,
  \<open>resolve\<close> and \<open>relative\<close>, modelled on path segments; \<open>pcwd\<close> is the directory of the process.
\<close>

record hl_section =
  sec_path :: jstr
  sec_diff :: jstr

record split_options =
  so_cwd :: "jstr option"
  so_path :: "jstr option"

section \<open>Paths\<close>

definition path_isAbsolute :: "jstr \<Rightarrow> bool" where
  "path_isAbsolute p \<longleftrightarrow> p \<noteq> [] \<and> hd p = 47"

definition add_segment :: "jstr list \<Rightarrow> jstr \<Rightarrow> jstr list" where
  "add_segment segs s =
     (if s = [] \<or> s = [46] then segs else if s = [46, 46] then butlast segs else segs @ [s])"

text \<open>The segments of \<open>path.resolve(p)\<close>, an absolute path.\<close>

definition path_resolve :: "jstr \<Rightarrow> jstr \<Rightarrow> jstr list" where
  "path_resolve pcwd p =
     foldl add_segment [] (split_on 47 (if path_isAbsolute p then p else pcwd @ 47 # p))"

fun common_segments :: "jstr list \<Rightarrow> jstr list \<Rightarrow> nat" where
  "common_segments (x # xs) (y # ys) = (if x = y then Suc (common_segments xs ys) else 0)"
| "common_segments _ _ = 0"

definition path_relative :: "jstr list \<Rightarrow> jstr list \<Rightarrow> jstr" where
  "path_relative from to =
     (let k = common_segments from to
      in join_with [47] (replicate (length from - k) [46, 46] @ drop k to))"

definition unquoteHashlinePath :: "jstr \<Rightarrow> jstr" where
  "unquoteHashlinePath p =
     (if length p < 2 then p
      else if (hd p = 34 \<or> hd p = 39) \<and> hd p = last p then butlast (tl p) else p)"

definition starts_with :: "jstr \<Rightarrow> jstr \<Rightarrow> bool" where
  "starts_with pre s \<longleftrightarrow> take (length pre) s = pre"

definition normalizeHashlinePath :: "jstr \<Rightarrow> jstr \<Rightarrow> jstr option \<Rightarrow> jstr" where
  "normalizeHashlinePath pcwd rawPath cwd =
     (let unquoted = unquoteHashlinePath (trim rawPath)
      in case cwd of
           None \<Rightarrow> unquoted
         | Some dir \<Rightarrow>
             if dir = [] \<or> \<not> path_isAbsolute unquoted then unquoted
             else (let relative = path_relative (path_resolve pcwd dir) (path_resolve pcwd unquoted);
                       isWithinCwd = (relative = [] \<or> (\<not> starts_with [46, 46] relative \<and> \<not> path_isAbsolute relative))
                   in if isWithinCwd then (if relative = [] then [46] else relative) else unquoted))"

section \<open>Headers\<close>

text \<open>\<open>Inr None\<close> is the \<open>null\<close> of a line that is no header; the path of a header otherwise.\<close>

definition parseHashlineHeaderLine :: "jstr \<Rightarrow> jstr \<Rightarrow> jstr option \<Rightarrow> hl_error + jstr option" where
  "parseHashlineHeaderLine pcwd line cwd =
     (let trimmed = trimEnd line
      in if trimmed = [] \<or> hd trimmed \<noteq> HL_FILE_PREFIX then Inr None
         else (let rest = dropWhile (\<lambda>c. c = HL_FILE_PREFIX) trimmed
               in if trim rest = [] then Inl Header_empty
                  else (let parsedPath = normalizeHashlinePath pcwd rest cwd
                        in if parsedPath = [] then Inl Header_empty else Inr (Some parsedPath))))"

definition isPatchEnvelopeMarker :: "jstr \<Rightarrow> bool" where
  "isPatchEnvelopeMarker line \<longleftrightarrow> trimEnd line = BEGIN_PATCH_MARKER \<or> trimEnd line = END_PATCH_MARKER"

definition strip_bom :: "jstr \<Rightarrow> jstr" where
  "strip_bom s = (case s of [] \<Rightarrow> [] | c # cs \<Rightarrow> if c = 65279 then cs else s)"

definition stripLeadingBlankLines :: "jstr \<Rightarrow> jstr" where
  "stripLeadingBlankLines input =
     join_with [10]
       (dropWhile (\<lambda>l. trim (strip_cr l) = [] \<or> trimEnd (strip_cr l) = BEGIN_PATCH_MARKER) (split_on 10 (strip_bom input)))"

definition containsRecognizableHashlineOperations :: "jstr \<Rightarrow> bool" where
  "containsRecognizableHashlineOperations input \<longleftrightarrow>
     list_ex (\<lambda>l. l \<noteq> [] \<and> hd l \<in> set HL_OP_CHARS) (split_crlf input)"

text \<open>\<open>lines.some(l => parseHashlineHeaderLine(l) !== null)\<close>: the scan stops at the first header, and an empty
  header before it throws.\<close>

fun some_header :: "jstr \<Rightarrow> jstr option \<Rightarrow> jstr list \<Rightarrow> hl_error + bool" where
  "some_header pcwd cwd [] = Inr False"
| "some_header pcwd cwd (l # ls) =
     and_then (parseHashlineHeaderLine pcwd l cwd) (\<lambda>h. if h \<noteq> None then Inr True else some_header pcwd cwd ls)"

definition normalizeFallbackInput :: "jstr \<Rightarrow> jstr \<Rightarrow> split_options \<Rightarrow> hl_error + jstr" where
  "normalizeFallbackInput pcwd input options =
     and_then (some_header pcwd (so_cwd options) (split_crlf (strip_bom input))) (\<lambda>hasExplicitHeader.
       if hasExplicitHeader then Inr input
       else (case so_path options of
               None \<Rightarrow> Inr input
             | Some p \<Rightarrow>
                 if p = [] \<or> \<not> containsRecognizableHashlineOperations input then Inr input
                 else (let fallbackPath = normalizeHashlinePath pcwd p (so_cwd options)
                       in if fallbackPath = [] then Inr input
                          else Inr (HL_FILE_PREFIX # fallbackPath @ 10 # input))))"

section \<open>Sections\<close>

record split_state =
  ss_sections :: "hl_section list"
  ss_currentPath :: jstr
  ss_currentLines :: "jstr list"

definition flush :: "split_state \<Rightarrow> split_state" where
  "flush st =
     (if ss_currentPath st = [] then st
      else st\<lparr>ss_sections := (if list_ex (\<lambda>l. trim l \<noteq> []) (ss_currentLines st)
                then ss_sections st @ [\<lparr>sec_path = ss_currentPath st, sec_diff = join_with [10] (ss_currentLines st)\<rparr>]
                else ss_sections st),
             ss_currentLines := []\<rparr>)"

fun section_loop :: "jstr \<Rightarrow> jstr option \<Rightarrow> jstr list \<Rightarrow> split_state \<Rightarrow> hl_error + split_state" where
  "section_loop pcwd cwd [] st = Inr st"
| "section_loop pcwd cwd (line # ls) st =
     (if trimEnd line = END_PATCH_MARKER \<or> trimEnd line = ABORT_MARKER then Inr st
      else if isPatchEnvelopeMarker line then section_loop pcwd cwd ls st
      else and_then (parseHashlineHeaderLine pcwd line cwd) (\<lambda>header.
        case header of
          Some path \<Rightarrow> section_loop pcwd cwd ls ((flush st)\<lparr>ss_currentPath := path, ss_currentLines := []\<rparr>)
        | None \<Rightarrow> section_loop pcwd cwd ls (st\<lparr>ss_currentLines := ss_currentLines st @ [line]\<rparr>)))"

definition splitHashlineInputs :: "jstr \<Rightarrow> jstr \<Rightarrow> split_options \<Rightarrow> hl_error + hl_section list" where
  "splitHashlineInputs pcwd input options =
     and_then (normalizeFallbackInput pcwd input options) (\<lambda>normalized.
       let lines = split_crlf (stripLeadingBlankLines normalized);
           firstLine = (case arr_get lines 0 of None \<Rightarrow> [] | Some l \<Rightarrow> l)
       in and_then (parseHashlineHeaderLine pcwd firstLine (so_cwd options)) (\<lambda>header.
          if header = None then Inl (Input_must_begin_with_header (take 120 firstLine))
          else and_then (section_loop pcwd (so_cwd options) lines
                  \<lparr>ss_sections = [], ss_currentPath = [], ss_currentLines = []\<rparr>) (\<lambda>st.
               Inr (ss_sections (flush st)))))"

definition splitHashlineInput :: "jstr \<Rightarrow> jstr \<Rightarrow> split_options \<Rightarrow> hl_error + hl_section option" where
  "splitHashlineInput pcwd input options =
     and_then (splitHashlineInputs pcwd input options) (\<lambda>secs. Inr (arr_get secs 0))"

section \<open>Printed inputs\<close>

text \<open>A path that is written as it is read, and a script line that is neither a header nor a marker.\<close>

definition plain_path :: "jstr \<Rightarrow> bool" where
  "plain_path p \<longleftrightarrow>
     p \<noteq> [] \<and> \<not> is_ws (hd p) \<and> \<not> is_ws (last p) \<and> hd p \<noteq> HL_FILE_PREFIX \<and> 10 \<notin> set p \<and> unquoteHashlinePath p = p"

definition script_line :: "jstr \<Rightarrow> bool" where
  "script_line l \<longleftrightarrow>
     10 \<notin> set l \<and> (l = [] \<or> last l \<noteq> 13) \<and> (trimEnd l = [] \<or> hd l \<noteq> HL_FILE_PREFIX) \<and>
     trimEnd l \<notin> {BEGIN_PATCH_MARKER, END_PATCH_MARKER, ABORT_MARKER}"

fun section_lines :: "jstr \<times> jstr list \<Rightarrow> jstr list" where
  "section_lines (p, ls) = (HL_FILE_PREFIX # p) # ls"

definition print_sections :: "(jstr \<times> jstr list) list \<Rightarrow> jstr" where
  "print_sections secs = join_with [10] (concat (map section_lines secs))"

fun section_ok :: "jstr \<times> jstr list \<Rightarrow> bool" where
  "section_ok (p, ls) \<longleftrightarrow> plain_path p \<and> list_all script_line ls \<and> list_ex (\<lambda>l. trim l \<noteq> []) ls"

lemma trimEnd_id: "s \<noteq> [] \<Longrightarrow> \<not> is_ws (last s) \<Longrightarrow> trimEnd s = s"
  by (cases s rule: rev_cases) auto

lemma trim_id: "s \<noteq> [] \<Longrightarrow> \<not> is_ws (hd s) \<Longrightarrow> \<not> is_ws (last s) \<Longrightarrow> trim s = s"
  by (cases s) (simp_all add: trim_def trimStart_def trimEnd_id)

lemma hd_trimEnd: "trimEnd s \<noteq> [] \<Longrightarrow> hd (trimEnd s) = hd s"
  using trimEnd_prefix [of s] unfolding prefix_def by (metis hd_append2)

lemma file_prefix_not_ws: "\<not> is_ws HL_FILE_PREFIX" "HL_FILE_PREFIX \<noteq> 65279" "HL_FILE_PREFIX \<noteq> 42" "HL_FILE_PREFIX \<noteq> 10"
  by (simp_all add: js_eval is_ws_def)

lemma header_of_path:
  assumes "plain_path p"
  shows "parseHashlineHeaderLine pcwd (HL_FILE_PREFIX # p) None = Inr (Some p)"
proof -
  have "trimEnd (HL_FILE_PREFIX # p) = HL_FILE_PREFIX # p" "trim p = p"
    using assms by (simp_all add: plain_path_def trimEnd_id trim_id)
  moreover have "dropWhile (\<lambda>c. c = HL_FILE_PREFIX) (HL_FILE_PREFIX # p) = p"
    using assms by (cases p) (auto simp: plain_path_def)
  ultimately show ?thesis
    using assms by (simp add: parseHashlineHeaderLine_def normalizeHashlinePath_def plain_path_def)
qed

lemma script_line_no_header: "script_line l \<Longrightarrow> parseHashlineHeaderLine pcwd l cwd = Inr None"
  by (cases "trimEnd l = []") (auto simp: parseHashlineHeaderLine_def script_line_def hd_trimEnd Let_def)

lemma header_line_no_marker:
  assumes "plain_path p"
  shows "trimEnd (HL_FILE_PREFIX # p) \<notin> {BEGIN_PATCH_MARKER, END_PATCH_MARKER, ABORT_MARKER}"
proof -
  have "trimEnd (HL_FILE_PREFIX # p) = HL_FILE_PREFIX # p" using assms by (simp add: plain_path_def trimEnd_id)
  then show ?thesis by (simp add: js_eval)
qed

lemma section_loop_lines:
  "list_all script_line ls \<Longrightarrow>
   section_loop pcwd cwd (ls @ rest) st = section_loop pcwd cwd rest (st\<lparr>ss_currentLines := ss_currentLines st @ ls\<rparr>)"
proof (induction ls arbitrary: st)
  case (Cons l ls)
  then have "script_line l" by simp
  then have "trimEnd l \<notin> {BEGIN_PATCH_MARKER, END_PATCH_MARKER, ABORT_MARKER}" by (simp add: script_line_def)
  with Cons script_line_no_header [OF \<open>script_line l\<close>] show ?case by (simp add: isPatchEnvelopeMarker_def)
qed simp

definition printed_section :: "jstr \<times> jstr list \<Rightarrow> hl_section" where
  "printed_section s = \<lparr>sec_path = fst s, sec_diff = join_with [10] (snd s)\<rparr>"

lemma section_loop_print:
  assumes "list_all section_ok secs"
  shows "\<exists>st'. section_loop pcwd None (concat (map section_lines secs)) st = Inr st' \<and>
    ss_sections (flush st') = ss_sections (flush st) @ map printed_section secs"
  using assms
proof (induction secs arbitrary: st)
  case (Cons s secs)
  obtain p ls where s: "s = (p, ls)" by force
  with Cons.prems have ok: "plain_path p" "list_all script_line ls" "list_ex (\<lambda>l. trim l \<noteq> []) ls" by auto
  let ?st = "(flush st)\<lparr>ss_currentPath := p, ss_currentLines := ls\<rparr>"
  have "section_loop pcwd None (concat (map section_lines (s # secs))) st
      = section_loop pcwd None (concat (map section_lines secs)) ?st"
    using header_line_no_marker [OF ok(1)] header_of_path [OF ok(1)] section_loop_lines [OF ok(2)] s
    by (simp add: isPatchEnvelopeMarker_def)
  moreover have "ss_sections (flush ?st) = ss_sections (flush st) @ [printed_section s]"
    using ok s by (simp add: flush_def [of ?st] printed_section_def plain_path_def)
  ultimately show ?case using Cons.IH [of ?st] Cons.prems by (auto simp: s)
qed simp

lemma split_crlf_lines:
  assumes "ls \<noteq> []" "\<And>l. l \<in> set ls \<Longrightarrow> 10 \<notin> set l \<and> (l = [] \<or> last l \<noteq> 13)"
  shows "split_on 10 (join_with [10] ls) = ls" "split_crlf (join_with [10] ls) = ls"
proof -
  show 1: "split_on 10 (join_with [10] ls) = ls" using assms by (intro split_join) auto
  have "map strip_cr (butlast ls) = butlast ls"
    using assms(2) by (intro map_idI) (auto simp: strip_cr_def dest: in_set_butlastD)
  then show "split_crlf (join_with [10] ls) = ls" using assms(1) by (simp add: split_crlf_def 1)
qed

lemma printed_lines:
  assumes "list_all section_ok secs" "l \<in> set (concat (map section_lines secs))"
  shows "10 \<notin> set l \<and> (l = [] \<or> last l \<noteq> 13)"
proof -
  from assms obtain p ls where "section_ok (p, ls)" "l = HL_FILE_PREFIX # p \<or> l \<in> set ls"
    by (fastforce simp: list_all_iff)
  moreover have "\<not> is_ws c \<Longrightarrow> c \<noteq> 13" for c by (auto simp: is_ws_def)
  ultimately show ?thesis
    using file_prefix_not_ws by (auto simp: plain_path_def script_line_def list_all_iff)
qed

section \<open>What a split returns\<close>

text \<open>Every section has a path and at least one line that is not blank.\<close>

definition useful_section :: "hl_section \<Rightarrow> bool" where
  "useful_section s \<longleftrightarrow> sec_path s \<noteq> [] \<and> (\<exists>ls. sec_diff s = join_with [10] ls \<and> list_ex (\<lambda>l. trim l \<noteq> []) ls)"

lemma flush_useful: "list_all useful_section (ss_sections st) \<Longrightarrow> list_all useful_section (ss_sections (flush st))"
  by (auto simp: flush_def useful_section_def)

lemma section_loop_useful:
  "section_loop pcwd cwd ls st = Inr st' \<Longrightarrow> list_all useful_section (ss_sections st) \<Longrightarrow>
   list_all useful_section (ss_sections st')"
proof (induction pcwd cwd ls st rule: section_loop.induct)
  case (2 pcwd cwd line ls st)
  then show ?case
    by (auto simp: and_then_Inr flush_useful split: if_splits option.splits)
qed simp

lemma split_printed:
  assumes "list_all section_ok secs" "secs \<noteq> []"
  shows "splitHashlineInputs pcwd (print_sections secs) \<lparr>so_cwd = None, so_path = fallback\<rparr> = Inr (map printed_section secs)"
proof -
  let ?L = "concat (map section_lines secs)"
  obtain p ls rest where secs: "secs = (p, ls) # rest" using assms(2) by (cases secs) auto
  then have p: "plain_path p" using assms(1) by simp
  then have L: "?L = (HL_FILE_PREFIX # p) # ls @ concat (map section_lines rest)" by (simp add: secs)
  note split = split_crlf_lines [of ?L] printed_lines [OF assms(1)]
  have lines: "split_on 10 (print_sections secs) = ?L" "split_crlf (print_sections secs) = ?L"
    unfolding print_sections_def by (rule split_crlf_lines; use L printed_lines [OF assms(1)] in auto)+
  have "\<exists>t. join_with [10] ((c # q) # qs) = c # t" for c q qs by (cases qs) auto
  then have "\<exists>t. print_sections secs = HL_FILE_PREFIX # t" unfolding print_sections_def L .
  then have bom: "strip_bom (print_sections secs) = print_sections secs"
    using file_prefix_not_ws by (auto simp: strip_bom_def)
  have head: "trim (strip_cr (HL_FILE_PREFIX # p)) \<noteq> []" "trimEnd (strip_cr (HL_FILE_PREFIX # p)) \<noteq> BEGIN_PATCH_MARKER"
  proof -
    have "last (HL_FILE_PREFIX # p) \<noteq> 13" using p by (auto simp: plain_path_def is_ws_def)
    then have "strip_cr (HL_FILE_PREFIX # p) = HL_FILE_PREFIX # p" by (simp add: strip_cr_def)
    then show "trim (strip_cr (HL_FILE_PREFIX # p)) \<noteq> []" "trimEnd (strip_cr (HL_FILE_PREFIX # p)) \<noteq> BEGIN_PATCH_MARKER"
      using header_line_no_marker [OF p] file_prefix_not_ws by (auto simp: trim_eq_Nil)
  qed
  have "stripLeadingBlankLines (print_sections secs) = print_sections secs"
    unfolding stripLeadingBlankLines_def bom lines(1) using head by (simp add: L print_sections_def)
  moreover have "normalizeFallbackInput pcwd (print_sections secs) \<lparr>so_cwd = None, so_path = fallback\<rparr> = Inr (print_sections secs)"
    unfolding normalizeFallbackInput_def bom lines(2) using header_of_path [OF p] by (simp add: L)
  ultimately show ?thesis
    using section_loop_print [OF assms(1), of pcwd "\<lparr>ss_sections = [], ss_currentPath = [], ss_currentLines = []\<rparr>"] header_of_path [OF p, of pcwd]
    by (auto simp: splitHashlineInputs_def lines(2) L flush_def [of "\<lparr>ss_sections = [], ss_currentPath = [], ss_currentLines = []\<rparr>"])
qed

definition demo_sections :: "(jstr \<times> jstr list) list" where
  "demo_sections = [(js ''src/a.ts'', [js ''x'', []]), (js ''b.ts'', [js ''y''])]"

lemma demo_sections_ok: "list_all section_ok demo_sections" "demo_sections \<noteq> []"
  by (simp_all add: demo_sections_def plain_path_def script_line_def js_eval is_ws_def unquoteHashlinePath_def
      trim_def trimStart_def trimEnd_def)

section \<open>Properties\<close>



text \<open>Every section returned has a path and a line that is not blank, so no empty edit reaches a
  file.\<close>

theorem split_sections_useful:
  assumes "splitHashlineInputs pcwd input options = Inr secs"
  shows "list_all useful_section secs"
  using assms section_loop_useful flush_useful
  by (fastforce simp: splitHashlineInputs_def and_then_Inr Let_def split: if_splits)

theorem split_sections_useful_witness:
  "list_all useful_section (map printed_section demo_sections)"
  by (rule split_sections_useful [of "[]" "print_sections demo_sections" "\<lparr>so_cwd = None, so_path = None\<rparr>"])
    (rule split_printed [OF demo_sections_ok])

end
