(* ===== verification/Fallback_Chain.thy ===== *)
theory Fallback_Chain
  imports Js_Prelude Complex_Main
begin

text \<open>
  The controller of a model fallback chain (\<open>session/fallback-chain-controller.ts\<close>): which entry of the
  configured chain is tried next, how many attempts it has left, and when the turn is out of entries.

  The controller is a record of the fields of \<open>FallbackChainController\<close>; every method is a function on it.
  A selector is truthy when it is a non-empty string.  The two delay functions are modelled on rational
  numbers, exact where the doubles of the source are.  The error texts built by
  \<open>describeCompactionCandidateFailures\<close> depend on the redaction of another package and are not modelled.
\<close>

section \<open>State\<close>

datatype trigger_class = Rate_limit | Quota | Auth | Credential | Server | Unknown | Other

record fallback_failure =
  ff_selector :: jstr
  ff_triggerClass :: trigger_class
  ff_reason :: jstr

datatype failure_result = Retry | Advance | Exhausted

record fallback_chain =
  fch_role :: jstr
  fch_entries :: "jstr list"
  fch_origin :: jstr
  fch_identity :: "jstr option"
  fch_explicitHead :: bool

record fallback_state =
  fs_activeIndex :: nat
  fs_attemptsUsed :: nat
  fs_totalAttemptsUsed :: nat
  fs_attemptStarted :: bool
  fs_restoredEntryIndices :: "nat list"
  fs_tried :: "fallback_failure list"
  fs_skips :: "(jstr \<times> jstr) list"
  fs_exhaustedForTurn :: bool

record fallback_controller =
  fc_chain :: fallback_chain
  fc_maxAttempts :: nat
  activeIndex :: nat
  attemptsUsed :: nat
  totalAttemptsUsed :: nat
  attemptStarted :: bool
  restoredEntryIndices :: "nat list"
  tried :: "fallback_failure list"
  skips :: "(jstr \<times> jstr) list"
  exhaustedForTurn :: bool

abbreviation entry_count :: "fallback_controller \<Rightarrow> nat" where
  "entry_count c \<equiv> length (fch_entries (fc_chain c))"

datatype fallback_error = Max_attempts_not_positive

section \<open>Operations\<close>

text \<open>The argument of the constructor is \<open>None\<close> when the number is not an integer.\<close>

definition new_controller :: "fallback_chain \<Rightarrow> int option \<Rightarrow> fallback_error + fallback_controller" where
  "new_controller chain maxAttempts =
     (case maxAttempts of
        None \<Rightarrow> Inl Max_attempts_not_positive
      | Some m \<Rightarrow>
          if m < 1 then Inl Max_attempts_not_positive
          else Inr \<lparr>fc_chain = chain, fc_maxAttempts = nat m, activeIndex = 0, attemptsUsed = 0,
                    totalAttemptsUsed = 0, attemptStarted = False, restoredEntryIndices = [], tried = [],
                    skips = [], exhaustedForTurn = (fch_entries chain = [])\<rparr>)"

definition snapshotRuntimeState :: "fallback_controller \<Rightarrow> fallback_state" where
  "snapshotRuntimeState c =
     \<lparr>fs_activeIndex = activeIndex c, fs_attemptsUsed = attemptsUsed c,
      fs_totalAttemptsUsed = totalAttemptsUsed c, fs_attemptStarted = attemptStarted c,
      fs_restoredEntryIndices = restoredEntryIndices c, fs_tried = tried c, fs_skips = skips c,
      fs_exhaustedForTurn = exhaustedForTurn c\<rparr>"

definition restoreRuntimeState :: "fallback_state \<Rightarrow> fallback_controller \<Rightarrow> fallback_controller" where
  "restoreRuntimeState s c =
     c\<lparr>activeIndex := fs_activeIndex s, attemptsUsed := fs_attemptsUsed s,
       totalAttemptsUsed := fs_totalAttemptsUsed s, attemptStarted := fs_attemptStarted s,
       restoredEntryIndices := fold set_add (fs_restoredEntryIndices s) [], tried := fs_tried s,
       skips := fs_skips s, exhaustedForTurn := fs_exhaustedForTurn s\<rparr>"

definition maxTotalAttempts :: "fallback_controller \<Rightarrow> nat" where
  "maxTotalAttempts c = fc_maxAttempts c * entry_count c + length (restoredEntryIndices c)"

definition currentSelector :: "fallback_controller \<Rightarrow> jstr option" where
  "currentSelector c =
     (if activeIndex c < entry_count c then Some (fch_entries (fc_chain c) ! activeIndex c) else None)"

definition truthy :: "jstr option \<Rightarrow> bool" where
  "truthy s \<longleftrightarrow> s \<noteq> None \<and> s \<noteq> Some []"

definition advance :: "fallback_controller \<Rightarrow> bool \<times> fallback_controller" where
  "advance c =
     (if exhaustedForTurn c then (False, c)
      else let c1 = c\<lparr>activeIndex := activeIndex c + 1, attemptsUsed := 0, attemptStarted := False\<rparr>
           in if activeIndex c1 \<ge> entry_count c1 then (False, c1\<lparr>exhaustedForTurn := True\<rparr>)
              else (True, c1))"

definition onResolutionSkip :: "jstr \<Rightarrow> fallback_controller \<Rightarrow> bool \<times> fallback_controller" where
  "onResolutionSkip reason c =
     (let selector = currentSelector c
      in advance (if truthy selector then c\<lparr>skips := skips c @ [(the selector, reason)]\<rparr> else c))"

definition onAttemptStarted :: "fallback_controller \<Rightarrow> fallback_controller" where
  "onAttemptStarted c =
     (if \<not> truthy (currentSelector c) \<or> exhaustedForTurn c then c
      else if totalAttemptsUsed c \<ge> maxTotalAttempts c then
        c\<lparr>activeIndex := entry_count c, exhaustedForTurn := True\<rparr>
      else c\<lparr>attemptsUsed := attemptsUsed c + 1, totalAttemptsUsed := totalAttemptsUsed c + 1,
             attemptStarted := True\<rparr>)"

definition discardStartedAttempt :: "fallback_controller \<Rightarrow> fallback_controller" where
  "discardStartedAttempt c =
     (if \<not> attemptStarted c then c
      else c\<lparr>attemptsUsed := attemptsUsed c - 1, totalAttemptsUsed := totalAttemptsUsed c - 1,
             attemptStarted := False\<rparr>)"

definition resetAttemptBudget :: "fallback_controller \<Rightarrow> fallback_controller" where
  "resetAttemptBudget c =
     c\<lparr>attemptsUsed := 0, totalAttemptsUsed := 0, tried := [], restoredEntryIndices := [],
       attemptStarted := False\<rparr>"

definition seedResolution :: "int \<Rightarrow> (jstr \<times> jstr) list \<Rightarrow> fallback_controller \<Rightarrow> fallback_controller" where
  "seedResolution i sk c =
     (let c1 = c\<lparr>activeIndex := min (nat (max 0 i)) (entry_count c), skips := sk, attemptsUsed := 0,
                 totalAttemptsUsed := 0, restoredEntryIndices := [], attemptStarted := False\<rparr>
      in c1\<lparr>exhaustedForTurn := activeIndex c1 \<ge> entry_count c1\<rparr>)"

definition onAttemptFailure :: "trigger_class \<Rightarrow> jstr \<Rightarrow> fallback_controller \<Rightarrow> failure_result \<times> fallback_controller" where
  "onAttemptFailure cls reason c =
     (let selector = currentSelector c
      in if \<not> truthy selector \<or> exhaustedForTurn c then (Exhausted, c)
         else
           let c1 = (if \<not> attemptStarted c
                     then c\<lparr>attemptsUsed := attemptsUsed c + 1, totalAttemptsUsed := totalAttemptsUsed c + 1\<rparr>
                     else c);
               c2 = c1\<lparr>attemptStarted := False,
                       tried := tried c1 @ [\<lparr>ff_selector = the selector, ff_triggerClass = cls, ff_reason = reason\<rparr>]\<rparr>
           in if totalAttemptsUsed c2 \<ge> maxTotalAttempts c2 then
                (Exhausted, c2\<lparr>activeIndex := entry_count c2, exhaustedForTurn := True\<rparr>)
              else if attemptsUsed c2 < fc_maxAttempts c2 then (Retry, c2)
              else case advance c2 of (moved, c3) \<Rightarrow> (if moved then Advance else Exhausted, c3))"

definition recordEscapedArgumentsFailure :: "jstr \<Rightarrow> bool \<Rightarrow> fallback_controller \<Rightarrow> bool \<times> fallback_controller" where
  "recordEscapedArgumentsFailure reason adv c =
     (let selector = currentSelector c
      in if \<not> truthy selector \<or> exhaustedForTurn c then (False, c)
         else
           let c1 = c\<lparr>attemptStarted := False, attemptsUsed := fc_maxAttempts c,
                      totalAttemptsUsed := totalAttemptsUsed c + 1,
                      tried := tried c @ [\<lparr>ff_selector = the selector, ff_triggerClass = Unknown, ff_reason = reason\<rparr>]\<rparr>
           in if adv then advance c1 else (activeIndex c1 + 1 < entry_count c1, c1))"

definition restorePreviousEntryForRetry :: "fallback_controller \<Rightarrow> bool \<times> fallback_controller" where
  "restorePreviousEntryForRetry c =
     (let previousIndex = int (activeIndex c) - 1
      in if previousIndex < 0 \<or> exhaustedForTurn c \<or> nat previousIndex \<in> set (restoredEntryIndices c)
            \<or> totalAttemptsUsed c \<ge> maxTotalAttempts c
         then (False, c)
         else (True, c\<lparr>restoredEntryIndices := set_add (nat previousIndex) (restoredEntryIndices c),
                       activeIndex := nat previousIndex, attemptsUsed := fc_maxAttempts c - 1,
                       exhaustedForTurn := False, attemptStarted := False\<rparr>))"

definition isExhausted :: "fallback_controller \<Rightarrow> bool" where
  "isExhausted c = exhaustedForTurn c"

definition resetSticky :: "fallback_controller \<Rightarrow> fallback_controller" where
  "resetSticky c =
     c\<lparr>activeIndex := 0, attemptsUsed := 0, totalAttemptsUsed := 0, tried := [],
       restoredEntryIndices := [], skips := [], exhaustedForTurn := (fch_entries (fc_chain c) = []),
       attemptStarted := False\<rparr>"

definition resetForNewTurn :: "fallback_controller \<Rightarrow> fallback_controller" where
  "resetForNewTurn c = resetSticky c"

text \<open>\<open>random\<close> is the number the random source returned.  A missing or infinite \<open>retryAfterMs\<close> is
  \<open>None\<close>.\<close>

definition cappedExponentialWithFullJitter :: "rat \<Rightarrow> rat \<Rightarrow> int \<Rightarrow> rat \<Rightarrow> int" where
  "cappedExponentialWithFullJitter baseDelayMs maxDelayMs attemptK random =
     (let exponential = baseDelayMs * 2 ^ nat (max 0 (attemptK - 1));
          cap = (if maxDelayMs > 0 then min exponential maxDelayMs else exponential)
      in \<lfloor>max 0 cap * max 0 (min 1 random)\<rfloor>)"

definition compactionRetryDelay :: "rat \<Rightarrow> rat \<Rightarrow> int \<Rightarrow> rat option \<Rightarrow> rat" where
  "compactionRetryDelay baseDelayMs maxDelayMs attempt retryAfterMs =
     (let exponential = baseDelayMs * 2 ^ nat (max 0 attempt);
          hint = (case retryAfterMs of Some r \<Rightarrow> max 0 r | None \<Rightarrow> 0);
          hinted = max exponential hint;
          bounded = (if maxDelayMs > 0 then min hinted maxDelayMs else hinted)
      in max 0 bounded)"

definition effectiveFallbackDelay :: "rat \<Rightarrow> rat \<Rightarrow> int \<Rightarrow> rat \<Rightarrow> int" where
  "effectiveFallbackDelay baseDelayMs maxDelayMs attemptK random =
     cappedExponentialWithFullJitter baseDelayMs maxDelayMs attemptK random"

section \<open>Runs of a controller\<close>

text \<open>A client may call any method in any order, and restore any snapshot it has taken before.\<close>

datatype fallback_call =
    Call_started
  | Call_discard
  | Call_resetBudget
  | Call_seed int "(jstr \<times> jstr) list"
  | Call_failure trigger_class jstr
  | Call_escaped jstr bool
  | Call_skip jstr
  | Call_advance
  | Call_restorePrevious
  | Call_newTurn
  | Call_snapshot
  | Call_restore nat

definition fallback_step ::
  "fallback_controller \<times> fallback_state list \<Rightarrow> fallback_call \<Rightarrow> fallback_controller \<times> fallback_state list" where
  "fallback_step st call =
     (case st of (c, ss) \<Rightarrow>
       (case call of
          Call_started \<Rightarrow> (onAttemptStarted c, ss)
        | Call_discard \<Rightarrow> (discardStartedAttempt c, ss)
        | Call_resetBudget \<Rightarrow> (resetAttemptBudget c, ss)
        | Call_seed i sk \<Rightarrow> (seedResolution i sk c, ss)
        | Call_failure k r \<Rightarrow> (snd (onAttemptFailure k r c), ss)
        | Call_escaped r adv \<Rightarrow> (snd (recordEscapedArgumentsFailure r adv c), ss)
        | Call_skip r \<Rightarrow> (snd (onResolutionSkip r c), ss)
        | Call_advance \<Rightarrow> (snd (advance c), ss)
        | Call_restorePrevious \<Rightarrow> (snd (restorePreviousEntryForRetry c), ss)
        | Call_newTurn \<Rightarrow> (resetForNewTurn c, ss)
        | Call_snapshot \<Rightarrow> (c, ss @ [snapshotRuntimeState c])
        | Call_restore i \<Rightarrow> (if i < length ss then restoreRuntimeState (ss ! i) c else c, ss)))"

text \<open>A position in a chain of \<open>n\<close> entries: exhausted exactly past the last entry, and each restored entry
  is a non-terminal one, recorded once.\<close>

definition position_ok :: "nat \<Rightarrow> nat \<Rightarrow> bool \<Rightarrow> nat list \<Rightarrow> bool" where
  "position_ok n i exhausted restored \<longleftrightarrow>
     i \<le> n \<and> (exhausted \<longleftrightarrow> i = n) \<and> distinct restored \<and> (\<forall>r \<in> set restored. r + 1 < n)"

definition controller_ok :: "fallback_controller \<Rightarrow> bool" where
  "controller_ok c \<longleftrightarrow>
     position_ok (entry_count c) (activeIndex c) (exhaustedForTurn c) (restoredEntryIndices c)"

definition fallback_inv :: "fallback_chain \<Rightarrow> nat \<Rightarrow> fallback_controller \<times> fallback_state list \<Rightarrow> bool" where
  "fallback_inv chain m st \<longleftrightarrow>
     fc_chain (fst st) = chain \<and> fc_maxAttempts (fst st) = m \<and> controller_ok (fst st) \<and>
     (\<forall>s \<in> set (snd st). position_ok (length (fch_entries chain)) (fs_activeIndex s) (fs_exhaustedForTurn s)
        (fs_restoredEntryIndices s))"

lemmas fallback_ops = advance_def onResolutionSkip_def onAttemptStarted_def discardStartedAttempt_def
  resetAttemptBudget_def seedResolution_def onAttemptFailure_def recordEscapedArgumentsFailure_def
  restorePreviousEntryForRetry_def resetForNewTurn_def resetSticky_def snapshotRuntimeState_def
  restoreRuntimeState_def Let_def

text \<open>No operation changes the chain or the number of attempts.\<close>

definition same_chain :: "fallback_controller \<Rightarrow> fallback_controller \<Rightarrow> bool" where
  "same_chain c d \<longleftrightarrow> fc_chain d = fc_chain c \<and> fc_maxAttempts d = fc_maxAttempts c"

lemma advance_ok: "controller_ok c \<Longrightarrow> same_chain c (snd (advance c)) \<and> controller_ok (snd (advance c))"
  by (auto simp: advance_def Let_def same_chain_def controller_ok_def position_ok_def)

lemma started_ok: "controller_ok c \<Longrightarrow> same_chain c (onAttemptStarted c) \<and> controller_ok (onAttemptStarted c)"
  by (auto simp: onAttemptStarted_def same_chain_def controller_ok_def position_ok_def)

lemma skip_ok:
  "controller_ok c \<Longrightarrow> same_chain c (snd (onResolutionSkip r c)) \<and> controller_ok (snd (onResolutionSkip r c))"
  using advance_ok [of "if truthy (currentSelector c) then c\<lparr>skips := skips c @ [(the (currentSelector c), r)]\<rparr> else c"]
  by (auto simp: onResolutionSkip_def same_chain_def controller_ok_def Let_def)

lemma discard_ok: "controller_ok c \<Longrightarrow> same_chain c (discardStartedAttempt c) \<and> controller_ok (discardStartedAttempt c)"
  by (simp add: discardStartedAttempt_def same_chain_def controller_ok_def)

lemma reset_ok: "controller_ok c \<Longrightarrow> same_chain c (resetAttemptBudget c) \<and> controller_ok (resetAttemptBudget c)"
  by (simp add: resetAttemptBudget_def same_chain_def controller_ok_def position_ok_def)

lemma seed_ok: "same_chain c (seedResolution i sk c) \<and> controller_ok (seedResolution i sk c)"
  by (auto simp: seedResolution_def Let_def same_chain_def controller_ok_def position_ok_def)

lemma newTurn_ok: "same_chain c (resetForNewTurn c) \<and> controller_ok (resetForNewTurn c)"
  by (simp add: resetForNewTurn_def resetSticky_def same_chain_def controller_ok_def position_ok_def)

text \<open>A failure that is charged: what the controller holds before it decides what comes next.\<close>

definition charged_failure :: "trigger_class \<Rightarrow> jstr \<Rightarrow> fallback_controller \<Rightarrow> fallback_controller" where
  "charged_failure k r c =
     c\<lparr>attemptsUsed := (if attemptStarted c then attemptsUsed c else attemptsUsed c + 1),
       totalAttemptsUsed := (if attemptStarted c then totalAttemptsUsed c else totalAttemptsUsed c + 1),
       attemptStarted := False,
       tried := tried c @ [\<lparr>ff_selector = the (currentSelector c), ff_triggerClass = k, ff_reason = r\<rparr>]\<rparr>"

lemma onAttemptFailure_charged:
  assumes "truthy (currentSelector c)" "\<not> exhaustedForTurn c"
  shows "onAttemptFailure k r c =
    (let d = charged_failure k r c
     in if totalAttemptsUsed d \<ge> maxTotalAttempts d then
          (Exhausted, d\<lparr>activeIndex := entry_count d, exhaustedForTurn := True\<rparr>)
        else if attemptsUsed d < fc_maxAttempts d then (Retry, d)
        else (if fst (advance d) then Advance else Exhausted, snd (advance d)))"
  using assms by (simp add: onAttemptFailure_def charged_failure_def Let_def maxTotalAttempts_def split_def)

lemma onAttemptFailure_idle:
  "\<not> truthy (currentSelector c) \<or> exhaustedForTurn c \<Longrightarrow> onAttemptFailure k r c = (Exhausted, c)"
  by (auto simp: onAttemptFailure_def)

lemma charged_failure_fields [simp]:
  "fc_chain (charged_failure k r c) = fc_chain c"
  "fc_maxAttempts (charged_failure k r c) = fc_maxAttempts c"
  "activeIndex (charged_failure k r c) = activeIndex c"
  "exhaustedForTurn (charged_failure k r c) = exhaustedForTurn c"
  "restoredEntryIndices (charged_failure k r c) = restoredEntryIndices c"
  "maxTotalAttempts (charged_failure k r c) = maxTotalAttempts c"
  by (simp_all add: charged_failure_def maxTotalAttempts_def)

lemma failure_ok:
  assumes "controller_ok c"
  shows "same_chain c (snd (onAttemptFailure k r c)) \<and> controller_ok (snd (onAttemptFailure k r c))"
proof (cases "\<not> truthy (currentSelector c) \<or> exhaustedForTurn c")
  case True
  then show ?thesis using assms by (simp add: onAttemptFailure_idle same_chain_def)
next
  case False
  have "controller_ok (charged_failure k r c)" using assms by (simp add: controller_ok_def)
  from advance_ok [OF this] False this show ?thesis
    by (auto simp: onAttemptFailure_charged Let_def same_chain_def controller_ok_def position_ok_def)
qed

lemma escaped_ok:
  assumes "controller_ok c"
  shows "same_chain c (snd (recordEscapedArgumentsFailure r adv c)) \<and> controller_ok (snd (recordEscapedArgumentsFailure r adv c))"
proof -
  let ?c = "c\<lparr>attemptStarted := False, attemptsUsed := fc_maxAttempts c,
     totalAttemptsUsed := totalAttemptsUsed c + 1,
     tried := tried c @ [\<lparr>ff_selector = the (currentSelector c), ff_triggerClass = Unknown, ff_reason = r\<rparr>]\<rparr>"
  have ok: "controller_ok ?c" using assms by (simp add: controller_ok_def)
  show ?thesis
    using assms ok advance_ok [OF ok] by (simp add: recordEscapedArgumentsFailure_def Let_def same_chain_def)
qed

lemma restorePrevious_ok:
  assumes "controller_ok c"
  shows "same_chain c (snd (restorePreviousEntryForRetry c)) \<and> controller_ok (snd (restorePreviousEntryForRetry c))"
  using assms by (auto simp: restorePreviousEntryForRetry_def Let_def same_chain_def controller_ok_def position_ok_def)

lemma fallback_step_inv:
  assumes "fallback_inv chain m st"
  shows "fallback_inv chain m (fallback_step st call)"
proof -
  obtain c ss where st: "st = (c, ss)" by (cases st)
  have c: "fc_chain c = chain" "fc_maxAttempts c = m" "controller_ok c" using assms by (simp_all add: fallback_inv_def st)
  have keep: "same_chain c d \<and> controller_ok d \<Longrightarrow> fallback_inv chain m (d, ss)" for d
    using assms by (simp add: fallback_inv_def same_chain_def st)
  show ?thesis
  proof (cases call)
    case Call_snapshot
    then show ?thesis
      using assms by (auto simp: st fallback_step_def fallback_inv_def controller_ok_def snapshotRuntimeState_def)
  next
    case (Call_restore i)
    have "i < length ss \<Longrightarrow> fallback_inv chain m (restoreRuntimeState (ss ! i) c, ss)"
      using assms nth_mem [of i ss]
      by (auto simp: st fallback_inv_def controller_ok_def position_ok_def restoreRuntimeState_def)
    then show ?thesis using assms by (simp add: st fallback_step_def Call_restore)
  qed (use c(3) in \<open>simp_all add: st fallback_step_def keep advance_ok started_ok skip_ok discard_ok reset_ok
    seed_ok newTurn_ok failure_ok escaped_ok restorePrevious_ok\<close>)
qed

interpretation fbc: invariant_object fallback_step "fallback_inv chain m"
  by unfold_locales (rule fallback_step_inv)

section \<open>The attempts of a turn\<close>

text \<open>Inside a turn no call gives budget back: the requests that are charged at the transport boundary are
  counted by \<open>charges\<close>.\<close>

fun turn_call :: "fallback_call \<Rightarrow> bool" where
  "turn_call Call_started = True"
| "turn_call (Call_failure k r) = True"
| "turn_call (Call_escaped r adv) = True"
| "turn_call (Call_skip r) = True"
| "turn_call Call_advance = True"
| "turn_call Call_restorePrevious = True"
| "turn_call Call_snapshot = True"
| "turn_call _ = False"

fun charges :: "fallback_controller \<times> fallback_state list \<Rightarrow> fallback_call list \<Rightarrow> nat" where
  "charges st [] = 0"
| "charges st (call # calls) =
     (if call = Call_started then totalAttemptsUsed (onAttemptStarted (fst st)) - totalAttemptsUsed (fst st) else 0)
     + charges (fallback_step st call) calls"

lemma advance_total [simp]: "totalAttemptsUsed (snd (advance c)) = totalAttemptsUsed c"
  by (simp add: advance_def Let_def)

lemma failure_total: "totalAttemptsUsed c \<le> totalAttemptsUsed (snd (onAttemptFailure k r c))"
proof -
  have "totalAttemptsUsed c \<le> totalAttemptsUsed (charged_failure k r c)" by (simp add: charged_failure_def)
  then show ?thesis
    by (cases "\<not> truthy (currentSelector c) \<or> exhaustedForTurn c")
      (auto simp: onAttemptFailure_idle onAttemptFailure_charged Let_def)
qed

lemma turn_total:
  "turn_call call \<Longrightarrow> totalAttemptsUsed (fst st) \<le> totalAttemptsUsed (fst (fallback_step st call))"
  using failure_total
  by (cases st; cases call)
    (simp_all add: fallback_step_def onAttemptStarted_def recordEscapedArgumentsFailure_def onResolutionSkip_def
      restorePreviousEntryForRetry_def Let_def)

lemma max_total_bound:
  assumes "controller_ok c"
  shows "maxTotalAttempts c \<le> fc_maxAttempts c * entry_count c + (entry_count c - 1)"
proof -
  have "set (restoredEntryIndices c) \<subseteq> {..<entry_count c - 1}" "distinct (restoredEntryIndices c)"
    using assms by (auto simp: controller_ok_def position_ok_def)
  then have "length (restoredEntryIndices c) \<le> entry_count c - 1"
    using card_mono [of "{..<entry_count c - 1}"] by (metis card_lessThan distinct_card finite_lessThan)
  then show ?thesis by (simp add: maxTotalAttempts_def)
qed

lemma charge_bound:
  assumes "controller_ok c" "totalAttemptsUsed c < totalAttemptsUsed (onAttemptStarted c)"
  shows "totalAttemptsUsed (onAttemptStarted c) \<le> fc_maxAttempts c * entry_count c + (entry_count c - 1)"
  using assms max_total_bound [OF assms(1)] by (auto simp: onAttemptStarted_def split: if_splits)

lemma charges_bound:
  assumes "fallback_inv chain m st" "list_all turn_call calls"
  shows "charges st calls + totalAttemptsUsed (fst st)
    \<le> max (totalAttemptsUsed (fst st)) (m * length (fch_entries chain) + (length (fch_entries chain) - 1))"
  using assms
proof (induction calls arbitrary: st)
  case (Cons call calls)
  have "controller_ok (fst st)" and cm: "fc_chain (fst st) = chain" "fc_maxAttempts (fst st) = m"
    using Cons.prems(1) by (simp_all add: fallback_inv_def)
  then have "call = Call_started \<Longrightarrow> totalAttemptsUsed (fst st) < totalAttemptsUsed (onAttemptStarted (fst st)) \<Longrightarrow>
      totalAttemptsUsed (fst (fallback_step st call)) \<le> m * length (fch_entries chain) + (length (fch_entries chain) - 1)"
    "call = Call_started \<Longrightarrow> totalAttemptsUsed (fst (fallback_step st call)) = totalAttemptsUsed (onAttemptStarted (fst st))"
    using charge_bound [of "fst st"] by (cases st; simp add: fallback_step_def)+
  moreover have "charges (fallback_step st call) calls + totalAttemptsUsed (fst (fallback_step st call))
      \<le> max (totalAttemptsUsed (fst (fallback_step st call))) (m * length (fch_entries chain) + (length (fch_entries chain) - 1))"
    using Cons.IH [OF fallback_step_inv [OF Cons.prems(1)]] Cons.prems(2) by simp
  moreover have "totalAttemptsUsed (fst st) \<le> totalAttemptsUsed (fst (fallback_step st call))"
    using turn_total Cons.prems(2) by simp
  ultimately show ?case by (cases "call = Call_started") (simp, linarith, simp)
qed simp

section \<open>A turn in which every attempt fails\<close>

definition fail_all :: "fallback_controller \<Rightarrow> (trigger_class \<times> jstr) list \<Rightarrow> fallback_controller" where
  "fail_all c fs = foldl (\<lambda>c (k, r). snd (onAttemptFailure k r c)) c fs"

lemma nth_concat_replicate:
  "j < m * length xs \<Longrightarrow> concat (map (replicate m) xs) ! j = xs ! (j div m)"
proof (induction xs arbitrary: j)
  case (Cons x xs)
  show ?case
  proof (cases "j < m")
    case False
    then have "j - m < m * length xs" "j div m = Suc ((j - m) div m)" "0 < m"
      using Cons.prems by (cases "m = 0"; simp add: le_div_geq)+
    then show ?thesis using Cons.IH [of "j - m"] False by (simp add: nth_append)
  qed (simp add: nth_append)
qed simp

lemma length_concat_replicate [simp]: "length (concat (map (replicate m) xs)) = m * length xs"
  by (induction xs) auto

text \<open>Where the controller is after \<open>j\<close> failures.\<close>

definition after_failures :: "fallback_chain \<Rightarrow> nat \<Rightarrow> nat \<Rightarrow> fallback_controller \<Rightarrow> bool" where
  "after_failures chain m j c \<longleftrightarrow>
     fc_chain c = chain \<and> fc_maxAttempts c = m \<and> restoredEntryIndices c = [] \<and> \<not> attemptStarted c \<and>
     map ff_selector (tried c) = take j (concat (map (replicate m) (fch_entries chain))) \<and>
     (if j < m * length (fch_entries chain)
      then totalAttemptsUsed c = j \<and> activeIndex c = j div m \<and> attemptsUsed c = j mod m \<and> \<not> exhaustedForTurn c
      else exhaustedForTurn c)"

lemma one_failure:
  assumes "after_failures chain m j c" "0 < m" "[] \<notin> set (fch_entries chain)"
  shows "after_failures chain m (Suc j) (snd (onAttemptFailure k r c))"
proof (cases "j < m * length (fch_entries chain)")
  case True
  let ?es = "fch_entries chain" and ?d = "charged_failure k r c"
  have c: "fc_chain c = chain" "fc_maxAttempts c = m" "restoredEntryIndices c = []" "\<not> attemptStarted c"
    "totalAttemptsUsed c = j" "activeIndex c = j div m" "attemptsUsed c = j mod m" "\<not> exhaustedForTurn c"
    "map ff_selector (tried c) = take j (concat (map (replicate m) ?es))"
    using assms(1) True by (simp_all add: after_failures_def)
  have lt: "j div m < length ?es" using True assms(2) by (simp add: less_mult_imp_div_less mult.commute)
  then have sel: "currentSelector c = Some (?es ! (j div m))" using c by (simp add: currentSelector_def)
  moreover have "?es ! (j div m) \<noteq> []" using assms(3) nth_mem [OF lt] by metis
  ultimately have tc: "truthy (currentSelector c)" by (simp add: truthy_def)
  have tr: "map ff_selector (tried ?d) = take (Suc j) (concat (map (replicate m) ?es))"
    using True sel c by (simp add: charged_failure_def take_Suc_conv_app_nth nth_concat_replicate)
  have d: "totalAttemptsUsed ?d = Suc j" "attemptsUsed ?d = Suc (j mod m)" "\<not> attemptStarted ?d"
    "maxTotalAttempts c = m * length ?es"
    using c by (simp_all add: charged_failure_def maxTotalAttempts_def)
  have dm: "Suc (j mod m) < m \<Longrightarrow> Suc j div m = j div m \<and> Suc j mod m = Suc (j mod m)"
    "\<not> Suc (j mod m) < m \<Longrightarrow> Suc j div m = Suc (j div m) \<and> Suc j mod m = 0"
    using assms(2) mod_less_divisor [OF assms(2), of j] by (auto simp: div_Suc mod_Suc)
  have "\<not> Suc (j mod m) < m \<Longrightarrow> Suc j < m * length ?es \<Longrightarrow> Suc (j div m) < length ?es"
    using dm(2) assms(2) less_mult_imp_div_less [of "Suc j" "length ?es" m] by (simp add: mult.commute)
  then show ?thesis
    using c tc tr d dm by (auto simp: after_failures_def onAttemptFailure_charged Let_def advance_def)
next
  case False
  then show ?thesis using assms(1) by (simp add: after_failures_def onAttemptFailure_idle)
qed

lemma many_failures:
  assumes "after_failures chain m j c" "0 < m" "[] \<notin> set (fch_entries chain)"
  shows "after_failures chain m (j + length fs) (fail_all c fs)"
  using assms(1)
proof (induction fs arbitrary: j c)
  case (Cons f fs)
  then show ?case using Cons.IH [OF one_failure [OF Cons.prems assms(2,3), of "fst f" "snd f"]]
    by (simp add: fail_all_def split_def)
qed (simp add: fail_all_def)

lemma new_after_failures:
  "new_controller chain n = Inr c \<Longrightarrow>
   \<exists>m. n = Some (int m) \<and> 0 < m \<and> after_failures chain m 0 c \<and> fallback_inv chain m (c, [])"
  by (auto simp: new_controller_def after_failures_def fallback_inv_def controller_ok_def position_ok_def
      split: option.splits if_splits intro: exI [of _ "nat _"])

section \<open>Properties\<close>

definition demo_chain :: fallback_chain where
  "demo_chain = \<lparr>fch_role = js ''default'', fch_entries = [js ''a'', js ''b''], fch_origin = js ''config'',
     fch_identity = None, fch_explicitHead = True\<rparr>"

definition demo_controller :: fallback_controller where
  "demo_controller = \<lparr>fc_chain = demo_chain, fc_maxAttempts = 2, activeIndex = 0, attemptsUsed = 0,
     totalAttemptsUsed = 0, attemptStarted = False, restoredEntryIndices = [], tried = [], skips = [],
     exhaustedForTurn = False\<rparr>"

lemma demo_new: "new_controller demo_chain (Some (int 2)) = Inr demo_controller"
  by (simp add: new_controller_def demo_controller_def demo_chain_def)

text \<open>C24: a turn in which every attempt fails ends: a new controller is exhausted after exactly
  \<open>maxAttempts\<close> failures per entry, having tried the entries in the order of the chain, each
  \<open>maxAttempts\<close> times in a row.\<close>

theorem fallback_turn_ends:
  assumes "new_controller chain (Some (int m)) = Inr c" "[] \<notin> set (fch_entries chain)"
  shows "isExhausted (fail_all c fs) = (m * length (fch_entries chain) \<le> length fs) \<and>
    map ff_selector (tried (fail_all c fs)) = take (length fs) (concat (map (replicate m) (fch_entries chain)))"
proof -
  have "0 < m" "after_failures chain m 0 c" using new_after_failures [OF assms(1)] by auto
  from many_failures [OF this(2,1) assms(2), of fs] show ?thesis
    by (auto simp: after_failures_def isExhausted_def not_le split: if_splits)
qed

theorem fallback_turn_ends_witness:
  "isExhausted (fail_all demo_controller (replicate 4 (Server, []))) \<and>
   map ff_selector (tried (fail_all demo_controller (replicate 4 (Server, [])))) = [js ''a'', js ''a'', js ''b'', js ''b'']"
  using fallback_turn_ends [OF demo_new, of "replicate 4 (Server, [])"] by (simp add: demo_chain_def numeral_2_eq_2 js_def)

text \<open>Whatever methods are called, in whatever order, and whichever snapshots are restored, the
  controller stands on an entry of the chain or is exhausted past its end, never both, and has restored
  only non-terminal entries, each at most once; so its budget never exceeds \<open>maxAttempts\<close> per entry
  plus one per non-terminal entry.\<close>

theorem fallback_position:
  assumes "new_controller chain (Some (int m)) = Inr c"
  shows "controller_ok (fst (foldl fallback_step (c, []) calls)) \<and>
    maxTotalAttempts (fst (foldl fallback_step (c, []) calls)) \<le> m * length (fch_entries chain) + (length (fch_entries chain) - 1)"
proof -
  have "fallback_inv chain m (c, [])" using new_after_failures [OF assms] by auto
  then have "fallback_inv chain m (foldl fallback_step (c, []) calls)" by (rule fbc.run_inv)
  then show ?thesis using max_total_bound by (auto simp: fallback_inv_def)
qed

theorem fallback_position_witness:
  "controller_ok (fst (foldl fallback_step (demo_controller, []) [Call_skip [], Call_restorePrevious])) \<and>
   maxTotalAttempts (fst (foldl fallback_step (demo_controller, []) [Call_skip [], Call_restorePrevious])) \<le> 5"
  using fallback_position [OF demo_new, of "[Call_skip [], Call_restorePrevious]"] by (simp add: demo_chain_def)

text \<open>Within one turn, however attempts, failures, skips and credential rotations interleave, the
  requests charged at the transport boundary are at most \<open>maxAttempts\<close> per entry plus one per
  non-terminal entry.\<close>

theorem fallback_charges_bounded:
  assumes "new_controller chain (Some (int m)) = Inr c" "list_all turn_call calls"
  shows "charges (c, []) calls \<le> m * length (fch_entries chain) + (length (fch_entries chain) - 1)"
proof -
  have "fallback_inv chain m (c, [])" "totalAttemptsUsed c = 0"
    using new_after_failures [OF assms(1)] assms(1) by (auto simp: new_controller_def split: if_splits)
  from charges_bound [OF this(1) assms(2)] this(2) show ?thesis by simp
qed

theorem fallback_charges_bounded_witness:
  "charges (demo_controller, []) (replicate 9 Call_started) \<le> 5"
  using fallback_charges_bounded [OF demo_new, of "replicate 9 Call_started"] by (simp add: demo_chain_def list_all_iff)

text \<open>An entry restored for a rotated credential gets exactly one more attempt: the next failure moves
  on to the entry the controller came from, with all of that entry's attempts.\<close>

theorem restored_entry_one_attempt:
  assumes "controller_ok c" "0 < fc_maxAttempts c" "[] \<notin> set (fch_entries (fc_chain c))"
    and "restorePreviousEntryForRetry c = (True, d)"
  shows "\<exists>e. onAttemptFailure k r d = (Advance, e) \<and> activeIndex e = activeIndex c \<and> attemptsUsed e = 0"
proof -
  have i: "0 < activeIndex c" "\<not> exhaustedForTurn c" "activeIndex c < entry_count c" "totalAttemptsUsed c < maxTotalAttempts c"
    "activeIndex c - 1 \<notin> set (restoredEntryIndices c)"
    and d: "d = c\<lparr>restoredEntryIndices := set_add (activeIndex c - 1) (restoredEntryIndices c),
      activeIndex := activeIndex c - 1, attemptsUsed := fc_maxAttempts c - 1, exhaustedForTurn := False, attemptStarted := False\<rparr>"
    using assms(1,4) by (auto simp: restorePreviousEntryForRetry_def Let_def controller_ok_def position_ok_def
        nat_diff_distrib' split: if_splits)
  have "fch_entries (fc_chain c) ! (activeIndex c - 1) \<noteq> []"
    using assms(3) nth_mem [of "activeIndex c - 1" "fch_entries (fc_chain c)"] i by (metis less_imp_diff_less)
  then have "truthy (currentSelector d)" using i by (auto simp: d currentSelector_def truthy_def)
  then show ?thesis
    using i assms(2)
    by (auto simp: onAttemptFailure_charged Let_def d charged_failure_def maxTotalAttempts_def set_add_def advance_def)
qed

theorem restored_entry_one_attempt_witness:
  "\<exists>e. onAttemptFailure Auth [] (demo_controller\<lparr>restoredEntryIndices := [0], activeIndex := 0, attemptsUsed := 1, totalAttemptsUsed := 2\<rparr>)
     = (Advance, e) \<and> activeIndex e = 1 \<and> attemptsUsed e = 0"
  using restored_entry_one_attempt [of "demo_controller\<lparr>activeIndex := 1, totalAttemptsUsed := 2\<rparr>"
      "demo_controller\<lparr>restoredEntryIndices := [0], activeIndex := 0, attemptsUsed := 1, totalAttemptsUsed := 2\<rparr>" Auth "[]"]
  by (simp add: demo_controller_def demo_chain_def controller_ok_def position_ok_def js_eval
      restorePreviousEntryForRetry_def maxTotalAttempts_def set_add_def)

text \<open>A fallback delay is never negative and never above the exponential delay of its attempt, nor above
  the configured maximum when there is one; and it does not depend on how far outside \<open>[0, 1]\<close> the random
  source strays.\<close>

theorem fallback_delay_bounds:
  "0 \<le> effectiveFallbackDelay base maxDelay k rnd \<and>
   of_int (effectiveFallbackDelay base maxDelay k rnd) \<le>
     max 0 (if maxDelay > 0 then min (base * 2 ^ nat (max 0 (k - 1))) maxDelay else base * 2 ^ nat (max 0 (k - 1))) \<and>
   effectiveFallbackDelay base maxDelay k rnd = effectiveFallbackDelay base maxDelay k (max 0 (min 1 rnd))"
proof -
  define cap where "cap = (if maxDelay > 0 then min (base * 2 ^ nat (max 0 (k - 1))) maxDelay else base * 2 ^ nat (max 0 (k - 1)))"
  define x where "x = max 0 cap * max 0 (min 1 rnd)"
  have "0 \<le> x" "x \<le> max 0 cap" unfolding x_def by (simp, rule mult_left_le, auto)
  moreover have "of_int \<lfloor>x\<rfloor> \<le> x" by simp
  ultimately have "0 \<le> \<lfloor>x\<rfloor>" "of_int \<lfloor>x\<rfloor> \<le> max 0 cap" by (simp, linarith)
  moreover have delay: "effectiveFallbackDelay base maxDelay k r = \<lfloor>max 0 cap * max 0 (min 1 r)\<rfloor>" for r
    by (simp only: effectiveFallbackDelay_def cappedExponentialWithFullJitter_def Let_def cap_def)
  moreover have "max 0 (min 1 (max 0 (min 1 rnd))) = max 0 (min 1 rnd)" by simp
  ultimately show ?thesis by (simp only: delay x_def cap_def simp_thms)
qed

end
