(* ===== verification/Attempt_Scope.thy ===== *)
theory Attempt_Scope
  imports Js_Prelude "HOL-Library.AList"
begin

text \<open>
  Attempt scopes and the authority that says which of them is current (\<open>agent/src/attempt-scope.ts\<close>).

  A \<open>LineageCurrentness\<close> is a closure over two variables that its clients share, so the authority's side map
  holds references: \<open>au_heap\<close> is the store of these objects and a reference is an index of it.  The main
  lineage is owned by the authority alone.  \<open>crypto.randomUUID()\<close> is an argument of the operations that call
  it.  An unregister closure is the pair of the lineage and the reference it captured.
\<close>

section \<open>Scopes and lineages\<close>

datatype lineage = Main | Side jstr

record attempt_scope =
  sc_attemptId :: jstr
  sc_generation :: nat
  sc_lineage :: lineage

definition attemptScopesEqual :: "attempt_scope \<Rightarrow> attempt_scope \<Rightarrow> bool" where
  "attemptScopesEqual a b \<longleftrightarrow>
     sc_attemptId a = sc_attemptId b \<and> sc_generation a = sc_generation b \<and> sc_lineage a = sc_lineage b"

record lineage_currentness =
  lc_lineage :: lineage
  lc_current :: nat
  lc_attemptId :: "jstr option"

definition createLineageCurrentness :: "lineage \<Rightarrow> lineage_currentness" where
  "createLineageCurrentness l = \<lparr>lc_lineage = l, lc_current = 0, lc_attemptId = None\<rparr>"

definition lineage_isCurrent :: "lineage_currentness \<Rightarrow> attempt_scope \<Rightarrow> bool" where
  "lineage_isCurrent a sc \<longleftrightarrow>
     sc_lineage sc = lc_lineage a \<and> sc_generation sc = lc_current a \<and> lc_attemptId a = Some (sc_attemptId sc)"

definition lineage_advance :: "jstr \<Rightarrow> lineage_currentness \<Rightarrow> nat \<times> lineage_currentness" where
  "lineage_advance u a =
     (let a' = a\<lparr>lc_attemptId := Some u, lc_current := lc_current a + 1\<rparr> in (lc_current a', a'))"

text \<open>The stand-alone minter: a map from lineages to generations.\<close>

definition mint :: "lineage \<Rightarrow> jstr \<Rightarrow> (lineage \<times> nat) list \<Rightarrow> attempt_scope \<times> (lineage \<times> nat) list" where
  "mint l u gens =
     (let gen = (case map_of gens l of Some g \<Rightarrow> g | None \<Rightarrow> 0) + 1
      in (\<lparr>sc_attemptId = u, sc_generation = gen, sc_lineage = l\<rparr>, AList.update l gen gens))"

section \<open>The authority\<close>

definition SIDE_LRU_CAP :: nat where
  "SIDE_LRU_CAP = 1024"

record scope_authority =
  au_main :: lineage_currentness
  au_sides :: "(lineage \<times> nat) list"
  au_order :: "lineage list"
  au_retired :: "lineage list"
  au_heap :: "lineage_currentness list"

definition createAttemptScopeAuthority :: "lineage_currentness list \<Rightarrow> scope_authority" where
  "createAttemptScopeAuthority heap =
     \<lparr>au_main = createLineageCurrentness Main, au_sides = [], au_order = [], au_retired = [], au_heap = heap\<rparr>"

text \<open>The first retired lineage in registration order, and the order without it.\<close>

fun take_retired :: "lineage list \<Rightarrow> lineage list \<Rightarrow> (lineage \<times> lineage list) option" where
  "take_retired retired [] = None"
| "take_retired retired (l # ls) =
     (if l \<in> set retired then Some (l, ls)
      else map_option (\<lambda>(x, rest). (x, l # rest)) (take_retired retired ls))"

lemma take_retired_Some:
  "take_retired retired ls = Some (x, rest) \<Longrightarrow>
   x \<in> set retired \<and> x \<in> set ls \<and> rest = remove1 x ls \<and> length rest < length ls"
  by (induction ls arbitrary: rest) (auto split: if_splits)

lemma take_retired_None: "take_retired retired ls = None \<longleftrightarrow> set ls \<inter> set retired = {}"
  by (induction ls) auto

function evictRetiredIfNeeded :: "scope_authority \<Rightarrow> scope_authority" where
  "evictRetiredIfNeeded A =
     (if length (au_order A) > SIDE_LRU_CAP then
        (case take_retired (au_retired A) (au_order A) of
           None \<Rightarrow> A
         | Some (removed, rest) \<Rightarrow>
             evictRetiredIfNeeded (A\<lparr>au_order := rest, au_sides := AList.delete removed (au_sides A),
                                     au_retired := removeAll removed (au_retired A)\<rparr>))
      else A)"
  by auto
termination
  by (relation "measure (\<lambda>A. length (au_order A))") (auto dest: take_retired_Some)

declare evictRetiredIfNeeded.simps [simp del]

definition mintFor :: "lineage \<Rightarrow> jstr \<Rightarrow> lineage_currentness \<Rightarrow> attempt_scope \<times> lineage_currentness" where
  "mintFor l u a =
     (case lineage_advance u a of (gen, a') \<Rightarrow> (\<lparr>sc_attemptId = u, sc_generation = gen, sc_lineage = l\<rparr>, a'))"

definition registerSide :: "lineage \<Rightarrow> nat \<Rightarrow> scope_authority \<Rightarrow> scope_authority" where
  "registerSide l ref A =
     (let order = (if map_of (au_sides A) l \<noteq> None then remove1 l (au_order A) else au_order A)
      in evictRetiredIfNeeded (A\<lparr>au_sides := AList.update l ref (au_sides A), au_order := order @ [l]\<rparr>))"

definition unregisterSide :: "lineage \<Rightarrow> nat \<Rightarrow> scope_authority \<Rightarrow> scope_authority" where
  "unregisterSide l ref A =
     (if map_of (au_sides A) l = Some ref
      then evictRetiredIfNeeded (A\<lparr>au_retired := set_add l (au_retired A)\<rparr>)
      else A)"

definition authority_isCurrent :: "scope_authority \<Rightarrow> attempt_scope \<Rightarrow> bool" where
  "authority_isCurrent A sc =
     (if sc_lineage sc = Main then lineage_isCurrent (au_main A) sc
      else if sc_lineage sc \<in> set (au_retired A) then False
      else case map_of (au_sides A) (sc_lineage sc) of
             Some ref \<Rightarrow> lineage_isCurrent (au_heap A ! ref) sc
           | None \<Rightarrow> False)"

definition advanceMain :: "jstr \<Rightarrow> scope_authority \<Rightarrow> nat \<times> scope_authority" where
  "advanceMain u A = (case lineage_advance u (au_main A) of (g, a) \<Rightarrow> (g, A\<lparr>au_main := a\<rparr>))"

definition mintMain :: "jstr \<Rightarrow> scope_authority \<Rightarrow> attempt_scope \<times> scope_authority" where
  "mintMain u A = (case mintFor Main u (au_main A) of (sc, a) \<Rightarrow> (sc, A\<lparr>au_main := a\<rparr>))"

text \<open>\<open>mintSide\<close> takes the two identifiers it draws: of the lineage and of the attempt.\<close>

definition mintSide :: "jstr \<Rightarrow> jstr \<Rightarrow> scope_authority \<Rightarrow> (attempt_scope \<times> lineage \<times> nat) \<times> scope_authority" where
  "mintSide lu u A =
     (let l = Side lu;
          ref = length (au_heap A);
          A1 = registerSide l ref (A\<lparr>au_heap := au_heap A @ [createLineageCurrentness l]\<rparr>);
          (sc, a) = mintFor l u (au_heap A1 ! ref)
      in ((sc, l, ref), A1\<lparr>au_heap := (au_heap A1)[ref := a]\<rparr>))"

section \<open>Runs\<close>

text \<open>The calls of the authority's clients, who may also create currentness objects of their own, register
  them and advance them.\<close>

datatype scope_call =
    Mint_main jstr
  | Advance_main jstr
  | Mint_side jstr jstr
  | Create lineage
  | Register lineage nat
  | Unregister lineage nat
  | Bump nat jstr

definition scope_step :: "scope_authority \<Rightarrow> scope_call \<Rightarrow> scope_authority" where
  "scope_step A call =
     (case call of
        Mint_main u \<Rightarrow> snd (mintMain u A)
      | Advance_main u \<Rightarrow> snd (advanceMain u A)
      | Mint_side lu u \<Rightarrow> snd (mintSide lu u A)
      | Create l \<Rightarrow> A\<lparr>au_heap := au_heap A @ [createLineageCurrentness l]\<rparr>
      | Register l ref \<Rightarrow> (if ref < length (au_heap A) then registerSide l ref A else A)
      | Unregister l ref \<Rightarrow> unregisterSide l ref A
      | Bump ref u \<Rightarrow>
          (if ref < length (au_heap A)
           then A\<lparr>au_heap := (au_heap A)[ref := snd (lineage_advance u (au_heap A ! ref))]\<rparr> else A))"

text \<open>The bookkeeping of the side lineages: the map and the order have the same lineages, each once; only
  registered lineages are retired; over the cap nothing retired is kept; references are allocated; the main
  lineage stays the main lineage.\<close>

definition authority_inv :: "scope_authority \<Rightarrow> bool" where
  "authority_inv A \<longleftrightarrow>
     distinct (au_order A) \<and> set (au_order A) = dom (map_of (au_sides A)) \<and>
     lc_lineage (au_main A) = Main \<and>
     set (au_retired A) \<subseteq> set (au_order A) \<and> (SIDE_LRU_CAP < length (au_order A) \<longrightarrow> au_retired A = []) \<and>
     ran (map_of (au_sides A)) \<subseteq> {..<length (au_heap A)}"

text \<open>The same without the cap, which is what holds before an eviction.\<close>

definition sides_ok :: "scope_authority \<Rightarrow> bool" where
  "sides_ok A \<longleftrightarrow>
     distinct (au_order A) \<and> set (au_order A) = dom (map_of (au_sides A)) \<and>
     lc_lineage (au_main A) = Main \<and>
     set (au_retired A) \<subseteq> set (au_order A) \<and> ran (map_of (au_sides A)) \<subseteq> {..<length (au_heap A)}"

lemma evict_heap [simp]:
  "au_heap (evictRetiredIfNeeded A) = au_heap A" "au_main (evictRetiredIfNeeded A) = au_main A"
  by (induction A rule: evictRetiredIfNeeded.induct; subst evictRetiredIfNeeded.simps; simp split: option.splits)+

text \<open>One round of the eviction loop.\<close>

abbreviation without_side :: "lineage \<Rightarrow> scope_authority \<Rightarrow> scope_authority" where
  "without_side x A \<equiv> A\<lparr>au_order := remove1 x (au_order A), au_sides := AList.delete x (au_sides A),
     au_retired := removeAll x (au_retired A)\<rparr>"

lemma evict_induct [consumes 1, case_names stop again]:
  assumes "P A"
    and "\<And>A. P A \<Longrightarrow> length (au_order A) \<le> SIDE_LRU_CAP \<or> set (au_order A) \<inter> set (au_retired A) = {} \<Longrightarrow> Q A A"
    and "\<And>A x. P A \<Longrightarrow> x \<in> set (au_retired A) \<Longrightarrow> x \<in> set (au_order A) \<Longrightarrow>
           P (without_side x A) \<and> (\<forall>B. Q (without_side x A) B \<longrightarrow> Q A B)"
  shows "Q A (evictRetiredIfNeeded A)"
  using assms(1)
proof (induction A rule: evictRetiredIfNeeded.induct)
  case (1 A)
  show ?case
  proof (cases "length (au_order A) > SIDE_LRU_CAP")
    case big: True
    show ?thesis
    proof (cases "take_retired (au_retired A) (au_order A)")
      case None
      then have "evictRetiredIfNeeded A = A" by (subst evictRetiredIfNeeded.simps) simp
      then show ?thesis using assms(2) [OF 1(2)] None by (simp add: take_retired_None)
    next
      case (Some p)
      then obtain x rest where x: "take_retired (au_retired A) (au_order A) = Some (x, rest)" by (cases p) auto
      from take_retired_Some [OF this] have r: "x \<in> set (au_retired A)" "x \<in> set (au_order A)" "rest = remove1 x (au_order A)" by auto
      have "evictRetiredIfNeeded A = evictRetiredIfNeeded (without_side x A)"
        using big x r by (subst evictRetiredIfNeeded.simps) simp
      then show ?thesis using 1(1) [OF big x refl] assms(3) [OF 1(2) r(1,2)] r(3) by simp
    qed
  qed (use assms(2) [OF 1(2)] in \<open>simp add: evictRetiredIfNeeded.simps\<close>)
qed

lemma evict_inv: "sides_ok A \<Longrightarrow> authority_inv (evictRetiredIfNeeded A)"
proof (induction A rule: evict_induct)
  case (stop A)
  then have "SIDE_LRU_CAP < length (au_order A) \<Longrightarrow> set (au_retired A) = {}"
    unfolding sides_ok_def by (metis Int_absorb1 not_less)
  with stop show ?case by (auto simp: authority_inv_def sides_ok_def)
next
  case (again A x)
  then show ?case by (auto simp: sides_ok_def AList.delete_conv ran_def split: if_splits)
qed

text \<open>An eviction leaves every lineage that is not retired as it was.\<close>

lemma evict_live:
  "l \<notin> set (au_retired A) \<Longrightarrow>
   l \<notin> set (au_retired (evictRetiredIfNeeded A)) \<and>
   map_of (au_sides (evictRetiredIfNeeded A)) l = map_of (au_sides A) l"
  by (induction A rule: evict_induct) (auto simp: AList.delete_conv)

text \<open>Nothing that is retired or unknown comes back.\<close>

lemma evict_gone:
  "l \<in> set (au_retired A) \<or> map_of (au_sides A) l = None \<Longrightarrow>
   l \<in> set (au_retired (evictRetiredIfNeeded A)) \<or> map_of (au_sides (evictRetiredIfNeeded A)) l = None"
  by (induction A rule: evict_induct) (auto simp: AList.delete_conv)

lemma sides_ok_inv: "authority_inv A \<Longrightarrow> sides_ok A"
  by (auto simp: authority_inv_def sides_ok_def)

lemma register_inv:
  assumes "authority_inv A" "ref < length (au_heap A)"
  shows "authority_inv (registerSide l ref A)"
  unfolding registerSide_def Let_def
  by (rule evict_inv)
    (use assms in \<open>auto simp: sides_ok_def authority_inv_def update_conv ran_def split: if_splits\<close>)

lemma unregister_inv: "authority_inv A \<Longrightarrow> authority_inv (unregisterSide l ref A)"
  using evict_inv [of "A\<lparr>au_retired := set_add l (au_retired A)\<rparr>"] sides_ok_inv [of A]
  by (auto simp: unregisterSide_def sides_ok_def)

lemma heap_inv:
  "authority_inv A \<Longrightarrow> length (au_heap A) \<le> length h \<Longrightarrow> authority_inv (A\<lparr>au_heap := h\<rparr>)"
  by (auto simp: authority_inv_def)

lemma main_inv: "authority_inv A \<Longrightarrow> lc_lineage a = Main \<Longrightarrow> authority_inv (A\<lparr>au_main := a\<rparr>)"
  by (auto simp: authority_inv_def)

lemma scope_step_inv: "authority_inv A \<Longrightarrow> authority_inv (scope_step A call)"
proof (cases call)
  case (Mint_side lu u)
  assume "authority_inv A"
  then have "authority_inv (registerSide (Side lu) (length (au_heap A)) (A\<lparr>au_heap := au_heap A @ [createLineageCurrentness (Side lu)]\<rparr>))"
    by (intro register_inv heap_inv) simp_all
  then show ?thesis
    by (simp add: Mint_side scope_step_def mintSide_def Let_def split_def heap_inv)
qed (auto simp: scope_step_def mintMain_def advanceMain_def mintFor_def lineage_advance_def Let_def split_def
  heap_inv register_inv unregister_inv intro!: main_inv, auto simp: authority_inv_def)

interpretation asc: invariant_object scope_step authority_inv
  by unfold_locales (rule scope_step_inv)

section \<open>Currentness over a run\<close>

text \<open>The calls that do not concern a lineage or the object registered for it.\<close>

definition keeps :: "lineage \<Rightarrow> nat \<Rightarrow> scope_call \<Rightarrow> bool" where
  "keeps l ref call \<longleftrightarrow>
     (case call of
        Mint_main u \<Rightarrow> l \<noteq> Main
      | Advance_main u \<Rightarrow> l \<noteq> Main
      | Mint_side lu u \<Rightarrow> l \<noteq> Side lu
      | Create l' \<Rightarrow> True
      | Register l' r \<Rightarrow> l = Main \<or> l' \<noteq> l
      | Unregister l' r \<Rightarrow> l = Main \<or> l' \<noteq> l
      | Bump r u \<Rightarrow> l = Main \<or> r \<noteq> ref)"

definition stands :: "attempt_scope \<Rightarrow> nat \<Rightarrow> scope_authority \<Rightarrow> bool" where
  "stands sc ref A \<longleftrightarrow>
     (if sc_lineage sc = Main then lineage_isCurrent (au_main A) sc
      else sc_lineage sc \<notin> set (au_retired A) \<and> map_of (au_sides A) (sc_lineage sc) = Some ref \<and>
           ref < length (au_heap A) \<and> lineage_isCurrent (au_heap A ! ref) sc)"

lemma stands_isCurrent: "stands sc ref A \<Longrightarrow> authority_isCurrent A sc"
  by (auto simp: stands_def authority_isCurrent_def split: if_splits)

lemma stands_evict: "stands sc ref A \<Longrightarrow> stands sc ref (evictRetiredIfNeeded A)"
  using evict_live [of "sc_lineage sc" A] by (auto simp: stands_def split: if_splits)

lemma stands_register:
  "stands sc ref A \<Longrightarrow> sc_lineage sc = Main \<or> l \<noteq> sc_lineage sc \<Longrightarrow> stands sc ref (registerSide l r A)"
  unfolding registerSide_def Let_def by (rule stands_evict) (auto simp: stands_def update_conv)

lemma stands_unregister:
  "stands sc ref A \<Longrightarrow> sc_lineage sc = Main \<or> l \<noteq> sc_lineage sc \<Longrightarrow> stands sc ref (unregisterSide l r A)"
  using stands_evict [of sc ref "A\<lparr>au_retired := set_add l (au_retired A)\<rparr>"]
  by (auto simp: unregisterSide_def stands_def split: if_splits)

lemma stands_heap:
  "stands sc ref A \<Longrightarrow> length (au_heap A) \<le> length h \<Longrightarrow>
   sc_lineage sc = Main \<or> h ! ref = au_heap A ! ref \<Longrightarrow> stands sc ref (A\<lparr>au_heap := h\<rparr>)"
  by (auto simp: stands_def split: if_splits)

lemma register_heap [simp]:
  "au_heap (registerSide l r A) = au_heap A" "au_main (registerSide l r A) = au_main A"
  "au_heap (unregisterSide l r A) = au_heap A" "au_main (unregisterSide l r A) = au_main A"
  by (simp_all add: registerSide_def unregisterSide_def)

lemma stands_lt: "stands sc ref A \<Longrightarrow> sc_lineage sc = Main \<or> ref < length (au_heap A)"
  by (auto simp: stands_def split: if_splits)

lemma stands_step:
  assumes "stands sc ref A" "keeps (sc_lineage sc) ref call"
  shows "stands sc ref (scope_step A call)"
proof (cases call)
  case (Mint_side lu u)
  let ?A = "A\<lparr>au_heap := au_heap A @ [createLineageCurrentness (Side lu)]\<rparr>"
  have "stands sc ref ?A" using assms(1) stands_lt [OF assms(1)] by (intro stands_heap) (auto simp: nth_append)
  then have "stands sc ref (registerSide (Side lu) (length (au_heap A)) ?A)"
    using assms(2) Mint_side by (intro stands_register) (auto simp: keeps_def)
  then show ?thesis
    using stands_lt [OF assms(1)]
    by (auto simp: Mint_side scope_step_def mintSide_def Let_def split_def nth_append intro!: stands_heap)
next
  case (Bump r u)
  then show ?thesis using assms by (auto simp: scope_step_def keeps_def intro!: stands_heap)
next
  case (Create l)
  then show ?thesis
    using assms(1) stands_lt [OF assms(1)] by (auto simp: scope_step_def nth_append intro!: stands_heap)
qed (use assms in \<open>auto simp: scope_step_def keeps_def mintMain_def advanceMain_def split_def stands_register
  stands_unregister, auto simp: stands_def split: if_splits\<close>)

text \<open>A scope that is superseded, disposed or unknown.\<close>

definition dead :: "attempt_scope \<Rightarrow> scope_authority \<Rightarrow> bool" where
  "dead sc A \<longleftrightarrow>
     (if sc_lineage sc = Main then sc_generation sc < lc_current (au_main A)
      else sc_lineage sc \<in> set (au_retired A) \<or> map_of (au_sides A) (sc_lineage sc) = None)"

fun registers :: "lineage \<Rightarrow> scope_call \<Rightarrow> bool" where
  "registers l (Register l' r) = (l' = l)"
| "registers l (Mint_side lu u) = (Side lu = l)"
| "registers l _ = False"

lemma dead_not_current: "dead sc A \<Longrightarrow> \<not> authority_isCurrent A sc"
  by (auto simp: dead_def authority_isCurrent_def lineage_isCurrent_def split: if_splits)

lemma dead_evict: "dead sc A \<Longrightarrow> dead sc (evictRetiredIfNeeded A)"
  using evict_gone [of "sc_lineage sc" A] by (auto simp: dead_def split: if_splits)

lemma dead_register:
  "dead sc A \<Longrightarrow> sc_lineage sc = Main \<or> l \<noteq> sc_lineage sc \<Longrightarrow> dead sc (registerSide l r A)"
  unfolding registerSide_def Let_def by (rule dead_evict) (auto simp: dead_def update_conv split: if_splits)

lemma dead_unregister: "dead sc A \<Longrightarrow> dead sc (unregisterSide l r A)"
  using dead_evict [of sc "A\<lparr>au_retired := set_add l (au_retired A)\<rparr>"]
  by (auto simp: unregisterSide_def dead_def split: if_splits)

lemma dead_heap: "dead sc (A\<lparr>au_heap := h\<rparr>) = dead sc A"
  by (simp add: dead_def)

lemma dead_step:
  assumes "dead sc A" "\<not> registers (sc_lineage sc) call"
  shows "dead sc (scope_step A call)"
proof (cases call)
  case (Mint_side lu u)
  have "dead sc (registerSide (Side lu) (length (au_heap A)) (A\<lparr>au_heap := au_heap A @ [createLineageCurrentness (Side lu)]\<rparr>))"
    using assms Mint_side by (intro dead_register) (simp_all add: dead_heap)
  then show ?thesis by (simp add: Mint_side scope_step_def mintSide_def Let_def split_def dead_heap)
qed (use assms in \<open>auto simp: scope_step_def mintMain_def advanceMain_def mintFor_def lineage_advance_def Let_def
  dead_heap dead_register dead_unregister, auto simp: dead_def split: if_splits\<close>)

section \<open>Properties\<close>

lemma new_authority_inv: "authority_inv (createAttemptScopeAuthority heap)"
  by (simp add: authority_inv_def createAttemptScopeAuthority_def createLineageCurrentness_def)

text \<open>After any calls, the side map and the registration order list the same lineages, each once, only
  registered lineages are retired, and more than 1024 lineages are kept only when none of them is
  retired.\<close>

theorem scope_authority_invariant:
  "authority_inv (foldl scope_step (createAttemptScopeAuthority heap) calls)"
  by (rule asc.run_inv [OF new_authority_inv])

text \<open>A freshly minted scope is current at once.\<close>

theorem minted_scope_current:
  assumes "authority_inv A" "map_of (au_sides A) (Side lu) = None"
  shows "authority_isCurrent (snd (mintSide lu u A)) (fst (fst (mintSide lu u A))) \<and>
    authority_isCurrent (snd (mintMain u A)) (fst (mintMain u A))"
proof
  let ?A = "A\<lparr>au_heap := au_heap A @ [createLineageCurrentness (Side lu)]\<rparr>" and ?r = "length (au_heap A)"
  have "Side lu \<notin> set (au_retired A)" using assms by (auto simp: authority_inv_def)
  then have "Side lu \<notin> set (au_retired (registerSide (Side lu) ?r ?A)) \<and> map_of (au_sides (registerSide (Side lu) ?r ?A)) (Side lu) = Some ?r"
    using evict_live [of "Side lu"] by (simp add: registerSide_def update_conv)
  then show "authority_isCurrent (snd (mintSide lu u A)) (fst (fst (mintSide lu u A)))"
    by (simp add: mintSide_def Let_def split_def authority_isCurrent_def mintFor_def lineage_advance_def
        lineage_isCurrent_def createLineageCurrentness_def)
  show "authority_isCurrent (snd (mintMain u A)) (fst (mintMain u A))"
    using assms by (simp add: mintMain_def split_def authority_isCurrent_def mintFor_def lineage_advance_def Let_def
        lineage_isCurrent_def authority_inv_def)
qed

abbreviation demo_authority :: scope_authority where
  "demo_authority \<equiv> createAttemptScopeAuthority []"

theorem minted_scope_current_witness:
  "authority_isCurrent (snd (mintSide (js ''1'') (js ''2'') demo_authority)) (fst (fst (mintSide (js ''1'') (js ''2'') demo_authority))) \<and>
   authority_isCurrent (snd (mintMain (js ''2'') demo_authority)) (fst (mintMain (js ''2'') demo_authority))"
  by (rule minted_scope_current [OF new_authority_inv]) (simp add: createAttemptScopeAuthority_def)

text \<open>C25: a current scope stays current through every call that does not concern its own lineage: no
  registration, disposal or eviction of another side attempt, and no main attempt, invalidates a live side
  attempt; and no side attempt invalidates the main one.\<close>

theorem live_scope_stays_current:
  assumes "authority_inv A" "authority_isCurrent A sc"
    and "sc_lineage sc \<noteq> Main \<Longrightarrow> map_of (au_sides A) (sc_lineage sc) = Some ref"
    and "list_all (keeps (sc_lineage sc) ref) calls"
  shows "authority_isCurrent (foldl scope_step A calls) sc"
proof -
  have "stands sc ref A"
    using assms(1-3) by (auto simp: stands_def authority_isCurrent_def authority_inv_def ran_def split: if_splits)
  with assms(4) have "stands sc ref (foldl scope_step A calls)"
    by (induction calls arbitrary: A) (auto intro: stands_step)
  then show ?thesis by (rule stands_isCurrent)
qed

definition demo_side :: scope_authority where
  "demo_side = snd (mintSide (js ''1'') (js ''2'') demo_authority)"

lemma demo_side_facts:
  "authority_inv demo_side"
  "map_of (au_sides demo_side) (Side (js ''1'')) = Some 0"
  "authority_isCurrent demo_side \<lparr>sc_attemptId = js ''2'', sc_generation = 1, sc_lineage = Side (js ''1'')\<rparr>"
proof -
  show "authority_inv demo_side"
    using scope_step_inv [OF new_authority_inv, of "[]" "Mint_side (js ''1'') (js ''2'')"]
    by (simp add: scope_step_def demo_side_def)
  show "map_of (au_sides demo_side) (Side (js ''1'')) = Some 0"
    "authority_isCurrent demo_side \<lparr>sc_attemptId = js ''2'', sc_generation = 1, sc_lineage = Side (js ''1'')\<rparr>"
    by (simp_all add: demo_side_def mintSide_def registerSide_def evictRetiredIfNeeded.simps SIDE_LRU_CAP_def
      createAttemptScopeAuthority_def createLineageCurrentness_def mintFor_def lineage_advance_def
      authority_isCurrent_def lineage_isCurrent_def Let_def)
qed

theorem live_scope_stays_current_witness:
  "authority_isCurrent (foldl scope_step demo_side [Mint_main (js ''3''), Mint_side (js ''4'') (js ''5'')])
     \<lparr>sc_attemptId = js ''2'', sc_generation = 1, sc_lineage = Side (js ''1'')\<rparr>"
  by (rule live_scope_stays_current [OF demo_side_facts(1,3), of 0])
    (use demo_side_facts(2) in \<open>simp_all add: keeps_def js_def\<close>)

text \<open>C26: a main scope that a later generation has superseded, and a side scope whose lineage was disposed
  or never registered, is not current and never becomes current again, whatever is called, unless its
  lineage is registered anew.\<close>

theorem dead_scope_stays_dead:
  assumes "dead sc A" "list_all (\<lambda>call. \<not> registers (sc_lineage sc) call) calls"
  shows "\<not> authority_isCurrent (foldl scope_step A calls) sc"
proof -
  have "dead sc (foldl scope_step A calls)"
    using assms by (induction calls arbitrary: A) (auto intro: dead_step)
  then show ?thesis by (rule dead_not_current)
qed

theorem dead_scope_stays_dead_witness:
  "\<not> authority_isCurrent (foldl scope_step (snd (mintMain (js ''4'') (snd (mintMain (js ''3'') demo_authority)))) [Advance_main (js ''3'')])
     \<lparr>sc_attemptId = js ''3'', sc_generation = 1, sc_lineage = Main\<rparr>"
  by (rule dead_scope_stays_dead)
    (simp_all add: dead_def mintMain_def mintFor_def lineage_advance_def createAttemptScopeAuthority_def createLineageCurrentness_def)

text \<open>A flaw of the authority.  Registering a side lineage again after it was disposed does not take it
  out of the retired set, so the attempt it registers is never current, although its lineage is known and
  its generation is the latest.\<close>

theorem reregistered_side_not_current:
  "let A = foldl scope_step demo_authority
             [Create (Side s), Register (Side s) 0, Unregister (Side s) 0, Create (Side s), Register (Side s) 1, Bump 1 u];
       sc = \<lparr>sc_attemptId = u, sc_generation = 1, sc_lineage = Side s\<rparr>
   in map_of (au_sides A) (Side s) = Some 1 \<and> lineage_isCurrent (au_heap A ! 1) sc \<and> \<not> authority_isCurrent A sc"
  by (simp add: scope_step_def createAttemptScopeAuthority_def createLineageCurrentness_def registerSide_def unregisterSide_def
      evictRetiredIfNeeded.simps SIDE_LRU_CAP_def set_add_def lineage_advance_def lineage_isCurrent_def authority_isCurrent_def Let_def)

end
