(* ===== verification/Vim_Buffer.thy ===== *)
theory Vim_Buffer
  imports Js_Prelude Complex_Main
begin

text \<open>
  The text buffer of the modal editor (\<open>vim/buffer.ts\<close>, \<open>vim/types.ts\<close>): lines, a cursor, conversion
  between positions and offsets, and the edits the editor engine is built from.

  \<open>VimBuffer\<close> is the record \<open>vim_buffer\<close>; a method that changes the buffer returns the new one.  Lines,
  columns and offsets are integers, because callers pass negative ones and rely on the clamping.  The
  source copies every array and fingerprint it stores, so values can stand for them.
\<close>

section \<open>Data\<close>

record position =
  pos_line :: int
  pos_col :: int

record vim_fingerprint =
  fp_exists :: bool
  fp_size :: rat
  fp_mtimeMs :: rat
  fp_hash :: jstr

record vim_loaded_file =
  lf_absolutePath :: jstr
  lf_displayPath :: jstr
  lf_lines :: "jstr list"
  lf_trailingNewline :: bool
  lf_fingerprint :: "vim_fingerprint option"

record vim_snapshot =
  vs_displayPath :: jstr
  vs_filePath :: jstr
  vs_lines :: "jstr list"
  vs_cursor :: position
  vs_modified :: bool
  vs_trailingNewline :: bool
  vs_baseFingerprint :: "vim_fingerprint option"
  vs_editabilityChecked :: bool

record vim_buffer =
  vb_displayPath :: jstr
  vb_filePath :: jstr
  vb_lines :: "jstr list"
  vb_cursor :: position
  vb_modified :: bool
  vb_trailingNewline :: bool
  vb_baseFingerprint :: "vim_fingerprint option"
  vb_editabilityChecked :: bool

definition clonePosition :: "position \<Rightarrow> position" where
  "clonePosition p = \<lparr>pos_line = pos_line p, pos_col = pos_col p\<rparr>"

definition comparePositions :: "position \<Rightarrow> position \<Rightarrow> int" where
  "comparePositions l r =
     (if pos_line l \<noteq> pos_line r then pos_line l - pos_line r else pos_col l - pos_col r)"

definition minPosition :: "position \<Rightarrow> position \<Rightarrow> position" where
  "minPosition l r = (if comparePositions l r \<le> 0 then clonePosition l else clonePosition r)"

definition maxPosition :: "position \<Rightarrow> position \<Rightarrow> position" where
  "maxPosition l r = (if comparePositions l r \<ge> 0 then clonePosition l else clonePosition r)"

section \<open>Operations\<close>

definition splitText :: "jstr \<Rightarrow> jstr list" where
  "splitText s = (if s = [] then [[]] else split_on 10 s)"

fun lines_equal :: "jstr list \<Rightarrow> jstr list \<Rightarrow> bool" where
  "lines_equal [] right = True"
| "lines_equal (l # left) (r # right) = (if l \<noteq> r then False else lines_equal left right)"
| "lines_equal (l # left) [] = False"

definition snapshotEqual :: "vim_snapshot \<Rightarrow> vim_snapshot \<Rightarrow> bool" where
  "snapshotEqual l r =
     (if vs_displayPath l \<noteq> vs_displayPath r \<or> vs_filePath l \<noteq> vs_filePath r \<or> vs_modified l \<noteq> vs_modified r
        \<or> vs_trailingNewline l \<noteq> vs_trailingNewline r
        \<or> pos_line (vs_cursor l) \<noteq> pos_line (vs_cursor r) \<or> pos_col (vs_cursor l) \<noteq> pos_col (vs_cursor r)
        \<or> vs_editabilityChecked l \<noteq> vs_editabilityChecked r
      then False
      else if (case (vs_baseFingerprint l, vs_baseFingerprint r) of
                 (Some f, Some g) \<Rightarrow>
                   fp_exists f \<noteq> fp_exists g \<or> fp_size f \<noteq> fp_size g \<or> fp_mtimeMs f \<noteq> fp_mtimeMs g \<or> fp_hash f \<noteq> fp_hash g
               | (None, None) \<Rightarrow> False
               | _ \<Rightarrow> True)
      then False
      else if length (vs_lines l) \<noteq> length (vs_lines r) then False
      else lines_equal (vs_lines l) (vs_lines r))"

abbreviation nonempty_lines :: "jstr list \<Rightarrow> jstr list" where
  "nonempty_lines ls \<equiv> (if length ls > 0 then ls else [[]])"

definition new_buffer :: "vim_loaded_file \<Rightarrow> vim_buffer" where
  "new_buffer i =
     \<lparr>vb_displayPath = lf_displayPath i, vb_filePath = lf_absolutePath i, vb_lines = nonempty_lines (lf_lines i),
      vb_cursor = \<lparr>pos_line = 0, pos_col = 0\<rparr>, vb_modified = False, vb_trailingNewline = lf_trailingNewline i,
      vb_baseFingerprint = lf_fingerprint i, vb_editabilityChecked = False\<rparr>"

definition clone_buffer :: "vim_buffer \<Rightarrow> vim_buffer" where
  "clone_buffer b =
     (let c = new_buffer \<lparr>lf_absolutePath = vb_filePath b, lf_displayPath = vb_displayPath b, lf_lines = vb_lines b,
                          lf_trailingNewline = vb_trailingNewline b, lf_fingerprint = vb_baseFingerprint b\<rparr>
      in c\<lparr>vb_cursor := clonePosition (vb_cursor b), vb_modified := vb_modified b,
           vb_editabilityChecked := vb_editabilityChecked b\<rparr>)"

definition createSnapshot :: "vim_buffer \<Rightarrow> vim_snapshot" where
  "createSnapshot b =
     \<lparr>vs_displayPath = vb_displayPath b, vs_filePath = vb_filePath b, vs_lines = vb_lines b,
      vs_cursor = clonePosition (vb_cursor b), vs_modified = vb_modified b,
      vs_trailingNewline = vb_trailingNewline b, vs_baseFingerprint = vb_baseFingerprint b,
      vs_editabilityChecked = vb_editabilityChecked b\<rparr>"

definition lineCount :: "vim_buffer \<Rightarrow> int" where
  "lineCount b = int (length (vb_lines b))"

definition lastLineIndex :: "vim_buffer \<Rightarrow> int" where
  "lastLineIndex b = max 0 (int (length (vb_lines b)) - 1)"

definition clampLine :: "vim_buffer \<Rightarrow> int \<Rightarrow> int" where
  "clampLine b line = min (max line 0) (lastLineIndex b)"

definition getLine :: "vim_buffer \<Rightarrow> int \<Rightarrow> jstr" where
  "getLine b line =
     (let i = nat (clampLine b line) in if i < length (vb_lines b) then vb_lines b ! i else [])"

definition clampCol :: "vim_buffer \<Rightarrow> int \<Rightarrow> int \<Rightarrow> int" where
  "clampCol b line col = min (max col 0) (int (length (getLine b line)))"

definition setCursor :: "position \<Rightarrow> vim_buffer \<Rightarrow> vim_buffer" where
  "setCursor p b =
     b\<lparr>vb_cursor := \<lparr>pos_line = clampLine b (pos_line p), pos_col = clampCol b (pos_line p) (pos_col p)\<rparr>\<rparr>"

definition clampCursor :: "vim_buffer \<Rightarrow> vim_buffer" where
  "clampCursor b = setCursor (vb_cursor b) b"

definition restore :: "vim_snapshot \<Rightarrow> vim_buffer \<Rightarrow> vim_buffer" where
  "restore s b =
     clampCursor \<lparr>vb_displayPath = vs_displayPath s, vb_filePath = vs_filePath s,
       vb_lines = nonempty_lines (vs_lines s), vb_cursor = clonePosition (vs_cursor s),
       vb_modified = vs_modified s, vb_trailingNewline = vs_trailingNewline s,
       vb_baseFingerprint = vs_baseFingerprint s, vb_editabilityChecked = vs_editabilityChecked s\<rparr>"

definition replaceLoadedFile :: "vim_loaded_file \<Rightarrow> vim_buffer \<Rightarrow> vim_buffer" where
  "replaceLoadedFile i b =
     b\<lparr>vb_displayPath := lf_displayPath i, vb_filePath := lf_absolutePath i, vb_lines := nonempty_lines (lf_lines i),
       vb_cursor := \<lparr>pos_line = 0, pos_col = 0\<rparr>, vb_modified := False, vb_trailingNewline := lf_trailingNewline i,
       vb_baseFingerprint := lf_fingerprint i, vb_editabilityChecked := False\<rparr>"

definition markSaved :: "vim_loaded_file \<Rightarrow> vim_buffer \<Rightarrow> vim_buffer" where
  "markSaved i b =
     clampCursor (b\<lparr>vb_lines := nonempty_lines (lf_lines i), vb_modified := False,
       vb_trailingNewline := lf_trailingNewline i, vb_baseFingerprint := lf_fingerprint i\<rparr>)"

definition firstNonBlank :: "vim_buffer \<Rightarrow> int \<Rightarrow> nat" where
  "firstNonBlank b line =
     (let content = getLine b line; i = length (takeWhile is_ws content)
      in if i = length content then 0 else i)"

definition getText :: "vim_buffer \<Rightarrow> jstr" where
  "getText b = join_with [10] (vb_lines b)"

text \<open>The second argument of \<open>setText\<close> defaults to the flag of the buffer.\<close>

definition setText :: "jstr \<Rightarrow> bool option \<Rightarrow> vim_buffer \<Rightarrow> vim_buffer" where
  "setText txt0 tn b =
     (let trailingNewline = (case tn of Some t \<Rightarrow> t | None \<Rightarrow> vb_trailingNewline b);
          normalizedText = (if trailingNewline \<and> txt0 \<noteq> [] \<and> last txt0 = 10 then butlast txt0 else txt0)
      in clampCursor (b\<lparr>vb_lines := splitText normalizedText, vb_trailingNewline := trailingNewline\<rparr>))"

definition positionToOffset :: "vim_buffer \<Rightarrow> position \<Rightarrow> int" where
  "positionToOffset b p =
     (let line = clampLine b (pos_line p); col = clampCol b line (pos_col p)
      in foldl (\<lambda>offset l. offset + int (length l) + 1) 0 (take (nat line) (vb_lines b)) + col)"

definition currentOffset :: "vim_buffer \<Rightarrow> int" where
  "currentOffset b = positionToOffset b (vb_cursor b)"

text \<open>The loop of \<open>offsetToPosition\<close> over the lines from number \<open>line\<close> on.\<close>

fun offset_loop :: "int \<Rightarrow> int \<Rightarrow> jstr list \<Rightarrow> position option" where
  "offset_loop remaining line [] = None"
| "offset_loop remaining line (current # rest) =
     (if remaining \<le> int (length current) then Some \<lparr>pos_line = line, pos_col = remaining\<rparr>
      else let remaining = remaining - int (length current)
           in if rest \<noteq> [] then
                if remaining = 0 then Some \<lparr>pos_line = line + 1, pos_col = 0\<rparr>
                else offset_loop (remaining - 1) (line + 1) rest
              else offset_loop remaining (line + 1) rest)"

definition offsetToPosition :: "vim_buffer \<Rightarrow> int \<Rightarrow> position" where
  "offsetToPosition b offset =
     (let clamped = min (max offset 0) (int (length (getText b)))
      in case offset_loop clamped 0 (vb_lines b) of
           Some p \<Rightarrow> p
         | None \<Rightarrow> \<lparr>pos_line = lastLineIndex b, pos_col = int (length (getLine b (lastLineIndex b)))\<rparr>)"

definition setCursorFromOffset :: "int \<Rightarrow> vim_buffer \<Rightarrow> vim_buffer" where
  "setCursorFromOffset offset b = b\<lparr>vb_cursor := offsetToPosition b offset\<rparr>"

definition replaceOffsets :: "int \<Rightarrow> int \<Rightarrow> jstr \<Rightarrow> int option \<Rightarrow> vim_buffer \<Rightarrow> vim_buffer" where
  "replaceOffsets start stop replacement cursorOffset b =
     (let t = getText b;
          s = min (max start 0) (int (length t));
          e = min (max stop s) (int (length t));
          nextText = take (nat s) t @ replacement @ drop (nat e) t;
          target = (case cursorOffset of Some c \<Rightarrow> c | None \<Rightarrow> start + int (length replacement))
      in setCursorFromOffset target (clampCursor (b\<lparr>vb_lines := splitText nextText\<rparr>)))"

definition deleteOffsets :: "int \<Rightarrow> int \<Rightarrow> vim_buffer \<Rightarrow> jstr \<times> vim_buffer" where
  "deleteOffsets start stop b =
     (let t = getText b;
          s = min (max start 0) (int (length t));
          e = min (max stop s) (int (length t));
          removed = drop (nat s) (take (nat e) t)
      in (removed, replaceOffsets s e [] (Some s) b))"

definition deleteLines :: "int \<Rightarrow> int \<Rightarrow> vim_buffer \<Rightarrow> jstr list \<times> vim_buffer" where
  "deleteLines startLine endLine b =
     (let start = clampLine b (min startLine endLine);
          stop = clampLine b (max startLine endLine);
          removed = slice (nat start) (nat (stop + 1)) (vb_lines b);
          left = splice (nat start) (nat (stop - start + 1)) [] (vb_lines b);
          b1 = b\<lparr>vb_lines := (if length left = 0 then [[]] else left)\<rparr>;
          b2 = setCursor \<lparr>pos_line = min start (lastLineIndex b1), pos_col = 0\<rparr> b1
      in (removed,
          if length (vb_lines b2) > 1 \<or> length removed > 1 then b2\<lparr>vb_trailingNewline := True\<rparr> else b2))"

definition insertLines :: "int \<Rightarrow> jstr list \<Rightarrow> vim_buffer \<Rightarrow> vim_buffer" where
  "insertLines index newLines b =
     (let i = min (max index 0) (int (length (vb_lines b)));
          normalized = (if length newLines > 0 then newLines else [[]]);
          b1 = b\<lparr>vb_lines := splice (nat i) 0 normalized (vb_lines b)\<rparr>
      in (setCursor \<lparr>pos_line = i, pos_col = 0\<rparr> b1)\<lparr>vb_trailingNewline := True\<rparr>)"

text \<open>\<open>lines[i] = v\<close> for an index that is at most the length.\<close>

definition set_line :: "nat \<Rightarrow> jstr \<Rightarrow> jstr list \<Rightarrow> jstr list" where
  "set_line i v ls = (if i < length ls then ls[i := v] else ls @ [v])"

definition replaceLine :: "int \<Rightarrow> jstr \<Rightarrow> vim_buffer \<Rightarrow> vim_buffer" where
  "replaceLine line content b =
     (let b1 = b\<lparr>vb_lines := set_line (nat (clampLine b line)) content (vb_lines b)\<rparr>
      in setCursor (vb_cursor b1) b1)"

definition joinLines :: "int \<Rightarrow> int \<Rightarrow> vim_buffer \<Rightarrow> vim_buffer" where
  "joinLines startLine count b =
     (let start = clampLine b startLine;
          stop = clampLine b (start + max count 1)
      in if start \<ge> stop then b
         else let joined = join_with [32] (map trim (slice (nat start) (nat (stop + 1)) (vb_lines b)));
                  b1 = b\<lparr>vb_lines := splice (nat start) (nat (stop - start + 1)) [joined] (vb_lines b)\<rparr>
              in setCursor \<lparr>pos_line = start, pos_col = max 0 (int (length joined) - 1)\<rparr> b1)"

text \<open>One line of \<open>indentLines\<close>; \<open>True\<close> is the direction \<open>1\<close>.\<close>

definition indent_line :: "jstr \<Rightarrow> bool \<Rightarrow> jstr \<Rightarrow> jstr" where
  "indent_line indentUnit forward content =
     (if forward then indentUnit @ content
      else if take (length indentUnit) content = indentUnit then drop (length indentUnit) content
      else let spaces = length (takeWhile (\<lambda>c. c = 32) content)
           in drop (min spaces (length indentUnit)) content)"

fun indent_loop :: "jstr \<Rightarrow> bool \<Rightarrow> nat list \<Rightarrow> jstr list \<Rightarrow> jstr list" where
  "indent_loop indentUnit forward [] ls = ls"
| "indent_loop indentUnit forward (line # rest) ls =
     (let content = (if line < length ls then ls ! line else [])
      in indent_loop indentUnit forward rest (set_line line (indent_line indentUnit forward content) ls))"

definition indentLines :: "int \<Rightarrow> int \<Rightarrow> jstr \<Rightarrow> bool \<Rightarrow> vim_buffer \<Rightarrow> vim_buffer" where
  "indentLines startLine endLine indentUnit forward b =
     (let start = clampLine b (min startLine endLine);
          stop = clampLine b (max startLine endLine);
          b1 = b\<lparr>vb_lines := indent_loop indentUnit forward [nat start..<nat (stop + 1)] (vb_lines b)\<rparr>
      in setCursor (vb_cursor b1) b1)"

definition getCharacterAtOffset :: "vim_buffer \<Rightarrow> int \<Rightarrow> jstr" where
  "getCharacterAtOffset b offset =
     (let t = getText b in if offset < 0 \<or> offset \<ge> int (length t) then [] else [t ! nat offset])"

definition getCharacter :: "vim_buffer \<Rightarrow> position \<Rightarrow> jstr" where
  "getCharacter b p = getCharacterAtOffset b (positionToOffset b p)"

section \<open>Offsets and positions\<close>

abbreviation line_start :: "jstr list \<Rightarrow> nat \<Rightarrow> nat" where
  "line_start ls i \<equiv> sum_list (map (\<lambda>l. Suc (length l)) (take i ls))"

lemma offset_sum:
  "foldl (\<lambda>offset l. offset + int (length l) + 1) a ls = a + int (sum_list (map (\<lambda>l. Suc (length l)) ls))"
  by (induction ls arbitrary: a) auto

lemma length_join: "ls \<noteq> [] \<Longrightarrow> Suc (length (join_with [10] ls)) = sum_list (map (\<lambda>l. Suc (length l)) ls)"
proof (induction ls)
  case (Cons l ls)
  then show ?case by (cases "ls = []") (auto simp: join_with_Cons)
qed simp

lemma offset_loop_at:
  "i < length ls \<Longrightarrow> c \<le> length (ls ! i) \<Longrightarrow>
   offset_loop (int (line_start ls i + c)) k ls = Some \<lparr>pos_line = k + int i, pos_col = int c\<rparr>"
proof (induction ls arbitrary: i k)
  case (Cons l ls)
  show ?case
  proof (cases i)
    case (Suc j)
    with Cons.prems have "j < length ls" "c \<le> length (ls ! j)" by auto
    from Cons.IH [OF this, of "k + 1"] this(1) show ?thesis
      by (cases ls) (auto simp: Suc Let_def algebra_simps)
  qed (use Cons.prems in simp)
qed simp

text \<open>Every offset of the text is the offset of a position.\<close>

lemma offset_has_position:
  "ls \<noteq> [] \<Longrightarrow> n \<le> length (join_with [10] ls) \<Longrightarrow>
   \<exists>i c. i < length ls \<and> c \<le> length (ls ! i) \<and> n = line_start ls i + c"
proof (induction ls arbitrary: n)
  case (Cons l ls)
  show ?case
  proof (cases "n \<le> length l")
    case True
    then show ?thesis by (intro exI [of _ 0] exI [of _ n]) simp
  next
    case False
    then have "ls \<noteq> []" using Cons.prems by (cases ls) auto
    then have "n - Suc (length l) \<le> length (join_with [10] ls)" using Cons.prems by (simp add: join_with_Cons)
    then obtain i c where "i < length ls" "c \<le> length (ls ! i)" "n - Suc (length l) = line_start ls i + c"
      using Cons.IH [OF \<open>ls \<noteq> []\<close>] by blast
    then show ?thesis using False by (intro exI [of _ "Suc i"] exI [of _ c]) simp
  qed
qed simp

lemma position_offset_bound:
  assumes "i < length ls" "c \<le> length (ls ! i)"
  shows "line_start ls i + c \<le> length (join_with [10] ls)"
proof -
  have "sum_list (map (\<lambda>l. Suc (length l)) ls) = line_start ls i + sum_list (map (\<lambda>l. Suc (length l)) (drop i ls))"
    by (metis append_take_drop_id map_append sum_list_append)
  also have "drop i ls = ls ! i # drop (Suc i) ls" using assms(1) by (simp add: Cons_nth_drop_Suc)
  finally show ?thesis using length_join [of ls] assms by fastforce
qed

lemma offsetToPosition_at:
  assumes "i < length (vb_lines b)" "c \<le> length (vb_lines b ! i)"
  shows "offsetToPosition b (int (line_start (vb_lines b) i + c)) = \<lparr>pos_line = int i, pos_col = int c\<rparr>"
  using offset_loop_at [OF assms, of 0] position_offset_bound [OF assms]
  by (simp add: offsetToPosition_def getText_def Let_def min_def)

lemma offsetToPosition_clamped:
  assumes "vb_lines b \<noteq> []"
  obtains i c where "i < length (vb_lines b)" "c \<le> length (vb_lines b ! i)"
    "min (max off 0) (int (length (getText b))) = int (line_start (vb_lines b) i + c)"
    "offsetToPosition b off = \<lparr>pos_line = int i, pos_col = int c\<rparr>"
proof -
  let ?n = "nat (min (max off 0) (int (length (getText b))))"
  obtain i c where ic: "i < length (vb_lines b)" "c \<le> length (vb_lines b ! i)" "?n = line_start (vb_lines b) i + c"
    using offset_has_position [OF assms, of ?n] unfolding getText_def by (metis nat_le_iff min.cobounded2)
  have n: "min (max off 0) (int (length (getText b))) = int (line_start (vb_lines b) i + c)" using ic(3) by linarith
  have "offsetToPosition b off = \<lparr>pos_line = int i, pos_col = int c\<rparr>"
    using offset_loop_at [OF ic(1,2), of 0] unfolding offsetToPosition_def Let_def n by simp
  with that ic n show thesis by blast
qed

text \<open>The position a clamped line and column stand for.\<close>

lemma clamped_position:
  assumes "vb_lines b \<noteq> []"
  obtains i c where "i < length (vb_lines b)" "c \<le> length (vb_lines b ! i)"
    "clampLine b line = int i" "clampCol b line col = int c" "clampCol b (clampLine b line) col = int c"
proof -
  have "0 \<le> clampLine b line" "clampLine b line < int (length (vb_lines b))"
    using assms by (auto simp: clampLine_def lastLineIndex_def min_def max_def Suc_le_eq)
  then obtain i where i: "clampLine b line = int i" "i < length (vb_lines b)" by (metis nonneg_int_cases of_nat_less_iff)
  have "clampLine b (int i) = int i" using i(2) by (auto simp: clampLine_def lastLineIndex_def)
  then have "getLine b line = vb_lines b ! i" "getLine b (int i) = vb_lines b ! i" using i by (simp_all add: getLine_def)
  then show thesis using that [of i "nat (clampCol b line col)"] i by (auto simp: clampCol_def)
qed

lemma positionToOffset_at:
  assumes "clampLine b (pos_line p) = int i" "clampCol b (clampLine b (pos_line p)) (pos_col p) = int c"
  shows "positionToOffset b p = int (line_start (vb_lines b) i + c)"
  using assms by (simp add: positionToOffset_def offset_sum Let_def)

section \<open>The cursor stays in the text\<close>

definition cursor_ok :: "vim_buffer \<Rightarrow> bool" where
  "cursor_ok b \<longleftrightarrow>
     vb_lines b \<noteq> [] \<and>
     (\<exists>i c. vb_cursor b = \<lparr>pos_line = int i, pos_col = int c\<rparr> \<and> i < length (vb_lines b) \<and> c \<le> length (vb_lines b ! i))"

lemma setCursor_fields [simp]:
  "vb_lines (setCursor p b) = vb_lines b" "vb_trailingNewline (setCursor p b) = vb_trailingNewline b"
  "vb_lines (clampCursor b) = vb_lines b"
  by (simp_all add: setCursor_def clampCursor_def)

lemma cursor_ok_setCursor:
  assumes "vb_lines b \<noteq> []"
  shows "cursor_ok (setCursor p b)"
  using assms by (rule clamped_position [of b "pos_line p" "pos_col p"]) (auto simp: cursor_ok_def setCursor_def assms)

lemma cursor_ok_clampCursor: "vb_lines b \<noteq> [] \<Longrightarrow> cursor_ok (clampCursor b)"
  unfolding clampCursor_def by (rule cursor_ok_setCursor)

lemma cursor_ok_offset:
  assumes "vb_lines b \<noteq> []"
  shows "cursor_ok (setCursorFromOffset off b)"
  using assms by (rule offsetToPosition_clamped [of b off]) (auto simp: cursor_ok_def setCursorFromOffset_def assms)

lemma cursor_ok_flag [simp]: "cursor_ok (b\<lparr>vb_trailingNewline := f\<rparr>) = cursor_ok b"
  by (simp add: cursor_ok_def)

lemma splitText_split: "splitText s = split_on 10 s"
  by (simp add: splitText_def)

lemma length_indent_loop: "ls \<noteq> [] \<Longrightarrow> indent_loop u f is ls \<noteq> []"
  by (induction u f "is" ls rule: indent_loop.induct) (auto simp: Let_def set_line_def)

datatype vim_call =
    V_restore vim_snapshot
  | V_replaceLoadedFile vim_loaded_file
  | V_markSaved vim_loaded_file
  | V_setCursor position
  | V_setText jstr "bool option"
  | V_setCursorFromOffset int
  | V_replaceOffsets int int jstr "int option"
  | V_deleteOffsets int int
  | V_deleteLines int int
  | V_insertLines int "jstr list"
  | V_replaceLine int jstr
  | V_joinLines int int
  | V_indentLines int int jstr bool

definition vim_step :: "vim_buffer \<Rightarrow> vim_call \<Rightarrow> vim_buffer" where
  "vim_step b call =
     (case call of
        V_restore s \<Rightarrow> restore s b
      | V_replaceLoadedFile i \<Rightarrow> replaceLoadedFile i b
      | V_markSaved i \<Rightarrow> markSaved i b
      | V_setCursor p \<Rightarrow> setCursor p b
      | V_setText s tn \<Rightarrow> setText s tn b
      | V_setCursorFromOffset off \<Rightarrow> setCursorFromOffset off b
      | V_replaceOffsets s e r c \<Rightarrow> replaceOffsets s e r c b
      | V_deleteOffsets s e \<Rightarrow> snd (deleteOffsets s e b)
      | V_deleteLines s e \<Rightarrow> snd (deleteLines s e b)
      | V_insertLines i ls \<Rightarrow> insertLines i ls b
      | V_replaceLine l s \<Rightarrow> replaceLine l s b
      | V_joinLines s n \<Rightarrow> joinLines s n b
      | V_indentLines s e u f \<Rightarrow> indentLines s e u f b)"

lemma replaceOffsets_ok: "cursor_ok (replaceOffsets s e r c b)"
  by (simp add: replaceOffsets_def Let_def splitText_split cursor_ok_offset)

lemma vim_step_ok:
  assumes "cursor_ok b"
  shows "cursor_ok (vim_step b call)"
proof -
  have ne: "vb_lines b \<noteq> []" using assms by (simp add: cursor_ok_def)
  show ?thesis
  proof (cases call)
    case (V_replaceLoadedFile i)
    then show ?thesis by (auto simp: vim_step_def replaceLoadedFile_def cursor_ok_def)
  next
    case (V_joinLines s n)
    then show ?thesis
      using assms by (auto simp: vim_step_def joinLines_def Let_def splice_def intro!: cursor_ok_setCursor)
  next
    case (V_indentLines s e u f)
    then show ?thesis
      using ne by (auto simp: vim_step_def indentLines_def Let_def length_indent_loop intro!: cursor_ok_setCursor)
  qed (use ne in \<open>auto simp: vim_step_def restore_def markSaved_def setText_def deleteOffsets_def deleteLines_def
    insertLines_def replaceLine_def set_line_def Let_def splitText_split splice_def cursor_ok_setCursor
    cursor_ok_clampCursor cursor_ok_offset replaceOffsets_ok\<close>)
qed

interpretation vbuf: invariant_object vim_step cursor_ok
  by unfold_locales (rule vim_step_ok)

lemma new_buffer_ok: "cursor_ok (new_buffer i)"
  by (auto simp: cursor_ok_def new_buffer_def)

section \<open>Indentation\<close>

lemma indent_loop_nth:
  "distinct is \<Longrightarrow> \<forall>i \<in> set is. i < length ls \<Longrightarrow>
   length (indent_loop u f is ls) = length ls \<and>
   (\<forall>j < length ls. indent_loop u f is ls ! j = (if j \<in> set is then indent_line u f (ls ! j) else ls ! j))"
  by (induction u f "is" ls rule: indent_loop.induct) (auto simp: Let_def set_line_def nth_list_update)

lemma indent_line_inverse: "indent_line u False (indent_line u True s) = s"
  by (simp add: indent_line_def)

lemma clampLine_same: "length (vb_lines b) = length (vb_lines c) \<Longrightarrow> clampLine b = clampLine c"
  by (auto simp: clampLine_def lastLineIndex_def)

lemma clampLine_range:
  "vb_lines b \<noteq> [] \<Longrightarrow> 0 \<le> clampLine b l \<and> clampLine b l < int (length (vb_lines b))"
  by (auto simp: clampLine_def lastLineIndex_def min_def max_def Suc_le_eq)

lemma indentLines_lines:
  fixes b :: vim_buffer and s e :: int
  assumes "vb_lines b \<noteq> []"
  defines "r \<equiv> {nat (clampLine b (min s e))..<nat (clampLine b (max s e) + 1)}"
  shows "length (vb_lines (indentLines s e u f b)) = length (vb_lines b)"
    and "j < length (vb_lines b) \<Longrightarrow>
      vb_lines (indentLines s e u f b) ! j = (if j \<in> r then indent_line u f (vb_lines b ! j) else vb_lines b ! j)"
proof -
  have "\<forall>i \<in> set [nat (clampLine b (min s e))..<nat (clampLine b (max s e) + 1)]. i < length (vb_lines b)"
    using clampLine_range [OF assms(1), of "max s e"] by auto
  from indent_loop_nth [OF distinct_upt this, of u f]
  show "length (vb_lines (indentLines s e u f b)) = length (vb_lines b)"
    "j < length (vb_lines b) \<Longrightarrow>
      vb_lines (indentLines s e u f b) ! j = (if j \<in> r then indent_line u f (vb_lines b ! j) else vb_lines b ! j)"
    by (simp_all add: indentLines_def Let_def r_def)
qed

section \<open>Replacing and deleting text\<close>

lemma clamp_int: "min (max k (int m)) (int n) = int (min (max (nat k) m) n)"
  by (simp add: min_def max_def nat_le_iff)

lemma clamp_int_0: "min (max k 0) (int n) = int (min (nat k) n)"
  using clamp_int [of k 0 n] by simp

lemma take_clamped: "take (nat (min (max s 0) (int (length t)))) t = take (nat s) t"
proof -
  have "take (min k (length t)) t = take k t" for k by (simp add: min_def)
  then show ?thesis by (simp only: clamp_int_0 nat_int)
qed

lemma drop_clamped:
  "drop (nat (min (max e (min (max s 0) (int (length t)))) (int (length t)))) t = drop (max (nat s) (nat e)) t"
proof -
  have "min (max (nat e) (min (nat s) n)) n = min (max (nat s) (nat e)) n" for n
    by (cases "nat s \<le> n"; cases "nat e \<le> n") auto
  moreover have "drop (min k (length t)) t = drop k t" for k by (simp add: min_def)
  ultimately show ?thesis by (simp only: clamp_int_0 clamp_int nat_int)
qed

lemma replaceOffsets_text:
  "getText (replaceOffsets s e r c b) = take (nat s) (getText b) @ r @ drop (max (nat s) (nat e)) (getText b)"
  by (simp add: replaceOffsets_def Let_def setCursorFromOffset_def getText_def splitText_split take_clamped drop_clamped)

lemma offset_of_offset:
  assumes "vb_lines b \<noteq> []"
  shows "positionToOffset b (offsetToPosition b off) = min (max off 0) (int (length (getText b)))"
  using assms
proof (rule offsetToPosition_clamped [of b off])
  fix i c
  assume ic: "i < length (vb_lines b)" "c \<le> length (vb_lines b ! i)"
    "min (max off 0) (int (length (getText b))) = int (line_start (vb_lines b) i + c)"
    "offsetToPosition b off = \<lparr>pos_line = int i, pos_col = int c\<rparr>"
  have "clampLine b (int i) = int i" using ic(1) by (auto simp: clampLine_def lastLineIndex_def)
  moreover from this have "clampCol b (int i) (int c) = int c" using ic(1,2) by (simp add: clampCol_def getLine_def)
  ultimately have "positionToOffset b \<lparr>pos_line = int i, pos_col = int c\<rparr> = int (line_start (vb_lines b) i + c)"
    by (intro positionToOffset_at) simp_all
  then show ?thesis by (simp only: ic(3,4))
qed

lemma clampLine_cursor: "clampLine (b\<lparr>vb_cursor := q\<rparr>) line = clampLine b line"
  by (simp add: clampLine_def lastLineIndex_def)

lemma clampCol_cursor: "clampCol (b\<lparr>vb_cursor := q\<rparr>) line col = clampCol b line col"
  by (simp add: clampCol_def getLine_def clampLine_cursor Let_def)

lemma positionToOffset_cursor: "positionToOffset (b\<lparr>vb_cursor := q\<rparr>) p = positionToOffset b p"
  by (simp add: positionToOffset_def clampLine_cursor clampCol_cursor)

section \<open>Properties\<close>

text \<open>A position converted to an offset and back is the position clamped to the text, and an offset
  converted to a position and back is the offset clamped to the text.\<close>

theorem position_offset_roundtrip:
  assumes "vb_lines b \<noteq> []"
  shows "offsetToPosition b (positionToOffset b p) = \<lparr>pos_line = clampLine b (pos_line p), pos_col = clampCol b (pos_line p) (pos_col p)\<rparr> \<and>
    positionToOffset b (offsetToPosition b off) = min (max off 0) (int (length (getText b)))"
proof
  show "offsetToPosition b (positionToOffset b p) = \<lparr>pos_line = clampLine b (pos_line p), pos_col = clampCol b (pos_line p) (pos_col p)\<rparr>"
    using assms
  proof (rule clamped_position [of b "pos_line p" "pos_col p"])
    fix i c
    assume "i < length (vb_lines b)" "c \<le> length (vb_lines b ! i)" "clampLine b (pos_line p) = int i"
      "clampCol b (pos_line p) (pos_col p) = int c" "clampCol b (clampLine b (pos_line p)) (pos_col p) = int c"
    then show ?thesis by (simp only: positionToOffset_at offsetToPosition_at)
  qed
  show "positionToOffset b (offsetToPosition b off) = min (max off 0) (int (length (getText b)))"
    by (rule offset_of_offset [OF assms])
qed

definition demo_buffer :: vim_buffer where
  "demo_buffer = new_buffer \<lparr>lf_absolutePath = js ''/a'', lf_displayPath = js ''a'', lf_lines = [js ''one'', js ''  two''],
     lf_trailingNewline = True, lf_fingerprint = None\<rparr>"

theorem position_offset_roundtrip_witness:
  "offsetToPosition demo_buffer (positionToOffset demo_buffer \<lparr>pos_line = 7, pos_col = 2\<rparr>) =
     \<lparr>pos_line = clampLine demo_buffer 7, pos_col = clampCol demo_buffer 7 2\<rparr> \<and>
   positionToOffset demo_buffer (offsetToPosition demo_buffer 5) = min (max 5 0) (int (length (getText demo_buffer)))"
  using position_offset_roundtrip [of demo_buffer "\<lparr>pos_line = 7, pos_col = 2\<rparr>" 5]
  by (simp add: demo_buffer_def new_buffer_def)

text \<open>C29: whatever operations are applied to a loaded file, with whatever arguments, the buffer has at least
  one line and the cursor is a position of the text.\<close>

theorem vim_cursor_in_text:
  "cursor_ok (foldl vim_step (new_buffer file) calls)"
  by (rule vbuf.run_inv [OF new_buffer_ok])

text \<open>C30: replacing a range of offsets splices the text of the buffer and leaves the cursor at the requested
  offset, clamped to the new text.\<close>

theorem replaceOffsets_splices:
  "getText (replaceOffsets s e r c b) = take (nat s) (getText b) @ r @ drop (max (nat s) (nat e)) (getText b) \<and>
   currentOffset (replaceOffsets s e r c b) =
     min (max (case c of Some x \<Rightarrow> x | None \<Rightarrow> s + int (length r)) 0) (int (length (getText (replaceOffsets s e r c b))))"
proof -
  define d where "d = clampCursor (b\<lparr>vb_lines := splitText (take (nat s) (getText b) @ r @ drop (max (nat s) (nat e)) (getText b))\<rparr>)"
  have "replaceOffsets s e r c b = setCursorFromOffset (case c of Some x \<Rightarrow> x | None \<Rightarrow> s + int (length r)) d"
    by (simp add: replaceOffsets_def Let_def take_clamped drop_clamped d_def)
  moreover have "vb_lines d \<noteq> []" by (simp add: d_def splitText_split)
  ultimately show ?thesis
    by (simp add: replaceOffsets_text currentOffset_def setCursorFromOffset_def positionToOffset_cursor offset_of_offset)
      (simp add: d_def getText_def splitText_split)
qed

text \<open>Deleting a range of offsets and putting the removed text back where it was restores the text.\<close>

theorem delete_then_reinsert:
  "getText (replaceOffsets s s (fst (deleteOffsets s e b)) c (snd (deleteOffsets s e b))) = getText b"
proof -
  define t where "t = getText b"
  define i where "i = min (nat s) (length t)"
  define j where "j = min (max (nat e) i) (length t)"
  have ij: "i \<le> j" "j \<le> length t" by (simp_all add: i_def j_def)
  have s: "min (max s 0) (int (length t)) = int i" by (simp only: clamp_int_0 i_def)
  have e: "min (max e (int i)) (int (length t)) = int j" by (simp only: clamp_int j_def)
  have "deleteOffsets s e b = (drop i (take j t), replaceOffsets (int i) (int j) [] (Some (int i)) b)"
    by (simp only: deleteOffsets_def Let_def t_def [symmetric] s e nat_int)
  moreover have "getText (replaceOffsets (int i) (int j) [] (Some (int i)) b) = take i t @ drop j t"
    using ij by (simp add: replaceOffsets_text t_def [symmetric] max_def)
  moreover have "take (nat s) (take i t @ drop j t) = take i t \<and> drop (nat s) (take i t @ drop j t) = drop j t"
    using ij by (cases "nat s \<le> length t") (auto simp: i_def)
  moreover have "take i t @ drop i (take j t) @ drop j t = t"
  proof -
    have "take i t = take i (take j t)" using ij by (simp add: min_def)
    then have "take i t @ drop i (take j t) = take j t" by (simp only: append_take_drop_id)
    then show ?thesis by (simp only: append_assoc [symmetric] append_take_drop_id)
  qed
  ultimately show ?thesis by (simp only: replaceOffsets_text t_def [symmetric] max.idem fst_conv snd_conv)
qed

text \<open>Two snapshots compare equal exactly when they are the same snapshot.\<close>

theorem snapshotEqual_is_equality: "snapshotEqual l r = (l = r)"
proof -
  have lines: "length ls = length rs \<Longrightarrow> lines_equal ls rs = (ls = rs)" for ls rs
    by (induction ls rs rule: lines_equal.induct) auto
  show ?thesis
    by (cases l; cases r) (auto simp: snapshotEqual_def lines split: option.splits)
qed

text \<open>Restoring a snapshot of a buffer, into whatever buffer, gives that buffer back.\<close>

theorem restore_snapshot:
  assumes "cursor_ok b"
  shows "restore (createSnapshot b) other = b"
proof -
  obtain i c where "vb_cursor b = \<lparr>pos_line = int i, pos_col = int c\<rparr>" "i < length (vb_lines b)" "c \<le> length (vb_lines b ! i)"
    using assms by (auto simp: cursor_ok_def)
  then show ?thesis
    by (cases b) (auto simp: restore_def createSnapshot_def clonePosition_def clampCursor_def setCursor_def clampLine_def
        lastLineIndex_def clampCol_def getLine_def Let_def)
qed

theorem restore_snapshot_witness: "restore (createSnapshot demo_buffer) (insertLines 0 [] demo_buffer) = demo_buffer"
  by (rule restore_snapshot) (simp add: demo_buffer_def new_buffer_ok)

text \<open>Indenting a range of lines and then unindenting the same range gives the lines back, for any
  indentation unit.\<close>

theorem indent_unindent:
  assumes "vb_lines b \<noteq> []"
  shows "vb_lines (indentLines s e u False (indentLines s e u True b)) = vb_lines b"
proof -
  let ?b = "indentLines s e u True b"
  have len: "length (vb_lines ?b) = length (vb_lines b)" by (rule indentLines_lines(1) [OF assms])
  then have ne: "vb_lines ?b \<noteq> []" using assms by (metis length_0_conv)
  show ?thesis
    by (rule nth_equalityI)
      (simp_all add: indentLines_lines [OF ne] indentLines_lines [OF assms] len clampLine_same [OF len] indent_line_inverse)
qed

theorem indent_unindent_witness:
  "vb_lines (indentLines 1 0 [9] False (indentLines 1 0 [9] True demo_buffer)) = vb_lines demo_buffer"
  by (rule indent_unindent) (simp add: demo_buffer_def new_buffer_def)

end
