(* ===== verification/Conflict_Detect.thy ===== *)
theory Conflict_Detect
  imports Js_Regex "HOL-Library.AList"
begin

text \<open>
  Detection and resolution of merge conflicts in read output (\<open>tools/conflict-detect.ts\<close>): the line scanner,
  the session's history of conflict ids, \<open>conflict://\<close> URIs, splicing a resolution into the file, the content
  shorthands and the reports.

  Line numbers are natural numbers, as is the first line of a window; a negative preferred index of
  \<open>locateRegion\<close> is the integer \<open>startLine - 1\<close>.  A JavaScript \<open>Map\<close> is an association list in insertion
  order.  An optional string is truthy when it is present and not empty.  The size cap and the
  reading of a file in \<open>scanFileForConflicts\<close> are I/O around the scanner: the text it decoded is an
  argument here.
\<close>

section \<open>The scanner\<close>

definition OURS_PREFIX :: jstr where "OURS_PREFIX = js ''<<<<<<<''"
definition BASE_PREFIX :: jstr where "BASE_PREFIX = js ''|||||||''"
definition SEPARATOR :: jstr where "SEPARATOR = js ''=======''"
definition THEIRS_PREFIX :: jstr where "THEIRS_PREFIX = js ''>>>>>>>''"

record conflict_block =
  cb_startLine :: nat
  cb_separatorLine :: nat
  cb_endLine :: nat
  cb_baseLine :: "nat option"
  cb_oursLabel :: "jstr option"
  cb_baseLabel :: "jstr option"
  cb_theirsLabel :: "jstr option"
  cb_oursLines :: "jstr list"
  cb_baseLines :: "jstr list option"
  cb_theirsLines :: "jstr list"

text \<open>\<open>label || undefined\<close>.\<close>

definition or_undefined :: "jstr \<Rightarrow> jstr option" where
  "or_undefined s = (if s = [] then None else Some s)"

definition matchMarker :: "jstr \<Rightarrow> jstr \<Rightarrow> jstr option" where
  "matchMarker line p =
     (if take (length p) line \<noteq> p then None
      else if length line = length p then Some []
      else if line ! length p \<noteq> 32 then None
      else Some (drop (length p + 1) line))"

datatype phase = Idle | Ours | Base | Theirs

record partial_block =
  pb_startLine :: nat
  pb_oursLabel :: "jstr option"
  pb_oursLines :: "jstr list"
  pb_baseLine :: "nat option"
  pb_baseLabel :: "jstr option"
  pb_baseLines :: "jstr list option"
  pb_separatorLine :: "nat option"
  pb_theirsLines :: "jstr list option"

record scan_state =
  sc_blocks :: "conflict_block list"
  sc_phase :: phase
  sc_partial :: "partial_block option"

text \<open>What a closing marker pushes.\<close>

definition close_block :: "nat \<Rightarrow> jstr \<Rightarrow> phase \<Rightarrow> partial_block \<Rightarrow> conflict_block list" where
  "close_block ln theirsLabel ph p =
     (case (ph, pb_separatorLine p, pb_theirsLines p) of
        (Theirs, Some sep, Some theirs) \<Rightarrow>
          [\<lparr>cb_startLine = pb_startLine p, cb_separatorLine = sep, cb_endLine = ln, cb_baseLine = pb_baseLine p,
            cb_oursLabel = pb_oursLabel p, cb_baseLabel = pb_baseLabel p, cb_theirsLabel = or_undefined theirsLabel,
            cb_oursLines = pb_oursLines p, cb_baseLines = pb_baseLines p, cb_theirsLines = theirs\<rparr>]
      | _ \<Rightarrow> [])"

text \<open>A line that is no marker is appended to the section of the phase.\<close>

definition append_line :: "jstr \<Rightarrow> phase \<Rightarrow> partial_block \<Rightarrow> partial_block" where
  "append_line line ph p =
     (case ph of
        Ours \<Rightarrow> p\<lparr>pb_oursLines := pb_oursLines p @ [line]\<rparr>
      | Base \<Rightarrow> (case pb_baseLines p of Some b \<Rightarrow> p\<lparr>pb_baseLines := Some (b @ [line])\<rparr> | None \<Rightarrow> p)
      | Theirs \<Rightarrow> (case pb_theirsLines p of Some t \<Rightarrow> p\<lparr>pb_theirsLines := Some (t @ [line])\<rparr> | None \<Rightarrow> p)
      | Idle \<Rightarrow> p)"

definition scan_line :: "nat \<Rightarrow> jstr \<Rightarrow> scan_state \<Rightarrow> scan_state" where
  "scan_line ln line st =
     (case matchMarker line OURS_PREFIX of
        Some oursLabel \<Rightarrow>
          st\<lparr>sc_partial := Some \<lparr>pb_startLine = ln, pb_oursLabel = or_undefined oursLabel, pb_oursLines = [],
               pb_baseLine = None, pb_baseLabel = None, pb_baseLines = None, pb_separatorLine = None,
               pb_theirsLines = None\<rparr>,
             sc_phase := Ours\<rparr>
      | None \<Rightarrow>
        (case sc_partial st of
           None \<Rightarrow> st
         | Some p \<Rightarrow>
           if sc_phase st = Idle then st
           else case matchMarker line BASE_PREFIX of
             Some baseLabel \<Rightarrow>
               if sc_phase st \<noteq> Ours then st\<lparr>sc_partial := None, sc_phase := Idle\<rparr>
               else st\<lparr>sc_partial := Some (p\<lparr>pb_baseLine := Some ln, pb_baseLabel := or_undefined baseLabel,
                                              pb_baseLines := Some []\<rparr>), sc_phase := Base\<rparr>
           | None \<Rightarrow>
             if line = SEPARATOR then
               if sc_phase st = Ours \<or> sc_phase st = Base
               then st\<lparr>sc_partial := Some (p\<lparr>pb_separatorLine := Some ln, pb_theirsLines := Some []\<rparr>), sc_phase := Theirs\<rparr>
               else st\<lparr>sc_partial := None, sc_phase := Idle\<rparr>
             else case matchMarker line THEIRS_PREFIX of
               Some theirsLabel \<Rightarrow>
                 st\<lparr>sc_blocks := sc_blocks st @ close_block ln theirsLabel (sc_phase st) p,
                    sc_partial := None, sc_phase := Idle\<rparr>
             | None \<Rightarrow> st\<lparr>sc_partial := Some (append_line line (sc_phase st) p)\<rparr>))"

fun scan_loop :: "nat \<Rightarrow> jstr list \<Rightarrow> scan_state \<Rightarrow> scan_state" where
  "scan_loop ln [] st = st"
| "scan_loop ln (line # lines) st = scan_loop (Suc ln) lines (scan_line ln line st)"

definition scanConflictLines :: "jstr list \<Rightarrow> nat \<Rightarrow> conflict_block list" where
  "scanConflictLines lines firstLineNumber =
     sc_blocks (scan_loop firstLineNumber lines \<lparr>sc_blocks = [], sc_phase = Idle, sc_partial = None\<rparr>)"

text \<open>The part of \<open>scanFileForConflicts\<close> after the decoded text is in hand.\<close>

definition scanFileForConflicts :: "jstr \<Rightarrow> nat \<Rightarrow> nat \<Rightarrow> conflict_block list \<times> bool" where
  "scanFileForConflicts txt0 fileSize maxBytes = (scanConflictLines (split_on 10 txt0) 1, fileSize > maxBytes)"

definition SCAN_FILE_DEFAULT_MAX_BYTES :: nat where
  "SCAN_FILE_DEFAULT_MAX_BYTES = 10 * 1024 * 1024"

section \<open>The history of a session\<close>

record conflict_entry = conflict_block +
  ce_id :: nat
  ce_absolutePath :: jstr
  ce_displayPath :: jstr

record conflict_history =
  nextId :: nat
  ch_entries :: "(nat \<times> conflict_entry) list"

definition new_history :: conflict_history where
  "new_history = \<lparr>nextId = 1, ch_entries = []\<rparr>"

text \<open>The first registered entry with the path and start line of the input.  The id of the input is what
  \<open>Omit\<close> leaves out; \<open>register\<close> sets it.\<close>

definition same_region :: "conflict_entry \<Rightarrow> conflict_entry \<Rightarrow> bool" where
  "same_region e inp \<longleftrightarrow> ce_absolutePath e = ce_absolutePath inp \<and> cb_startLine e = cb_startLine inp"

definition register :: "conflict_entry \<Rightarrow> conflict_history \<Rightarrow> conflict_entry \<times> conflict_history" where
  "register inp h =
     (case find (\<lambda>(i, e). same_region e inp) (ch_entries h) of
        Some (i, existing) \<Rightarrow>
          (let merged = inp\<lparr>ce_id := ce_id existing\<rparr>
           in (merged, h\<lparr>ch_entries := AList.update (ce_id existing) merged (ch_entries h)\<rparr>))
      | None \<Rightarrow>
          (let e = inp\<lparr>ce_id := nextId h\<rparr>
           in (e, h\<lparr>nextId := nextId h + 1, ch_entries := AList.update (nextId h) e (ch_entries h)\<rparr>)))"

definition history_get :: "nat \<Rightarrow> conflict_history \<Rightarrow> conflict_entry option" where
  "history_get i h = map_of (ch_entries h) i"

definition history_entries :: "conflict_history \<Rightarrow> conflict_entry list" where
  "history_entries h = map snd (ch_entries h)"

definition history_invalidate :: "nat \<Rightarrow> conflict_history \<Rightarrow> conflict_history" where
  "history_invalidate i h = h\<lparr>ch_entries := AList.delete i (ch_entries h)\<rparr>"

definition invalidatePath :: "jstr \<Rightarrow> conflict_history \<Rightarrow> conflict_history" where
  "invalidatePath p h = h\<lparr>ch_entries := filter (\<lambda>(i, e). ce_absolutePath e \<noteq> p) (ch_entries h)\<rparr>"

definition getConflictHistory :: "conflict_history option \<Rightarrow> conflict_history" where
  "getConflictHistory h = (case h of None \<Rightarrow> new_history | Some x \<Rightarrow> x)"

section \<open>URIs\<close>

datatype conflict_scope = Scope_ours | Scope_theirs | Scope_base

datatype conflict_id = Every | Id nat

record conflict_uri =
  cu_id :: conflict_id
  cu_scope :: "conflict_scope option"
  cu_recoveredPrefix :: "jstr option"

datatype conflict_error =
    Wildcard_with_scope jstr jstr
  | Invalid_id jstr
  | Id_below_one jstr
  | Invalid_scope jstr nat
  | Region_not_found nat jstr
  | No_base_section nat

definition CONFLICT_SCOPES :: "(jstr \<times> conflict_scope) list" where
  "CONFLICT_SCOPES = [(js ''ours'', Scope_ours), (js ''theirs'', Scope_theirs), (js ''base'', Scope_base)]"

definition CONFLICT_URI_RE :: rx where
  "CONFLICT_URI_RE =
     RSeqs [ROpt (RSeq (RCap 1 (RPlus (RCls is_dot))) (RChr 58)), RStr (js ''conflict://''),
            RCap 2 (RPlus (RCls is_dot)), REnd]"

text \<open>\<open>None\<close> stands for \<open>null\<close>.  Ids are exact integers: those of a session are counted from 1.\<close>

definition parseConflictUri :: "jstr \<Rightarrow> conflict_error + conflict_uri option" where
  "parseConflictUri raw =
     (case rexec CONFLICT_URI_RE raw of
        None \<Rightarrow> Inr None
      | Some st \<Rightarrow>
          (let recoveredPrefix = cap 1 st;
               tail = the (cap 2 st);
               idPart = takeWhile (\<lambda>c. c \<noteq> 47) tail;
               scopePart = (if 47 \<in> set tail then Some (drop (length idPart + 1) tail) else None)
           in if idPart = js ''*'' then
                (case scopePart of
                   Some s \<Rightarrow> Inl (Wildcard_with_scope raw s)
                 | None \<Rightarrow> Inr (Some \<lparr>cu_id = Every, cu_scope = None, cu_recoveredPrefix = recoveredPrefix\<rparr>))
              else if idPart = [] \<or> \<not> list_all is_digit idPart then Inl (Invalid_id raw)
              else
                let i = parse_digits idPart
                in if i < 1 then Inl (Id_below_one raw)
                   else case scopePart of
                     None \<Rightarrow> Inr (Some \<lparr>cu_id = Id i, cu_scope = None, cu_recoveredPrefix = recoveredPrefix\<rparr>)
                   | Some s \<Rightarrow>
                       (case map_of CONFLICT_SCOPES s of
                          None \<Rightarrow> Inl (Invalid_scope raw i)
                        | Some sc \<Rightarrow> Inr (Some \<lparr>cu_id = Id i, cu_scope = Some sc, cu_recoveredPrefix = recoveredPrefix\<rparr>))))"

section \<open>Resolution\<close>

text \<open>\<open>label ? `${prefix} ${label}` : prefix\<close>, with an absent or empty label falsy.\<close>

definition markerLine :: "jstr \<Rightarrow> jstr option \<Rightarrow> jstr" where
  "markerLine p label =
     (case label of Some l \<Rightarrow> if length l > 0 then p @ [32] @ l else p | None \<Rightarrow> p)"

definition buildRecordedRegion :: "('a conflict_block_scheme) \<Rightarrow> jstr list" where
  "buildRecordedRegion e =
     [markerLine OURS_PREFIX (cb_oursLabel e)] @ cb_oursLines e @
     (case cb_baseLines e of None \<Rightarrow> [] | Some b \<Rightarrow> [markerLine BASE_PREFIX (cb_baseLabel e)] @ b) @
     [SEPARATOR] @ cb_theirsLines e @ [markerLine THEIRS_PREFIX (cb_theirsLabel e)]"

definition matchesAt :: "jstr list \<Rightarrow> int \<Rightarrow> jstr list \<Rightarrow> bool" where
  "matchesAt lines startIdx expected \<longleftrightarrow>
     (if startIdx < 0 \<or> startIdx + int (length expected) > int (length lines) then False
      else list_all (\<lambda>i. lines ! (nat startIdx + i) = expected ! i) [0..<length expected])"

text \<open>The search for the closest match; \<open>None\<close> is the initial \<open>best\<close>, with an infinite distance.\<close>

fun closest_match :: "jstr list \<Rightarrow> jstr list \<Rightarrow> int \<Rightarrow> nat list \<Rightarrow> nat option \<Rightarrow> nat option" where
  "closest_match lines expected preferredIdx [] best = best"
| "closest_match lines expected preferredIdx (i # is) best =
     (if \<not> matchesAt lines (int i) expected then closest_match lines expected preferredIdx is best
      else let dist = \<bar>int i - preferredIdx\<bar>
           in closest_match lines expected preferredIdx is
                (case best of
                   None \<Rightarrow> Some i
                 | Some b \<Rightarrow> if dist < \<bar>int b - preferredIdx\<bar> then Some i else Some b))"

definition locateRegion :: "jstr list \<Rightarrow> jstr list \<Rightarrow> int \<Rightarrow> (nat \<times> nat) option" where
  "locateRegion lines expected preferredIdx =
     (if length expected = 0 \<or> length expected > length lines then None
      else if preferredIdx \<ge> 0 \<and> matchesAt lines preferredIdx expected
      then Some (nat preferredIdx, nat preferredIdx + length expected - 1)
      else map_option (\<lambda>best. (best, best + length expected - 1))
             (closest_match lines expected preferredIdx [0..<Suc (length lines - length expected)] None))"

definition normalizeTrailingNewline :: "jstr \<Rightarrow> jstr" where
  "normalizeTrailingNewline r =
     (if length r \<ge> 2 \<and> drop (length r - 2) r = [13, 10] then take (length r - 2) r
      else if r \<noteq> [] \<and> last r = 10 then butlast r
      else r)"

definition spliceConflict :: "jstr \<Rightarrow> conflict_entry \<Rightarrow> jstr \<Rightarrow> conflict_error + jstr" where
  "spliceConflict originalText entry replacement =
     (let lines = split_on 10 originalText;
          expected = buildRecordedRegion entry
      in case locateRegion lines expected (int (cb_startLine entry) - 1) of
           None \<Rightarrow> Inl (Region_not_found (ce_id entry) (ce_displayPath entry))
         | Some (startIdx, endIdx) \<Rightarrow>
             (let replacementLines = split_on 10 (normalizeTrailingNewline replacement)
              in Inr (join_with [10] (take startIdx lines @ replacementLines @ drop (endIdx + 1) lines))))"

fun expand_lines :: "conflict_entry \<Rightarrow> jstr list \<Rightarrow> conflict_error + jstr list" where
  "expand_lines entry [] = Inr []"
| "expand_lines entry (rawLine # rest) =
     (let line = strip_cr rawLine
      in case (if line = js ''@ours'' then Inr (cb_oursLines entry)
               else if line = js ''@theirs'' then Inr (cb_theirsLines entry)
               else if line = js ''@base'' then
                 (case cb_baseLines entry of None \<Rightarrow> Inl (No_base_section (ce_id entry)) | Some b \<Rightarrow> Inr b)
               else if line = js ''@both'' then Inr (cb_oursLines entry @ cb_theirsLines entry)
               else Inr [rawLine]) of
           Inl err \<Rightarrow> Inl err
         | Inr out \<Rightarrow> (case expand_lines entry rest of Inl err \<Rightarrow> Inl err | Inr outs \<Rightarrow> Inr (out @ outs)))"

definition expandContentTokens :: "jstr \<Rightarrow> conflict_entry \<Rightarrow> conflict_error + jstr" where
  "expandContentTokens content entry =
     (case expand_lines entry (split_on 10 content) of Inl err \<Rightarrow> Inl err | Inr out \<Rightarrow> Inr (join_with [10] out))"

definition renderConflictRegion :: "conflict_entry \<Rightarrow> conflict_scope option \<Rightarrow> conflict_error + jstr list \<times> nat" where
  "renderConflictRegion entry scope =
     (case scope of
        Some Scope_ours \<Rightarrow> Inr (cb_oursLines entry, cb_startLine entry + 1)
      | Some Scope_theirs \<Rightarrow> Inr (cb_theirsLines entry, cb_separatorLine entry + 1)
      | Some Scope_base \<Rightarrow>
          (case (cb_baseLines entry, cb_baseLine entry) of
             (Some b, Some l) \<Rightarrow> Inr (b, l + 1)
           | _ \<Rightarrow> Inl (No_base_section (ce_id entry)))
      | None \<Rightarrow>
          Inr ([markerLine (js ''<<<<<<<'') (cb_oursLabel entry)] @ cb_oursLines entry @
               (case cb_baseLines entry of
                  None \<Rightarrow> [] | Some b \<Rightarrow> [markerLine (js ''|||||||'') (cb_baseLabel entry)] @ b) @
               [js ''=======''] @ cb_theirsLines entry @ [markerLine (js ''>>>>>>>'') (cb_theirsLabel entry)],
               cb_startLine entry))"

section \<open>Reports\<close>

text \<open>Code units of the warning sign, the box line, the identity sign and the ellipsis: 9888, 9472, 8801,
  8230.\<close>

definition PREVIEW_SIDE_LINES :: nat where
  "PREVIEW_SIDE_LINES = 6"

fun pickLabel :: "conflict_entry list \<Rightarrow> (conflict_entry \<Rightarrow> jstr option) \<Rightarrow> jstr option" where
  "pickLabel [] get = None"
| "pickLabel (e # es) get =
     (case get e of
        Some label \<Rightarrow> if label \<noteq> [] \<and> length (trim label) > 0 then Some label else pickLabel es get
      | None \<Rightarrow> pickLabel es get)"

definition sectionsEqual :: "jstr list \<Rightarrow> jstr list \<Rightarrow> bool" where
  "sectionsEqual a b =
     (if length a \<noteq> length b then False else list_all (\<lambda>i. a ! i = b ! i) [0..<length a])"

definition appendBody :: "jstr list \<Rightarrow> jstr list \<Rightarrow> jstr list" where
  "appendBody out sec =
     (if length sec = 0 then out @ [js ''(empty)'']
      else let shown = take PREVIEW_SIDE_LINES sec;
               hidden = length sec - length shown
           in out @ shown @
              (if hidden > 0 then [[8230] @ js '' ('' @ nat_str hidden @ js '' more line'' @ (if hidden = 1 then [] else js ''s'') @ js '')'']
               else []))"

record warning_options =
  wo_totalInFile :: "nat option"
  wo_displayPath :: "jstr option"
  wo_scanTruncated :: bool

definition SCAN_NOTE :: jstr where
  "SCAN_NOTE = js ''- note: file scan hit the byte cap; additional conflicts may exist beyond the scanned prefix.''"

definition WARNING_NOTICE :: jstr where
  \<open>WARNING_NOTICE = js ''NOTICE: Inspect a block by reading `conflict://<N>` (add `/ours` / `/theirs` / `/base` to render a single side). Resolve with `write({ path: "conflict://<N>", content })`, or bulk-resolve every registered conflict with `write({ path: "conflict://*", content })`. Writes replace the whole conflict region (markers + all sides).''\<close>

definition WARNING_SHORTHAND :: jstr where
  \<open>WARNING_SHORTHAND = js ''`content` shorthand: a line that is exactly `@ours` / `@theirs` / `@base` / `@both` expands to that recorded section. `@both` is ours-then-theirs with no separator. Lines that are not a token pass through verbatim, so `"// keep both'' @ [92] @ js ''n@ours'' @ [92] @ js ''n@theirs"` literally writes the comment, then ours, then theirs.''\<close>

definition SUMMARY_NOTICE :: jstr where
  \<open>SUMMARY_NOTICE = js ''NOTICE: Bulk-resolve with `write({ path: "conflict://*", content })`, or address a single block with `write({ path: "conflict://<N>", content })`. Inspect a block by reading `conflict://<N>` (add `/ours` / `/theirs` / `/base` for a single side).''\<close>

definition SUMMARY_SHORTHAND :: jstr where
  "SUMMARY_SHORTHAND = js ''`content` shorthand: `@ours` / `@theirs` / `@base` / `@both` lines expand to the recorded sections; `@both` = ours-then-theirs. Non-token lines pass through verbatim.''"

text \<open>The label lines that both reports share.\<close>

definition label_lines :: "conflict_entry list \<Rightarrow> jstr list" where
  "label_lines entries =
     (let oursLabel = pickLabel entries cb_oursLabel;
          theirsLabel = pickLabel entries cb_theirsLabel;
          baseLabel = pickLabel entries (\<lambda>e. if cb_baseLines e \<noteq> None then cb_baseLabel e else None);
          anyBase = list_ex (\<lambda>e. cb_baseLines e \<noteq> None) entries
      in (case oursLabel of Some l \<Rightarrow> [js ''- ours = '' @ l] | None \<Rightarrow> []) @
         (case theirsLabel of Some l \<Rightarrow> [js ''- theirs = '' @ l] | None \<Rightarrow> []) @
         (if anyBase then [js ''- base = '' @ (case baseLabel of Some l \<Rightarrow> l | None \<Rightarrow> js ''(no label)'')] else []))"

definition line_range :: "conflict_entry \<Rightarrow> jstr" where
  "line_range e =
     (if cb_startLine e = cb_endLine e then js ''L'' @ nat_str (cb_startLine e)
      else js ''L'' @ nat_str (cb_startLine e) @ js ''-'' @ nat_str (cb_endLine e))"

definition warning_entry :: "conflict_entry \<Rightarrow> jstr list" where
  "warning_entry e =
     (let bar = replicate 4 9472;
          out = [[], bar @ js '' #'' @ nat_str (ce_id e) @ js ''  '' @ line_range e @ js '' '' @ bar, js ''<<< ours''];
          out = appendBody out (cb_oursLines e);
          out = (case cb_baseLines e of
                   None \<Rightarrow> out
                 | Some b \<Rightarrow>
                     if sectionsEqual b (cb_oursLines e) then out @ [js ''=== base '' @ [8801] @ js '' ours'']
                     else if sectionsEqual b (cb_theirsLines e) then out @ [js ''=== base '' @ [8801] @ js '' theirs'']
                     else appendBody (out @ [js ''=== base'']) b)
      in if sectionsEqual (cb_theirsLines e) (cb_oursLines e) then out @ [js ''>>> theirs '' @ [8801] @ js '' ours'']
         else appendBody (out @ [js ''>>> theirs'']) (cb_theirsLines e))"

definition formatConflictWarning :: "conflict_entry list \<Rightarrow> warning_options \<Rightarrow> jstr" where
  "formatConflictWarning entries options =
     (if length entries = 0 then []
      else
        let total = (case wo_totalInFile options of Some t \<Rightarrow> t | None \<Rightarrow> length entries);
            partial = (total > length entries);
            word = (if total = 1 then js ''conflict'' else js ''conflicts'');
            hintPath = (case wo_displayPath options of Some p \<Rightarrow> p | None \<Rightarrow> js ''<file>'')
        in join_with [10]
             ([[]] @
              [if partial
               then [9888] @ js '' '' @ nat_str (length entries) @ js '' of '' @ nat_str total @ js '' unresolved '' @ word
                      @ js '' visible in this window (read `'' @ hintPath @ js '':conflicts` for the full list).''
               else [9888] @ js '' '' @ nat_str total @ js '' unresolved '' @ word @ js '' detected''] @
              (if wo_scanTruncated options then [SCAN_NOTE] else []) @
              label_lines entries @ [WARNING_NOTICE, WARNING_SHORTHAND] @ concat (map warning_entry entries)))"

definition formatConflictSummary :: "conflict_entry list \<Rightarrow> jstr \<Rightarrow> bool \<Rightarrow> jstr" where
  "formatConflictSummary entries displayPath scanTruncated =
     (let total = length entries;
          word = (if total = 1 then js ''conflict'' else js ''conflicts'');
          idWidth = length (nat_str (if entries = [] then 1 else ce_id (last entries)))
      in join_with [10]
           ([[9888] @ js '' '' @ nat_str total @ js '' unresolved '' @ word @ js '' in ''
               @ (if displayPath \<noteq> [] then displayPath else js ''<file>'')] @
            (if scanTruncated then [SCAN_NOTE] else []) @
            label_lines entries @ [SUMMARY_NOTICE, SUMMARY_SHORTHAND, []] @
            map (\<lambda>e. js ''#'' @ padStart idWidth (nat_str (ce_id e)) @ js ''  '' @ line_range e
                      @ (if cb_baseLines e \<noteq> None then js ''  (3-way)'' else [])) entries))"

section \<open>Markers\<close>

lemmas prefix_defs = OURS_PREFIX_def BASE_PREFIX_def THEIRS_PREFIX_def SEPARATOR_def

definition label_ok :: "jstr option \<Rightarrow> bool" where
  "label_ok l \<longleftrightarrow> l \<noteq> Some []"

lemma or_undefined_ok [simp]: "label_ok (or_undefined s)"
  by (simp add: label_ok_def or_undefined_def)

text \<open>A marker that ends in a space has an empty label, which the recorded block does not keep.\<close>

definition bare_space :: "jstr \<Rightarrow> bool" where
  "bare_space line \<longleftrightarrow> line \<in> {OURS_PREFIX @ [32], BASE_PREFIX @ [32], THEIRS_PREFIX @ [32]}"

lemma matchMarker_line:
  assumes "matchMarker line p = Some label" "line \<noteq> p @ [32]"
  shows "line = markerLine p (or_undefined label)"
proof -
  have p: "take (length p) line = p" using assms(1) by (auto simp: matchMarker_def split: if_splits)
  show ?thesis
  proof (cases "length line = length p")
    case True
    then have "line = p" "label = []" using p assms(1) by (auto simp: matchMarker_def)
    then show ?thesis by (simp add: markerLine_def or_undefined_def)
  next
    case False
    then have s: "line ! length p = 32" "label = drop (length p + 1) line" "length p < length line"
      using assms(1) p by (auto simp: matchMarker_def split: if_splits) (metis le_neq_implies_less length_take min_def nat_le_linear)
    have "line = p @ line ! length p # drop (Suc (length p)) line"
      using id_take_nth_drop [OF s(3)] p by simp
    then have "line = p @ [32] @ label" using s by simp
    then show ?thesis using assms(2) by (auto simp: markerLine_def or_undefined_def)
  qed
qed

lemma matchMarker_own: "label_ok l \<Longrightarrow> matchMarker (markerLine p l) p = Some (case l of None \<Rightarrow> [] | Some s \<Rightarrow> s)"
  by (auto simp: matchMarker_def markerLine_def label_ok_def nth_append split: option.splits)

lemma matchMarker_other:
  "p \<noteq> [] \<Longrightarrow> q \<noteq> [] \<Longrightarrow> hd p \<noteq> hd q \<Longrightarrow> matchMarker (markerLine p l) q = None"
  by (cases p; cases q) (auto simp: matchMarker_def markerLine_def split: option.splits)

lemma markers [simp]:
  "label_ok l \<Longrightarrow> matchMarker (markerLine OURS_PREFIX l) OURS_PREFIX = Some (case l of None \<Rightarrow> [] | Some s \<Rightarrow> s)"
  "label_ok l \<Longrightarrow> matchMarker (markerLine BASE_PREFIX l) BASE_PREFIX = Some (case l of None \<Rightarrow> [] | Some s \<Rightarrow> s)"
  "label_ok l \<Longrightarrow> matchMarker (markerLine THEIRS_PREFIX l) THEIRS_PREFIX = Some (case l of None \<Rightarrow> [] | Some s \<Rightarrow> s)"
  "matchMarker (markerLine BASE_PREFIX l) OURS_PREFIX = None"
  "matchMarker (markerLine THEIRS_PREFIX l) OURS_PREFIX = None"
  "matchMarker (markerLine THEIRS_PREFIX l) BASE_PREFIX = None"
  "matchMarker SEPARATOR OURS_PREFIX = None" "matchMarker SEPARATOR BASE_PREFIX = None"
  "markerLine THEIRS_PREFIX l \<noteq> SEPARATOR"
  by (simp_all add: matchMarker_own) (auto intro!: matchMarker_other simp: prefix_defs js_eval matchMarker_def markerLine_def split: option.splits)

lemma or_undefined_case [simp]: "label_ok l \<Longrightarrow> or_undefined (case l of None \<Rightarrow> [] | Some s \<Rightarrow> s) = l"
  by (auto simp: or_undefined_def label_ok_def split: option.splits)

section \<open>The scanner records what the file has\<close>

definition partial_region :: "partial_block \<Rightarrow> jstr list" where
  "partial_region p =
     [markerLine OURS_PREFIX (pb_oursLabel p)] @ pb_oursLines p @
     (case pb_baseLines p of None \<Rightarrow> [] | Some b \<Rightarrow> markerLine BASE_PREFIX (pb_baseLabel p) # b) @
     (case pb_theirsLines p of None \<Rightarrow> [] | Some t \<Rightarrow> SEPARATOR # t)"

fun phase_ok :: "phase \<Rightarrow> partial_block \<Rightarrow> bool" where
  "phase_ok Idle p = False"
| "phase_ok Ours p = (pb_baseLines p = None \<and> pb_theirsLines p = None)"
| "phase_ok Base p = (pb_baseLines p \<noteq> None \<and> pb_theirsLines p = None)"
| "phase_ok Theirs p = (pb_theirsLines p \<noteq> None)"

definition recorded :: "nat \<Rightarrow> jstr list \<Rightarrow> conflict_block \<Rightarrow> bool" where
  "recorded first seen b \<longleftrightarrow>
     (\<exists>pre post. seen = pre @ buildRecordedRegion b @ post \<and> cb_startLine b = first + length pre \<and>
        cb_endLine b + 1 = cb_startLine b + length (buildRecordedRegion b))"

definition scan_inv :: "nat \<Rightarrow> jstr list \<Rightarrow> scan_state \<Rightarrow> bool" where
  "scan_inv first seen st \<longleftrightarrow>
     list_all (recorded first seen) (sc_blocks st) \<and>
     (case sc_partial st of
        None \<Rightarrow> sc_phase st = Idle
      | Some p \<Rightarrow> phase_ok (sc_phase st) p \<and>
          (\<exists>pre. seen = pre @ partial_region p \<and> pb_startLine p = first + length pre))"

lemma recorded_append: "recorded first seen b \<Longrightarrow> recorded first (seen @ rest) b"
  unfolding recorded_def by (metis append.assoc)

lemma close_recorded:
  assumes "phase_ok ph p" "seen = pre @ partial_region p" "pb_startLine p = first + length pre"
    and "line = markerLine THEIRS_PREFIX (or_undefined label)"
  shows "list_all (recorded first (seen @ [line])) (close_block (first + length seen) label ph p)"
proof (cases "close_block (first + length seen) label ph p")
  case (Cons b bs)
  then obtain sep t where p: "ph = Theirs" "pb_separatorLine p = Some sep" "pb_theirsLines p = Some t"
    by (auto simp: close_block_def split: phase.splits option.splits)
  have "buildRecordedRegion b = partial_region p @ [line]" "bs = []" "cb_startLine b = pb_startLine p"
    "cb_endLine b = first + length seen"
    using Cons p assms(4) by (auto simp: close_block_def buildRecordedRegion_def partial_region_def split: option.splits)
  moreover from this have "recorded first (seen @ [line]) b"
    unfolding recorded_def using assms(2,3) by (intro exI [of _ pre] exI [of _ "[]"]) simp
  ultimately show ?thesis using Cons by simp
qed simp

lemma append_line_region:
  "phase_ok ph p \<Longrightarrow> phase_ok ph (append_line line ph p) \<and> partial_region (append_line line ph p) = partial_region p @ [line] \<and>
     pb_startLine (append_line line ph p) = pb_startLine p"
  by (cases ph) (auto simp: append_line_def partial_region_def split: option.splits)

lemma scan_line_inv:
  assumes inv: "scan_inv first seen st" and line: "\<not> bare_space line"
  shows "scan_inv first (seen @ [line]) (scan_line (first + length seen) line st)"
proof -
  have old: "list_all (recorded first (seen @ [line])) (sc_blocks st)"
    using inv recorded_append by (auto simp: scan_inv_def list_all_iff)
  have shape: "matchMarker line q = Some l \<Longrightarrow> q \<in> {OURS_PREFIX, BASE_PREFIX, THEIRS_PREFIX} \<Longrightarrow>
      line = markerLine q (or_undefined l)" for q l
    using matchMarker_line [of line q l] line by (auto simp: bare_space_def)
  show ?thesis
  proof (cases "matchMarker line OURS_PREFIX")
    case (Some l)
    then show ?thesis using old shape [OF Some] by (auto simp: scan_inv_def scan_line_def partial_region_def)
  next
    case no_ours: None
    show ?thesis
    proof (cases "sc_partial st")
      case None
      then show ?thesis using old no_ours inv by (simp add: scan_inv_def scan_line_def)
    next
      case (Some p)
      obtain pre where p: "phase_ok (sc_phase st) p" "seen = pre @ partial_region p" "pb_startLine p = first + length pre"
        using inv Some by (auto simp: scan_inv_def)
      have busy: "sc_phase st \<noteq> Idle" using p(1) by auto
      note go = scan_line_def scan_inv_def no_ours Some busy
      consider (base) l where "matchMarker line BASE_PREFIX = Some l"
        | (sep) "matchMarker line BASE_PREFIX = None" "line = SEPARATOR"
        | (theirs) l where "matchMarker line BASE_PREFIX = None" "line \<noteq> SEPARATOR" "matchMarker line THEIRS_PREFIX = Some l"
        | (plain) "matchMarker line BASE_PREFIX = None" "line \<noteq> SEPARATOR" "matchMarker line THEIRS_PREFIX = None"
        by (cases "matchMarker line BASE_PREFIX"; cases "matchMarker line THEIRS_PREFIX") auto
      then show ?thesis
      proof cases
        case base
        then show ?thesis using old p shape [OF base] by (cases "sc_phase st") (auto simp: go partial_region_def)
      next
        case sep
        then show ?thesis using old p by (cases "sc_phase st") (auto simp: go partial_region_def)
      next
        case theirs
        then show ?thesis
          using old close_recorded [OF p shape [OF theirs(3)]] by (simp add: go)
      next
        case plain
        then show ?thesis using old p append_line_region [OF p(1), of line] by (auto simp: go)
      qed
    qed
  qed
qed

lemma scan_loop_inv:
  "scan_inv first seen st \<Longrightarrow> list_all (\<lambda>l. \<not> bare_space l) lines \<Longrightarrow>
   scan_inv first (seen @ lines) (scan_loop (first + length seen) lines st)"
proof (induction lines arbitrary: seen st)
  case (Cons line lines)
  then show ?case using Cons.IH [OF scan_line_inv [OF Cons.prems(1)], of line] by simp
qed simp

lemma scanned_blocks_recorded:
  assumes "list_all (\<lambda>l. \<not> bare_space l) lines" "b \<in> set (scanConflictLines lines first)"
  shows "recorded first lines b"
  using scan_loop_inv [of first "[]" "\<lparr>sc_blocks = [], sc_phase = Idle, sc_partial = None\<rparr>" lines] assms
  by (auto simp: scan_inv_def scanConflictLines_def list_all_iff)

section \<open>Splicing\<close>

definition occurs_at :: "jstr list \<Rightarrow> jstr list \<Rightarrow> nat \<Rightarrow> bool" where
  "occurs_at lines expected i \<longleftrightarrow> (\<exists>pre post. lines = pre @ expected @ post \<and> length pre = i)"

lemma matchesAt_occurs: "matchesAt lines (int i) expected = occurs_at lines expected i"
proof
  assume m: "matchesAt lines (int i) expected"
  then have le: "i + length expected \<le> length lines" and nth: "\<forall>k < length expected. lines ! (i + k) = expected ! k"
    by (auto simp: matchesAt_def list_all_iff split: if_splits)
  have "take (length expected) (drop i lines) = expected"
    using le nth by (intro nth_equalityI) auto
  then have "lines = take i lines @ expected @ drop (length expected) (drop i lines)"
    by (metis append_take_drop_id)
  moreover have "length (take i lines) = i" using le by simp
  ultimately show "occurs_at lines expected i" unfolding occurs_at_def by blast
next
  assume "occurs_at lines expected i"
  then show "matchesAt lines (int i) expected"
    by (auto simp: occurs_at_def matchesAt_def list_all_iff nth_append)
qed

lemma closest_match_spec:
  "case closest_match lines expected pref ks best of
     None \<Rightarrow> best = None \<and> (\<forall>k \<in> set ks. \<not> occurs_at lines expected k)
   | Some i \<Rightarrow> (best = Some i \<or> i \<in> set ks \<and> occurs_at lines expected i) \<and>
       (\<forall>k. best = Some k \<or> k \<in> set ks \<and> occurs_at lines expected k \<longrightarrow> \<bar>int i - pref\<bar> \<le> \<bar>int k - pref\<bar>)"
proof (induction lines expected pref ks best rule: closest_match.induct)
  case (2 lines expected pref i ks best)
  show ?case
  proof (cases "occurs_at lines expected i")
    case True
    then have m: "matchesAt lines (int i) expected" by (simp add: matchesAt_occurs)
    let ?b = "case best of None \<Rightarrow> Some i | Some b \<Rightarrow> if \<bar>int i - pref\<bar> < \<bar>int b - pref\<bar> then Some i else Some b"
    obtain b where b: "?b = Some b" "b = i \<or> best = Some b" "\<bar>int b - pref\<bar> \<le> \<bar>int i - pref\<bar>"
      "\<And>k. best = Some k \<Longrightarrow> \<bar>int b - pref\<bar> \<le> \<bar>int k - pref\<bar>"
    proof (cases "best = None \<or> \<bar>int i - pref\<bar> < \<bar>int (the best) - pref\<bar>")
      case True
      then show thesis by (cases best; intro that [of i]) auto
    next
      case False
      then show thesis by (intro that [of "the best"]) auto
    qed
    have "closest_match lines expected pref (i # ks) best = closest_match lines expected pref ks (Some b)"
      using m b(1) by (simp add: Let_def)
    moreover have "case closest_match lines expected pref ks (Some b) of None \<Rightarrow> False
      | Some j \<Rightarrow> (j = b \<or> j \<in> set ks \<and> occurs_at lines expected j) \<and>
         (\<forall>k. k = b \<or> k \<in> set ks \<and> occurs_at lines expected k \<longrightarrow> \<bar>int j - pref\<bar> \<le> \<bar>int k - pref\<bar>)"
      using 2(2) m b(1) by (auto split: option.splits)
    then obtain j where "closest_match lines expected pref ks (Some b) = Some j"
      "j = b \<or> j \<in> set ks \<and> occurs_at lines expected j"
      "\<And>k. k = b \<or> k \<in> set ks \<and> occurs_at lines expected k \<Longrightarrow> \<bar>int j - pref\<bar> \<le> \<bar>int k - pref\<bar>"
      by (auto split: option.splits)
    ultimately show ?thesis using b(2-4) True by (simp del: closest_match.simps) (metis order_trans)
  next
    case False
    then show ?thesis using 2(1) by (auto simp: matchesAt_occurs split: option.splits)
  qed
qed (simp split: option.splits)

lemma locateRegion_spec:
  assumes "expected \<noteq> []"
  shows "case locateRegion lines expected pref of
     None \<Rightarrow> \<forall>k. \<not> occurs_at lines expected k
   | Some (i, j) \<Rightarrow> occurs_at lines expected i \<and> j + 1 = i + length expected \<and>
       (\<forall>k. occurs_at lines expected k \<longrightarrow> \<bar>int i - pref\<bar> \<le> \<bar>int k - pref\<bar>)"
proof -
  have bound: "occurs_at lines expected k \<Longrightarrow> k \<in> set [0..<Suc (length lines - length expected)] \<and> length expected \<le> length lines" for k
    by (auto simp: occurs_at_def)
  show ?thesis
  proof (cases "length expected > length lines")
    case True
    then show ?thesis using bound by (fastforce simp: locateRegion_def)
  next
    case False
    show ?thesis
    proof (cases "pref \<ge> 0 \<and> matchesAt lines pref expected")
      case True
      then have "occurs_at lines expected (nat pref)" using matchesAt_occurs [of lines "nat pref" expected] by simp
      then show ?thesis using True False assms by (simp add: locateRegion_def)
    next
      case miss: False
      let ?c = "closest_match lines expected pref [0..<Suc (length lines - length expected)] None"
      have "locateRegion lines expected pref = map_option (\<lambda>i. (i, i + length expected - 1)) ?c"
        using False miss assms by (auto simp: locateRegion_def simp del: upt_Suc)
      moreover note closest_match_spec [where lines = lines and expected = expected and pref = pref
          and ks = "[0..<Suc (length lines - length expected)]" and best = None]
      ultimately show ?thesis
        using bound assms by (cases ?c) (simp_all del: upt_Suc set_upt, blast+)
    qed
  qed
qed

lemma region_not_Nil [simp]: "buildRecordedRegion e \<noteq> []"
  by (simp add: buildRecordedRegion_def)

lemma spliceConflict_at:
  assumes "locateRegion (split_on 10 t) (buildRecordedRegion e) (int (cb_startLine e) - 1) = Some (length pre, j)"
    and "split_on 10 t = pre @ buildRecordedRegion e @ post" "j + 1 = length pre + length (buildRecordedRegion e)"
  shows "spliceConflict t e r = Inr (join_with [10] (pre @ split_on 10 (normalizeTrailingNewline r) @ post))"
  using assms by (simp add: spliceConflict_def Let_def)

text \<open>A block of an unchanged file is found where it was recorded.\<close>

lemma locate_recorded:
  assumes "lines = pre @ expected @ post" "expected \<noteq> []"
  shows "locateRegion lines expected (int (length pre)) = Some (length pre, length pre + length expected - 1)"
proof -
  have "matchesAt lines (int (length pre)) expected" using assms by (auto simp: matchesAt_occurs occurs_at_def)
  then show ?thesis using assms by (simp add: locateRegion_def)
qed

section \<open>Printing and scanning\<close>

datatype segment = Line jstr | Conflict conflict_block

fun segment_lines :: "segment \<Rightarrow> jstr list" where
  "segment_lines (Line l) = [l]"
| "segment_lines (Conflict b) = buildRecordedRegion b"

definition text_line :: "jstr \<Rightarrow> bool" where
  "text_line l \<longleftrightarrow> matchMarker l OURS_PREFIX = None \<and> matchMarker l BASE_PREFIX = None \<and> l \<noteq> SEPARATOR \<and>
     matchMarker l THEIRS_PREFIX = None"

fun segment_ok :: "segment \<Rightarrow> bool" where
  "segment_ok (Line l) = (matchMarker l OURS_PREFIX = None)"
| "segment_ok (Conflict b) =
     (label_ok (cb_oursLabel b) \<and> label_ok (cb_baseLabel b) \<and> label_ok (cb_theirsLabel b) \<and>
      list_all text_line (cb_oursLines b) \<and> list_all text_line (cb_theirsLines b) \<and>
      (case cb_baseLines b of None \<Rightarrow> cb_baseLabel b = None | Some ls \<Rightarrow> list_all text_line ls))"

text \<open>The block with the line numbers it has when its first marker is on line \<open>ln\<close>.\<close>

definition place :: "nat \<Rightarrow> conflict_block \<Rightarrow> conflict_block" where
  "place ln b =
     (let base = ln + 1 + length (cb_oursLines b);
          sep = (case cb_baseLines b of None \<Rightarrow> base | Some ls \<Rightarrow> base + 1 + length ls)
      in b\<lparr>cb_startLine := ln, cb_baseLine := (case cb_baseLines b of None \<Rightarrow> None | Some ls \<Rightarrow> Some base),
           cb_separatorLine := sep, cb_endLine := sep + 1 + length (cb_theirsLines b)\<rparr>)"

fun placed :: "nat \<Rightarrow> segment list \<Rightarrow> conflict_block list" where
  "placed ln [] = []"
| "placed ln (Line l # segs) = placed (Suc ln) segs"
| "placed ln (Conflict b # segs) = place ln b # placed (ln + length (buildRecordedRegion b)) segs"

lemma scan_loop_append: "scan_loop ln (xs @ ys) st = scan_loop (ln + length xs) ys (scan_loop ln xs st)"
  by (induction xs arbitrary: ln st) auto

lemma scan_text_line:
  "text_line l \<Longrightarrow> ph \<noteq> Idle \<Longrightarrow>
   scan_line ln l \<lparr>sc_blocks = bs, sc_phase = ph, sc_partial = Some p\<rparr> =
     \<lparr>sc_blocks = bs, sc_phase = ph, sc_partial = Some (append_line l ph p)\<rparr>"
  by (simp add: scan_line_def text_line_def)

lemma scan_text:
  "list_all text_line ls \<Longrightarrow> ph \<noteq> Idle \<Longrightarrow>
   scan_loop ln ls \<lparr>sc_blocks = bs, sc_phase = ph, sc_partial = Some p\<rparr> =
     \<lparr>sc_blocks = bs, sc_phase = ph, sc_partial = Some (fold (\<lambda>l. append_line l ph) ls p)\<rparr>"
  by (induction ls arbitrary: ln p) (auto simp: scan_text_line)

lemma append_text:
  "fold (\<lambda>l. append_line l Ours) ls p = p\<lparr>pb_oursLines := pb_oursLines p @ ls\<rparr>"
  "pb_baseLines p = Some b \<Longrightarrow> fold (\<lambda>l. append_line l Base) ls p = p\<lparr>pb_baseLines := Some (b @ ls)\<rparr>"
  "pb_theirsLines p = Some b \<Longrightarrow> fold (\<lambda>l. append_line l Theirs) ls p = p\<lparr>pb_theirsLines := Some (b @ ls)\<rparr>"
  by (induction ls arbitrary: p b) (auto simp: append_line_def)

lemma scan_block:
  assumes "segment_ok (Conflict b)" "sc_phase st = Idle" "sc_partial st = None"
  shows "scan_loop ln (buildRecordedRegion b) st = st\<lparr>sc_blocks := sc_blocks st @ [place ln b]\<rparr>"
proof -
  obtain bs where st: "st = \<lparr>sc_blocks = bs, sc_phase = Idle, sc_partial = None\<rparr>" using assms(2,3) by (cases st) auto
  show ?thesis
    using assms(1)
    by (cases b; cases "cb_baseLines b")
      (auto simp: st buildRecordedRegion_def scan_loop_append scan_text append_text scan_line_def close_block_def place_def Let_def)
qed

lemma scan_segments:
  "list_all segment_ok segs \<Longrightarrow> sc_phase st = Idle \<Longrightarrow> sc_partial st = None \<Longrightarrow>
   scan_loop ln (concat (map segment_lines segs)) st = st\<lparr>sc_blocks := sc_blocks st @ placed ln segs\<rparr>"
proof (induction ln segs arbitrary: st rule: placed.induct)
  case (2 ln l segs)
  then show ?case by (simp add: scan_line_def)
next
  case (3 ln b segs)
  then show ?case by (simp add: scan_loop_append scan_block)
qed simp

section \<open>Ids\<close>

definition history_inv :: "conflict_history \<Rightarrow> bool" where
  "history_inv h \<longleftrightarrow>
     distinct (map fst (ch_entries h)) \<and>
     (\<forall>i e. history_get i h = Some e \<longrightarrow> ce_id e = i \<and> 0 < i \<and> i < nextId h) \<and>
     (\<forall>i j e f. history_get i h = Some e \<longrightarrow> history_get j h = Some f \<longrightarrow> same_region e f \<longrightarrow> i = j) \<and>
     0 < nextId h"

datatype history_call = Register_call conflict_entry | Invalidate_call nat | Invalidate_path_call jstr

definition history_step :: "conflict_history \<Rightarrow> history_call \<Rightarrow> conflict_history" where
  "history_step h call =
     (case call of
        Register_call e \<Rightarrow> snd (register e h)
      | Invalidate_call i \<Rightarrow> history_invalidate i h
      | Invalidate_path_call p \<Rightarrow> invalidatePath p h)"

lemma register_cases:
  assumes "history_inv h"
  obtains (old) i e where "history_get i h = Some e" "same_region e inp"
      "register inp h = (inp\<lparr>ce_id := i\<rparr>, h\<lparr>ch_entries := AList.update i (inp\<lparr>ce_id := i\<rparr>) (ch_entries h)\<rparr>)"
  | (new) "\<And>i e. history_get i h = Some e \<Longrightarrow> \<not> same_region e inp"
      "register inp h = (inp\<lparr>ce_id := nextId h\<rparr>,
         h\<lparr>nextId := nextId h + 1, ch_entries := AList.update (nextId h) (inp\<lparr>ce_id := nextId h\<rparr>) (ch_entries h)\<rparr>)"
proof (cases "find (\<lambda>(i, e). same_region e inp) (ch_entries h)")
  case None
  then have "history_get i h = Some e \<Longrightarrow> \<not> same_region e inp" for i e
    by (auto simp: find_None_iff history_get_def dest: map_of_SomeD)
  with None new show thesis by (simp add: register_def Let_def)
next
  case (Some p)
  then obtain i e where p: "p = (i, e)" "(i, e) \<in> set (ch_entries h)" "same_region e inp"
    by (cases p) (auto simp: find_Some_iff, metis nth_mem)
  then have g: "history_get i h = Some e" using assms by (simp add: history_get_def history_inv_def)
  then have "ce_id e = i" using assms by (auto simp: history_inv_def)
  with Some p g old show thesis by (simp add: register_def Let_def)
qed

lemma register_get:
  "history_get j (h\<lparr>nextId := n, ch_entries := AList.update i e (ch_entries h)\<rparr>) = (if j = i then Some e else history_get j h)"
  "history_get j (h\<lparr>ch_entries := AList.update i e (ch_entries h)\<rparr>) = (if j = i then Some e else history_get j h)"
  by (auto simp: history_get_def update_conv)

lemma same_region_simps [simp]:
  "same_region (e\<lparr>ce_id := i\<rparr>) f = same_region e f" "same_region e (f\<lparr>ce_id := i\<rparr>) = same_region e f" "same_region e e"
  by (simp_all add: same_region_def)

lemma same_region_sym: "same_region e f \<Longrightarrow> same_region f e"
  by (simp add: same_region_def)

lemma same_region_trans: "same_region e f \<Longrightarrow> same_region f g \<Longrightarrow> same_region e g"
  by (simp add: same_region_def)

lemma history_facts:
  assumes "history_inv h" "history_get i h = Some e"
  shows "ce_id e = i" "0 < i" "i < nextId h" "history_get j h = Some f \<Longrightarrow> same_region e f \<Longrightarrow> i = j"
proof -
  have "\<forall>i e. history_get i h = Some e \<longrightarrow> ce_id e = i \<and> 0 < i \<and> i < nextId h"
    using assms(1) unfolding history_inv_def by (elim conjE)
  from this [rule_format, OF assms(2)] show "ce_id e = i" "0 < i" "i < nextId h" by blast+
  have u: "\<forall>i j e f. history_get i h = Some e \<longrightarrow> history_get j h = Some f \<longrightarrow> same_region e f \<longrightarrow> i = j"
    using assms(1) unfolding history_inv_def by (elim conjE)
  assume "history_get j h = Some f" "same_region e f"
  then show "i = j" by (rule u [rule_format, OF assms(2)])
qed

lemma region_unique:
  assumes "history_inv h" "history_get i h = Some e" "same_region e inp"
    and "history_get j h = Some f" "same_region f inp \<or> same_region inp f"
  shows "i = j"
proof -
  have "same_region e f" using assms(3,5) by (auto simp: same_region_def)
  from history_facts(4) [OF assms(1,2,4) this] show ?thesis .
qed

text \<open>Putting an entry under an id that is new, or that its region already has.\<close>

lemma put_inv:
  assumes h: "history_inv h" and i: "0 < i" "i < n" "nextId h \<le> n"
    and only: "\<And>j f. history_get j h = Some f \<Longrightarrow> same_region f inp \<Longrightarrow> j = i"
  shows "history_inv (h\<lparr>nextId := n, ch_entries := AList.update i (inp\<lparr>ce_id := i\<rparr>) (ch_entries h)\<rparr>)"
    (is "history_inv ?h")
  unfolding history_inv_def
proof (intro conjI allI impI)
  show "distinct (map fst (ch_entries ?h))" using h by (simp add: history_inv_def distinct_update)
  show "0 < nextId ?h" using i by simp
  have get: "history_get j ?h = (if j = i then Some (inp\<lparr>ce_id := i\<rparr>) else history_get j h)" for j
    by (rule register_get)
  fix j f
  assume j: "history_get j ?h = Some f"
  have jf: "ce_id f = j \<and> 0 < j \<and> j < nextId ?h"
  proof (cases "j = i")
    case True
    then have "f = inp\<lparr>ce_id := i\<rparr>" using j unfolding get by simp
    then show ?thesis using True i by simp
  next
    case False
    then have "history_get j h = Some f" using j unfolding get by simp
    from history_facts(1-3) [OF h this] i(3) show ?thesis by simp
  qed
  then show "ce_id f = j" "0 < j" "j < nextId ?h" by simp_all
  fix k g
  assume k: "history_get k ?h = Some g" and s: "same_region f g"
  consider "j = i" "k = i" | "j = i" "k \<noteq> i" | "j \<noteq> i" "k = i" | "j \<noteq> i" "k \<noteq> i" by blast
  then show "j = k"
  proof cases
    case 2
    then have "f = inp\<lparr>ce_id := i\<rparr>" "history_get k h = Some g" using j k unfolding get by simp_all
    then show ?thesis using only [of k g] s same_region_sym 2 by simp
  next
    case 3
    then have "g = inp\<lparr>ce_id := i\<rparr>" "history_get j h = Some f" using j k unfolding get by simp_all
    then show ?thesis using only [of j f] s 3 by simp
  next
    case 4
    then have "history_get j h = Some f" "history_get k h = Some g" using j k unfolding get by simp_all
    from history_facts(4) [OF h this s] show ?thesis .
  qed simp
qed

lemma history_register_inv:
  assumes "history_inv h"
  shows "history_inv (snd (register inp h))"
  using assms
proof (cases rule: register_cases [where inp = inp])
  case (old i e)
  have "j = i" if "history_get j h = Some f" "same_region f inp" for j f
    using region_unique [OF assms old(1,2) that(1)] that(2) by simp
  then have "history_inv (h\<lparr>nextId := nextId h, ch_entries := AList.update i (inp\<lparr>ce_id := i\<rparr>) (ch_entries h)\<rparr>)"
    by (rule put_inv [OF assms history_facts(2,3) [OF assms old(1)] order_refl])
  then show ?thesis using old(3) by simp
next
  case new
  have "0 < nextId h" using assms unfolding history_inv_def by (elim conjE)
  then have "history_inv (h\<lparr>nextId := nextId h + 1, ch_entries := AList.update (nextId h) (inp\<lparr>ce_id := nextId h\<rparr>) (ch_entries h)\<rparr>)"
    using new(1) by (intro put_inv [OF assms]) simp_all
  then show ?thesis using new(2) by simp
qed

lemma sub_history_inv:
  assumes h: "history_inv h" and n: "nextId h' = nextId h" and d: "distinct (map fst (ch_entries h'))"
    and sub: "\<And>i e. history_get i h' = Some e \<Longrightarrow> history_get i h = Some e"
  shows "history_inv h'"
  unfolding history_inv_def n
proof (intro conjI allI impI)
  show "distinct (map fst (ch_entries h'))" by (rule d)
  show "0 < nextId h" using h by (simp add: history_inv_def)
  fix i e
  assume "history_get i h' = Some e"
  then have i: "history_get i h = Some e" by (rule sub)
  show "ce_id e = i" "0 < i" "i < nextId h" by (fact history_facts(1-3) [OF h i])+
  fix j f
  assume "history_get j h' = Some f" "same_region e f"
  then show "i = j" using history_facts(4) [OF h i sub] by simp
qed

lemma map_of_filter_Some:
  assumes "distinct (map fst al)" "map_of (filter P al) k = Some v"
  shows "map_of al k = Some v"
proof -
  have "(k, v) \<in> set al" using map_of_SomeD [OF assms(2)] by simp
  then show ?thesis by (rule map_of_is_SomeI [OF assms(1)])
qed

lemma history_invalidate_inv:
  assumes "history_inv h"
  shows "history_inv (history_invalidate i h)"
proof (rule sub_history_inv [OF assms])
  show "nextId (history_invalidate i h) = nextId h" by (simp add: history_invalidate_def)
  show "distinct (map fst (ch_entries (history_invalidate i h)))"
    using assms by (simp add: history_invalidate_def history_inv_def distinct_delete)
  fix j e
  show "history_get j (history_invalidate i h) = Some e \<Longrightarrow> history_get j h = Some e"
    by (cases "j = i") (simp_all add: history_invalidate_def history_get_def delete_conv)
qed

lemma invalidatePath_inv:
  assumes "history_inv h"
  shows "history_inv (invalidatePath p h)"
proof (rule sub_history_inv [OF assms])
  have d: "distinct (map fst (ch_entries h))" using assms by (simp add: history_inv_def)
  show "nextId (invalidatePath p h) = nextId h" by (simp add: invalidatePath_def)
  show "distinct (map fst (ch_entries (invalidatePath p h)))"
    using d by (simp add: invalidatePath_def distinct_map_filter)
  fix j e
  show "history_get j (invalidatePath p h) = Some e \<Longrightarrow> history_get j h = Some e"
    using map_of_filter_Some [OF d] by (simp add: invalidatePath_def history_get_def)
qed

lemma history_step_inv: "history_inv h \<Longrightarrow> history_inv (history_step h call)"
  by (cases call) (simp_all add: history_step_def history_register_inv history_invalidate_inv invalidatePath_inv)

interpretation hist: invariant_object history_step history_inv
  by unfold_locales (rule history_step_inv)

lemma new_history_inv: "history_inv new_history"
  by (simp add: history_inv_def new_history_def history_get_def)

lemma scan_printed:
  "list_all segment_ok segs \<Longrightarrow> scanConflictLines (concat (map segment_lines segs)) ln = placed ln segs"
  by (simp add: scanConflictLines_def scan_segments)

section \<open>A conflicted file\<close>

definition demo_block :: conflict_block where
  "demo_block = \<lparr>cb_startLine = 0, cb_separatorLine = 0, cb_endLine = 0, cb_baseLine = None, cb_oursLabel = Some (js ''HEAD''),
     cb_baseLabel = None, cb_theirsLabel = None, cb_oursLines = [js ''a''], cb_baseLines = Some [js ''b''], cb_theirsLines = []\<rparr>"

lemma demo_block_ok: "list_all segment_ok [Line (js ''x''), Conflict demo_block, Line SEPARATOR]"
  by (simp add: demo_block_def text_line_def matchMarker_def prefix_defs js_eval label_ok_def)

abbreviation demo_segments :: "segment list" where
  "demo_segments \<equiv> [Line (js ''x''), Conflict demo_block, Line SEPARATOR]"

definition demo_entry :: conflict_entry where
  "demo_entry = conflict_block.extend (place 2 demo_block) \<lparr>ce_id = 1, ce_absolutePath = js ''/f'', ce_displayPath = js ''f''\<rparr>"

definition demo_conflict_text :: jstr where
  "demo_conflict_text = join_with [10] (concat (map segment_lines demo_segments))"

lemma conflict_demo_lines:
  "split_on 10 demo_conflict_text = concat (map segment_lines demo_segments)"
  "list_all (\<lambda>l. \<not> bare_space l) (concat (map segment_lines demo_segments))"
proof -
  show "split_on 10 demo_conflict_text = concat (map segment_lines demo_segments)"
    unfolding demo_conflict_text_def
    by (rule split_join) (auto simp: demo_block_def buildRecordedRegion_def markerLine_def prefix_defs js_eval)
  show "list_all (\<lambda>l. \<not> bare_space l) (concat (map segment_lines demo_segments))"
    by (simp add: demo_block_def buildRecordedRegion_def markerLine_def prefix_defs js_eval bare_space_def)
qed

lemma demo_scanned: "conflict_block.truncate demo_entry \<in> set (scanConflictLines (split_on 10 demo_conflict_text) 1)"
  unfolding conflict_demo_lines(1) scan_printed [OF demo_block_ok]
  by (simp add: demo_entry_def conflict_block.truncate_def conflict_block.extend_def numeral_2_eq_2)

definition spaced_lines :: "jstr list" where
  "spaced_lines = [js ''<<<<<<< '', js ''a'', SEPARATOR, js ''b'', js ''>>>>>>> x'']"

definition spaced_entry :: conflict_entry where
  "spaced_entry = \<lparr>cb_startLine = 1, cb_separatorLine = 3, cb_endLine = 5, cb_baseLine = None, cb_oursLabel = None,
     cb_baseLabel = None, cb_theirsLabel = Some (js ''x''), cb_oursLines = [js ''a''], cb_baseLines = None,
     cb_theirsLines = [js ''b''], ce_id = 1, ce_absolutePath = js ''/f'', ce_displayPath = js ''f''\<rparr>"

lemma spaced_scan: "scanConflictLines spaced_lines 1 = [conflict_block.truncate spaced_entry]"
  by (simp add: scanConflictLines_def scan_line_def matchMarker_def prefix_defs js_eval or_undefined_def close_block_def
      append_line_def spaced_lines_def spaced_entry_def conflict_block.truncate_def)

lemma spaced_split: "split_on 10 (join_with [10] spaced_lines) = spaced_lines"
  by (rule split_join) (auto simp: spaced_lines_def prefix_defs js_eval)

lemma spaced_region: "locateRegion spaced_lines (buildRecordedRegion spaced_entry) 0 = None"
  by (simp add: locateRegion_def matchesAt_def buildRecordedRegion_def spaced_entry_def spaced_lines_def markerLine_def
      prefix_defs js_eval)

section \<open>Properties\<close>

text \<open>C28: scanning a file that is made of text lines and printed conflict blocks, two-way or with a base
  section, returns exactly those blocks, in order, with their line numbers.\<close>

theorem scan_printed_conflicts:
  assumes "list_all segment_ok segs"
  shows "scanConflictLines (concat (map segment_lines segs)) ln = placed ln segs"
  by (rule scan_printed [OF assms])

theorem scan_printed_conflicts_witness:
  "scanConflictLines (concat (map segment_lines [Line (js ''x''), Conflict demo_block, Line SEPARATOR])) 1 =
   placed 1 [Line (js ''x''), Conflict demo_block, Line SEPARATOR]"
  by (rule scan_printed_conflicts [OF demo_block_ok])

text \<open>C27: a conflict found in a file can be resolved in it: splicing a resolution for a scanned block into
  the unchanged file replaces exactly the lines from its first to its last marker, provided no marker
  line of the file ends in a bare space.\<close>

theorem scan_then_splice:
  assumes "list_all (\<lambda>l. \<not> bare_space l) (split_on 10 t)"
    and "conflict_block.truncate e \<in> set (scanConflictLines (split_on 10 t) 1)"
  shows "spliceConflict t e r = Inr (join_with [10]
    (take (cb_startLine e - 1) (split_on 10 t) @ split_on 10 (normalizeTrailingNewline r) @ drop (cb_endLine e) (split_on 10 t)))"
proof -
  have same: "buildRecordedRegion (conflict_block.truncate e) = buildRecordedRegion e"
    "cb_startLine (conflict_block.truncate e) = cb_startLine e" "cb_endLine (conflict_block.truncate e) = cb_endLine e"
    by (simp_all add: buildRecordedRegion_def conflict_block.truncate_def split: option.splits)
  obtain pre post where p: "split_on 10 t = pre @ buildRecordedRegion e @ post" "cb_startLine e = 1 + length pre"
    "cb_endLine e + 1 = cb_startLine e + length (buildRecordedRegion e)"
    using scanned_blocks_recorded [OF assms] unfolding recorded_def same by blast
  have "0 < length (buildRecordedRegion e)" by simp
  then have "cb_endLine e = length pre + length (buildRecordedRegion e)" using p by linarith
  moreover have "spliceConflict t e r = Inr (join_with [10] (pre @ split_on 10 (normalizeTrailingNewline r) @ post))"
    using locate_recorded [OF p(1)] p by (intro spliceConflict_at [of _ _ _ "length pre + length (buildRecordedRegion e) - 1"]) auto
  ultimately show ?thesis using p(1,2) by simp
qed

theorem scan_then_splice_witness:
  "spliceConflict demo_conflict_text demo_entry (js ''done'') = Inr (join_with [10]
    (take (cb_startLine demo_entry - 1) (split_on 10 demo_conflict_text) @ split_on 10 (normalizeTrailingNewline (js ''done'')) @
     drop (cb_endLine demo_entry) (split_on 10 demo_conflict_text)))"
  by (rule scan_then_splice [OF _ demo_scanned]) (simp only: conflict_demo_lines)

text \<open>Conflict ids are stable: after any calls, registering a block returns an entry that its id looks
  up, keeps the id of the block already registered at the same path and line, and changes no other
  entry.\<close>

theorem conflict_ids_stable:
  assumes "h = foldl history_step new_history calls" "register inp h = (e, h')"
  shows "history_get (ce_id e) h' = Some e \<and> same_region e inp \<and>
    (\<forall>i. i \<noteq> ce_id e \<longrightarrow> history_get i h' = history_get i h) \<and>
    (\<forall>i old. history_get i h = Some old \<and> same_region old inp \<longrightarrow> ce_id e = i)"
proof -
  have inv: "history_inv h" unfolding assms(1) by (rule hist.run_inv [OF new_history_inv])
  then show ?thesis
  proof (cases rule: register_cases [where inp = inp])
    case (old i f)
    have e: "e = inp\<lparr>ce_id := i\<rparr>" "h' = h\<lparr>ch_entries := AList.update i (inp\<lparr>ce_id := i\<rparr>) (ch_entries h)\<rparr>"
      using old(3) assms(2) by simp_all
    have "i = j" if "history_get j h = Some g \<and> same_region g inp" for j g
      using region_unique [OF inv old(1,2)] that by blast
    then show ?thesis unfolding e by (intro conjI allI impI) (simp_all add: register_get)
  next
    case new
    have e: "e = inp\<lparr>ce_id := nextId h\<rparr>"
      "h' = h\<lparr>nextId := nextId h + 1, ch_entries := AList.update (nextId h) (inp\<lparr>ce_id := nextId h\<rparr>) (ch_entries h)\<rparr>"
      using new(2) assms(2) by simp_all
    have "\<not> (history_get j h = Some g \<and> same_region g inp)" for j g using new(1) by blast
    then show ?thesis unfolding e
      by (intro conjI allI impI) (simp add: register_get, simp, simp add: register_get, blast)
  qed
qed

theorem conflict_ids_stable_witness:
  "history_get (ce_id (fst (register demo_entry new_history))) (snd (register demo_entry new_history)) = Some (fst (register demo_entry new_history))"
  by (rule conflict_ids_stable [of new_history "[]" demo_entry, THEN conjunct1]) simp_all

text \<open>A flaw of the scanner.  A marker with a trailing space is accepted, but the block forgets the
  space, so the block of an unchanged file is reported as no longer present and cannot be resolved.\<close>

theorem bare_space_marker_unresolvable:
  "scanConflictLines (split_on 10 (join_with [10] spaced_lines)) 1 = [conflict_block.truncate spaced_entry] \<and>
   spliceConflict (join_with [10] spaced_lines) spaced_entry r = Inl (Region_not_found 1 (js ''f''))"
proof -
  have "cb_startLine spaced_entry = 1" "ce_id spaced_entry = 1" "ce_displayPath spaced_entry = js ''f''"
    by (simp_all add: spaced_entry_def)
  then show ?thesis by (simp add: spaced_split spaced_scan [simplified] spliceConflict_def spaced_region)
qed

end
