(* ===== verification/Calculator.thy ===== *)
theory Calculator
  imports Js_Prelude
begin

text \<open>
  The calculator tool (\<open>tools/calculator.ts\<close>): the tokenizer, the recursive descent parser that evaluates as
  it parses, and the tool's results.

  Floating point arithmetic is that of the language; nothing here depends on it, so the operations on
  numbers are the record \<open>num_ops\<close> and every theorem holds for whatever numbers and operations are put in
  it: \<open>Number(raw)\<close>, \<open>Number.isFinite\<close>, the six binary operators, negation, \<open>Object.is(v, -0)\<close>, \<open>0\<close> and
  \<open>String(v)\<close>.  The tokenizer and the parser work on what is left of their input, where the source
  advances an index.  Rendering and cancellation of the tool call are not modelled.
\<close>

section \<open>Tokens\<close>

datatype operator = Add | Sub | Mul | Div | Mod | Pow

datatype 'n token =
    Number 'n jstr
  | Operator operator
  | Paren bool   \<comment> \<open>\<open>True\<close> for the opening parenthesis\<close>

record 'n num_ops =
  n_number :: "jstr \<Rightarrow> 'n"
  n_isFinite :: "'n \<Rightarrow> bool"
  n_binary :: "operator \<Rightarrow> 'n \<Rightarrow> 'n \<Rightarrow> 'n"
  n_negate :: "'n \<Rightarrow> 'n"
  n_isNegativeZero :: "'n \<Rightarrow> bool"
  n_zero :: 'n
  n_string :: "'n \<Rightarrow> jstr"

datatype calc_error =
    Invalid_character nat
  | Invalid_literal jstr
  | Invalid_number jstr
  | Invalid_number_start jstr
  | Invalid_exponent jstr
  | Unexpected_token
  | Unexpected_end
  | Missing_parenthesis
  | Empty_expression
  | Not_finite

definition isDigit :: "nat \<Rightarrow> bool" where
  "isDigit ch \<longleftrightarrow> 48 \<le> ch \<and> ch \<le> 57"

definition isHexDigit :: "nat \<Rightarrow> bool" where
  "isHexDigit ch \<longleftrightarrow> (48 \<le> ch \<and> ch \<le> 57) \<or> (97 \<le> ch \<and> ch \<le> 102) \<or> (65 \<le> ch \<and> ch \<le> 70)"

definition isBinaryDigit :: "nat \<Rightarrow> bool" where
  "isBinaryDigit ch \<longleftrightarrow> ch = 48 \<or> ch = 49"

definition isOctalDigit :: "nat \<Rightarrow> bool" where
  "isOctalDigit ch \<longleftrightarrow> 48 \<le> ch \<and> ch \<le> 55"

text \<open>The digit test of a prefixed literal, by the lower-cased letter after the zero.\<close>

definition radix_digit :: "nat \<Rightarrow> (nat \<Rightarrow> bool) option" where
  "radix_digit c =
     (if c = 120 \<or> c = 88 then Some isHexDigit
      else if c = 98 \<or> c = 66 then Some isBinaryDigit
      else if c = 111 \<or> c = 79 then Some isOctalDigit
      else None)"

text \<open>A prefixed literal, given the text from its zero on: the number of code units it takes.\<close>

definition scan_prefixed :: "(nat \<Rightarrow> bool) \<Rightarrow> jstr \<Rightarrow> calc_error + nat" where
  "scan_prefixed valid s =
     (let digits = takeWhile valid (drop 2 s)
      in if digits = [] then Inl (Invalid_literal (take 2 s)) else Inr (2 + length digits))"

text \<open>A decimal literal: integer part, fraction, exponent.\<close>

definition digits_from :: "nat \<Rightarrow> jstr \<Rightarrow> nat" where
  "digits_from i s = length (takeWhile isDigit (drop i s))"

definition char_at :: "jstr \<Rightarrow> nat \<Rightarrow> nat option" where
  "char_at s i = (if i < length s then Some (s ! i) else None)"

definition scan_exponent :: "nat \<Rightarrow> jstr \<Rightarrow> calc_error + nat" where
  "scan_exponent i s =
     (if char_at s i = Some 101 \<or> char_at s i = Some 69 then
        let i = i + 1;
            i = (if char_at s i = Some 43 \<or> char_at s i = Some 45 then i + 1 else i);
            n = digits_from i s
        in if n = 0 then Inl (Invalid_exponent (take i s)) else Inr (i + n)
      else Inr i)"

definition scan_decimal :: "jstr \<Rightarrow> calc_error + nat" where
  "scan_decimal s =
     (let whole = digits_from 0 s;
          dot = (char_at s whole = Some 46);
          fraction = (if dot then digits_from (whole + 1) s else 0);
          i = whole + (if dot then 1 + fraction else 0)
      in if whole + fraction = 0 then Inl (Invalid_number_start (take (i + 1) s))
         else scan_exponent i s)"

definition scan_number :: "jstr \<Rightarrow> calc_error + nat" where
  "scan_number s =
     (case (if char_at s 0 = Some 48 then Option.bind (char_at s 1) radix_digit else None) of
        Some valid \<Rightarrow> scan_prefixed valid s
      | None \<Rightarrow> scan_decimal s)"

definition operator_of :: "nat \<Rightarrow> operator option" where
  "operator_of ch =
     map_of [(43, Add), (45, Sub), (42, Mul), (47, Div), (37, Mod)] ch"

definition number_start :: "jstr \<Rightarrow> bool" where
  "number_start s \<longleftrightarrow>
     (case s of
        [] \<Rightarrow> False
      | ch # rest \<Rightarrow> isDigit ch \<or> (ch = 46 \<and> (case rest of [] \<Rightarrow> False | c # _ \<Rightarrow> isDigit c)))"

lemma scan_exponent_pos: "scan_exponent i s = Inr n \<Longrightarrow> i \<le> n"
  by (auto simp: scan_exponent_def Let_def split: if_splits)

lemma scan_number_pos:
  assumes "scan_number s = Inr n"
  shows "0 < n"
proof -
  have "scan_decimal s = Inr n \<Longrightarrow> 0 < n"
    using scan_exponent_pos [of _ s n] by (auto simp: scan_decimal_def Let_def split: if_splits) fastforce+
  moreover have "scan_prefixed valid s = Inr n \<Longrightarrow> 0 < n" for valid
    by (auto simp: scan_prefixed_def Let_def split: if_splits)
  ultimately show ?thesis using assms by (auto simp: scan_number_def split: option.splits)
qed

function tokenizeExpression :: "'n num_ops \<Rightarrow> jstr \<Rightarrow> calc_error + 'n token list" where
  "tokenizeExpression ops s =
     (case s of
        [] \<Rightarrow> Inr []
      | ch # rest \<Rightarrow>
          if is_ws ch then tokenizeExpression ops rest
          else if ch = 40 \<or> ch = 41 then map_sum id (\<lambda>ts. Paren (ch = 40) # ts) (tokenizeExpression ops rest)
          else if ch = 42 \<and> char_at rest 0 = Some 42 then
            map_sum id (\<lambda>ts. Operator Pow # ts) (tokenizeExpression ops (tl rest))
          else case operator_of ch of
            Some p \<Rightarrow> map_sum id (\<lambda>ts. Operator p # ts) (tokenizeExpression ops rest)
          | None \<Rightarrow>
              if \<not> number_start s then Inl (Invalid_character ch)
              else case scan_number s of
                Inl err \<Rightarrow> Inl err
              | Inr n \<Rightarrow>
                  (let raw = take n s; v = n_number ops raw
                   in if \<not> n_isFinite ops v then Inl (Invalid_number raw)
                      else map_sum id (\<lambda>ts. Number v raw # ts) (tokenizeExpression ops (drop n s))))"
  by pat_completeness auto
termination
  by (relation "measure (\<lambda>(ops, s). length s)") (auto dest: scan_number_pos)

declare tokenizeExpression.simps [simp del]

section \<open>The parser\<close>

type_synonym 'n parsed = "calc_error + 'n \<times> 'n token list"

text \<open>\<open>#matchOperator\<close> and \<open>#matchParen\<close>: the tokens after a match.\<close>

definition matchOperator :: "operator \<Rightarrow> 'n token list \<Rightarrow> 'n token list option" where
  "matchOperator p ts = (case ts of Operator q # rest \<Rightarrow> if q = p then Some rest else None | _ \<Rightarrow> None)"

definition matchParen :: "bool \<Rightarrow> 'n token list \<Rightarrow> 'n token list option" where
  "matchParen b ts = (case ts of Paren c # rest \<Rightarrow> if c = b then Some rest else None | _ \<Rightarrow> None)"

lemma matchOperator_Some: "matchOperator p ts = Some rest \<longleftrightarrow> ts = Operator p # rest"
  by (auto simp: matchOperator_def split: list.splits token.splits)

lemma matchParen_Some: "matchParen b ts = Some rest \<longleftrightarrow> ts = Paren b # rest"
  by (auto simp: matchParen_def split: list.splits token.splits)

function (sequential)
  parseExpression :: "'n num_ops \<Rightarrow> 'n token list \<Rightarrow> 'n parsed"
  and expression_loop :: "'n num_ops \<Rightarrow> 'n \<Rightarrow> 'n token list \<Rightarrow> 'n parsed"
  and parseTerm :: "'n num_ops \<Rightarrow> 'n token list \<Rightarrow> 'n parsed"
  and term_loop :: "'n num_ops \<Rightarrow> 'n \<Rightarrow> 'n token list \<Rightarrow> 'n parsed"
  and parseUnary :: "'n num_ops \<Rightarrow> 'n token list \<Rightarrow> 'n parsed"
  and parsePower :: "'n num_ops \<Rightarrow> 'n token list \<Rightarrow> 'n parsed"
  and parsePrimary :: "'n num_ops \<Rightarrow> 'n token list \<Rightarrow> 'n parsed"
where
  "parseExpression ops ts =
     (case parseTerm ops ts of Inl err \<Rightarrow> Inl err | Inr (v, rest) \<Rightarrow> expression_loop ops v rest)"
| "expression_loop ops v ts =
     (case matchOperator Add ts of
        Some ts1 \<Rightarrow>
          (case parseTerm ops ts1 of
             Inl err \<Rightarrow> Inl err | Inr (w, rest) \<Rightarrow> expression_loop ops (n_binary ops Add v w) rest)
      | None \<Rightarrow>
     (case matchOperator Sub ts of
        Some ts1 \<Rightarrow>
          (case parseTerm ops ts1 of
             Inl err \<Rightarrow> Inl err | Inr (w, rest) \<Rightarrow> expression_loop ops (n_binary ops Sub v w) rest)
      | None \<Rightarrow> Inr (v, ts)))"
| "parseTerm ops ts =
     (case parseUnary ops ts of Inl err \<Rightarrow> Inl err | Inr (v, rest) \<Rightarrow> term_loop ops v rest)"
| "term_loop ops v ts =
     (case matchOperator Mul ts of
        Some ts1 \<Rightarrow>
          (case parseUnary ops ts1 of
             Inl err \<Rightarrow> Inl err | Inr (w, rest) \<Rightarrow> term_loop ops (n_binary ops Mul v w) rest)
      | None \<Rightarrow>
     (case matchOperator Div ts of
        Some ts1 \<Rightarrow>
          (case parseUnary ops ts1 of
             Inl err \<Rightarrow> Inl err | Inr (w, rest) \<Rightarrow> term_loop ops (n_binary ops Div v w) rest)
      | None \<Rightarrow>
     (case matchOperator Mod ts of
        Some ts1 \<Rightarrow>
          (case parseUnary ops ts1 of
             Inl err \<Rightarrow> Inl err | Inr (w, rest) \<Rightarrow> term_loop ops (n_binary ops Mod v w) rest)
      | None \<Rightarrow> Inr (v, ts))))"
| "parseUnary ops ts =
     (case matchOperator Add ts of
        Some ts1 \<Rightarrow> parseUnary ops ts1
      | None \<Rightarrow>
     (case matchOperator Sub ts of
        Some ts1 \<Rightarrow>
          (case parseUnary ops ts1 of Inl err \<Rightarrow> Inl err | Inr (v, rest) \<Rightarrow> Inr (n_negate ops v, rest))
      | None \<Rightarrow> parsePower ops ts))"
| "parsePower ops ts =
     (case parsePrimary ops ts of
        Inl err \<Rightarrow> Inl err
      | Inr (v, rest) \<Rightarrow>
          (case matchOperator Pow rest of
             Some ts1 \<Rightarrow>
               (case parsePower ops ts1 of
                  Inl err \<Rightarrow> Inl err | Inr (w, rest2) \<Rightarrow> Inr (n_binary ops Pow v w, rest2))
           | None \<Rightarrow> Inr (v, rest)))"
| "parsePrimary ops ts =
     (case ts of
        [] \<Rightarrow> Inl Unexpected_end
      | Number v raw # rest \<Rightarrow> Inr (v, rest)
      | Paren True # ts1 \<Rightarrow>
          (case parseExpression ops ts1 of
             Inl err \<Rightarrow> Inl err
           | Inr (v, rest) \<Rightarrow>
               (case matchParen False rest of None \<Rightarrow> Inl Missing_parenthesis | Some rest2 \<Rightarrow> Inr (v, rest2)))
      | _ \<Rightarrow> Inl Unexpected_token)"
  by pat_completeness auto

text \<open>Each parser consumes at least one token and the loops never give one back: this is what their
  termination rests on.\<close>

definition shorter :: "'n parsed \<Rightarrow> nat \<Rightarrow> bool" where
  "shorter r n \<longleftrightarrow> (\<forall>v rest. r = Inr (v, rest) \<longrightarrow> length rest < n)"

lemma shorterD: "shorter r n \<Longrightarrow> r = Inr (v, rest) \<Longrightarrow> length rest < n"
  by (simp add: shorter_def)

lemma shorter_simps [simp]:
  "shorter (Inl err) n" "shorter (Inr (v, rest)) n \<longleftrightarrow> length rest < n"
  by (auto simp: shorter_def)

lemma shorter_mono: "shorter r m \<Longrightarrow> m \<le> n \<Longrightarrow> shorter r n"
  by (auto simp: shorter_def)

lemma shorter_step:
  assumes "shorter r m" "\<And>v rest. r = Inr (v, rest) \<Longrightarrow> shorter (f v rest) (Suc (length rest))" "m \<le> n"
  shows "shorter (case r of Inl err \<Rightarrow> Inl err | Inr (v, rest) \<Rightarrow> f v rest) n"
proof (cases r)
  case (Inr p)
  then obtain v rest where r: "r = Inr (v, rest)" by (cases p) auto
  have "length rest < m" by (rule shorterD [OF assms(1) r])
  then show ?thesis using shorter_mono [OF assms(2) [OF r]] assms(3) r by simp
qed simp

abbreviation calc_dom where
  "calc_dom \<equiv> parseExpression_expression_loop_parseTerm_term_loop_parseUnary_parsePower_parsePrimary_dom"

lemma parser_shorter:
  "calc_dom (Inl (Inl (ops, ts))) \<Longrightarrow> shorter (parseExpression ops ts) (length ts)"
  "calc_dom (Inl (Inr (Inl (ops, v, ts)))) \<Longrightarrow> shorter (expression_loop ops v ts) (Suc (length ts))"
  "calc_dom (Inl (Inr (Inr (ops, ts)))) \<Longrightarrow> shorter (parseTerm ops ts) (length ts)"
  "calc_dom (Inr (Inl (Inl (ops, v, ts)))) \<Longrightarrow> shorter (term_loop ops v ts) (Suc (length ts))"
  "calc_dom (Inr (Inl (Inr (ops, ts)))) \<Longrightarrow> shorter (parseUnary ops ts) (length ts)"
  "calc_dom (Inr (Inr (Inl (ops, ts)))) \<Longrightarrow> shorter (parsePower ops ts) (length ts)"
  "calc_dom (Inr (Inr (Inr (ops, ts)))) \<Longrightarrow> shorter (parsePrimary ops ts) (length ts)"
proof (induction rule: parseExpression_expression_loop_parseTerm_term_loop_parseUnary_parsePower_parsePrimary.pinduct)
  case (1 ops ts)
  show ?case unfolding parseExpression.psimps [OF 1(1)]
    by (rule shorter_step [OF 1(2)]) (auto intro: 1(3))
next
  case (2 ops v ts)
  show ?case
  proof (cases "matchOperator Add ts")
    case add: None
    show ?thesis
    proof (cases "matchOperator Sub ts")
      case None
      then show ?thesis by (simp add: expression_loop.psimps [OF 2(1)] add)
    next
      case (Some ts1)
      then have le: "length ts1 \<le> Suc (length ts)" by (simp add: matchOperator_Some)
      show ?thesis unfolding expression_loop.psimps [OF 2(1)] add Some option.case
        by (rule shorter_step [OF 2(2) [OF add Some] 2(3) [OF add Some _ refl] le])
    qed
  next
    case (Some ts1)
    then have le: "length ts1 \<le> Suc (length ts)" by (simp add: matchOperator_Some)
    show ?thesis unfolding expression_loop.psimps [OF 2(1)] Some option.case
      by (rule shorter_step [OF 2(4) [OF Some] 2(5) [OF Some _ refl] le])
  qed
next
  case (3 ops ts)
  show ?case unfolding parseTerm.psimps [OF 3(1)]
    by (rule shorter_step [OF 3(2)]) (auto intro: 3(3))
next
  case (4 ops v ts)
  show ?case
  proof (cases "matchOperator Mul ts")
    case mul: None
    show ?thesis
    proof (cases "matchOperator Div ts")
      case dvd: None
      show ?thesis
      proof (cases "matchOperator Mod ts")
        case None
        then show ?thesis by (simp add: term_loop.psimps [OF 4(1)] mul dvd)
      next
        case (Some ts1)
        then have le: "length ts1 \<le> Suc (length ts)" by (simp add: matchOperator_Some)
        show ?thesis unfolding term_loop.psimps [OF 4(1)] mul dvd Some option.case
          by (rule shorter_step [OF 4(2) [OF mul dvd Some] 4(3) [OF mul dvd Some _ refl] le])
      qed
    next
      case (Some ts1)
      then have le: "length ts1 \<le> Suc (length ts)" by (simp add: matchOperator_Some)
      show ?thesis unfolding term_loop.psimps [OF 4(1)] mul Some option.case
        by (rule shorter_step [OF 4(4) [OF mul Some] 4(5) [OF mul Some _ refl] le])
    qed
  next
    case (Some ts1)
    then have le: "length ts1 \<le> Suc (length ts)" by (simp add: matchOperator_Some)
    show ?thesis unfolding term_loop.psimps [OF 4(1)] Some option.case
      by (rule shorter_step [OF 4(6) [OF Some] 4(7) [OF Some _ refl] le])
  qed
next
  case (5 ops ts)
  show ?case
  proof (cases "matchOperator Add ts")
    case add: None
    show ?thesis
    proof (cases "matchOperator Sub ts")
      case None
      then show ?thesis using 5(2) [OF add None] by (simp add: parseUnary.psimps [OF 5(1)] add)
    next
      case (Some ts1)
      then have le: "length ts1 \<le> length ts" by (simp add: matchOperator_Some)
      show ?thesis unfolding parseUnary.psimps [OF 5(1)] add Some option.case
        by (rule shorter_step [OF 5(3) [OF add Some] _ le]) simp
    qed
  next
    case (Some ts1)
    then show ?thesis using 5(4) [OF Some]
      by (simp add: parseUnary.psimps [OF 5(1)]) (simp add: matchOperator_Some shorter_mono)
  qed
next
  case (6 ops ts)
  show ?case unfolding parsePower.psimps [OF 6(1)]
  proof (rule shorter_step [OF 6(2)])
    fix v rest
    assume r: "parsePrimary ops ts = Inr (v, rest)"
    show "shorter (case matchOperator operator.Pow rest of
        Some ts1 \<Rightarrow> (case parsePower ops ts1 of Inl err \<Rightarrow> Inl err | Inr (w, rest2) \<Rightarrow> Inr (n_binary ops operator.Pow v w, rest2))
      | None \<Rightarrow> Inr (v, rest)) (Suc (length rest))"
    proof (cases "matchOperator operator.Pow rest")
      case (Some ts1)
      then have le: "length ts1 \<le> Suc (length rest)" by (simp add: matchOperator_Some)
      show ?thesis unfolding Some option.case by (rule shorter_step [OF 6(3) [OF r refl Some] _ le]) simp
    qed simp
  qed simp
next
  case (7 ops ts)
  show ?case
  proof (cases "\<exists>ts1. ts = Paren True # ts1")
    case True
    then obtain ts1 where ts: "ts = Paren True # ts1" by blast
    have "shorter (parseExpression ops ts1) (length ts1)" using 7(2) [OF ts refl] by simp
    moreover have "calc_dom (Inr (Inr (Inr (ops, Paren True # ts1))))" using 7(1) ts by simp
    ultimately show ?thesis
      by (auto simp: parsePrimary.psimps ts matchParen_Some split: sum.splits option.splits)
  next
    case False
    then show ?thesis
      by (auto simp: parsePrimary.psimps [OF 7(1)] split: list.splits token.splits bool.splits)
  qed
qed

termination parseExpression
  by (relation "measure (\<lambda>x. case x of
        Inl (Inl (ops, ts)) \<Rightarrow> 10 * length ts + 5
      | Inl (Inr (Inl (ops, v, ts))) \<Rightarrow> 10 * length ts + 6
      | Inl (Inr (Inr (ops, ts))) \<Rightarrow> 10 * length ts + 4
      | Inr (Inl (Inl (ops, v, ts))) \<Rightarrow> 10 * length ts + 6
      | Inr (Inl (Inr (ops, ts))) \<Rightarrow> 10 * length ts + 3
      | Inr (Inr (Inl (ops, ts))) \<Rightarrow> 10 * length ts + 2
      | Inr (Inr (Inr (ops, ts))) \<Rightarrow> 10 * length ts + 1)")
    (auto simp: matchOperator_Some dest!: shorterD [OF parser_shorter(3)] shorterD [OF parser_shorter(5)] shorterD [OF parser_shorter(7)])

declare parseExpression.simps [simp del] expression_loop.simps [simp del] parseTerm.simps [simp del]
  term_loop.simps [simp del] parseUnary.simps [simp del] parsePower.simps [simp del] parsePrimary.simps [simp del]

definition parse :: "'n num_ops \<Rightarrow> 'n token list \<Rightarrow> calc_error + 'n" where
  "parse ops ts =
     (case parseExpression ops ts of
        Inl err \<Rightarrow> Inl err
      | Inr (v, rest) \<Rightarrow> if rest \<noteq> [] then Inl Unexpected_token else Inr v)"

definition evaluateExpression :: "'n num_ops \<Rightarrow> jstr \<Rightarrow> calc_error + 'n" where
  "evaluateExpression ops expression =
     (case tokenizeExpression ops expression of
        Inl err \<Rightarrow> Inl err
      | Inr tokens \<Rightarrow>
          if length tokens = 0 then Inl Empty_expression
          else case parse ops tokens of
            Inl err \<Rightarrow> Inl err
          | Inr v \<Rightarrow>
              if \<not> n_isFinite ops v then Inl Not_finite
              else Inr (if n_isNegativeZero ops v then n_zero ops else v))"

definition formatResult :: "'n num_ops \<Rightarrow> 'n \<Rightarrow> jstr" where
  "formatResult ops v = n_string ops v"

record calculation =
  ca_expression :: jstr
  ca_prefix :: jstr
  ca_suffix :: jstr

text \<open>The results of a call: the first expression that fails makes the call fail.\<close>

fun calc_results :: "'n num_ops \<Rightarrow> calculation list \<Rightarrow> calc_error + (jstr \<times> 'n \<times> jstr) list" where
  "calc_results ops [] = Inr []"
| "calc_results ops (c # cs) =
     (case evaluateExpression ops (ca_expression c) of
        Inl err \<Rightarrow> Inl err
      | Inr v \<Rightarrow>
          map_sum id (\<lambda>rs. (ca_expression c, v, ca_prefix c @ formatResult ops v @ ca_suffix c) # rs)
            (calc_results ops cs))"

definition calc_execute :: "'n num_ops \<Rightarrow> calculation list \<Rightarrow> calc_error + jstr \<times> (jstr \<times> 'n \<times> jstr) list" where
  "calc_execute ops calculations =
     map_sum id (\<lambda>results. (join_with [10] (map (\<lambda>(e, v, out). out) results), results)) (calc_results ops calculations)"

section \<open>Expression trees\<close>

text \<open>The expressions the grammar is about, their value, and their tokens with no more parentheses than
  precedence and associativity require: \<open>+ -\<close> and \<open>* / %\<close> group to the left, \<open>**\<close> to the right and binds
  tighter than a sign.\<close>

datatype ast = Lit jstr | Pos ast | Neg ast | Bin operator ast ast

primrec eval_ast :: "'n num_ops \<Rightarrow> ast \<Rightarrow> 'n" where
  "eval_ast ops (Lit raw) = n_number ops raw"
| "eval_ast ops (Pos a) = eval_ast ops a"
| "eval_ast ops (Neg a) = n_negate ops (eval_ast ops a)"
| "eval_ast ops (Bin p a b) = n_binary ops p (eval_ast ops a) (eval_ast ops b)"

text \<open>The level of a binary operator, and the levels of its operands.\<close>

fun levels :: "operator \<Rightarrow> nat \<times> nat \<times> nat" where
  "levels Add = (0, 0, 1)"
| "levels Sub = (0, 0, 1)"
| "levels Mul = (1, 1, 2)"
| "levels Div = (1, 1, 2)"
| "levels Mod = (1, 1, 2)"
| "levels Pow = (3, 4, 3)"

definition wrap :: "bool \<Rightarrow> 'n token list \<Rightarrow> 'n token list" where
  "wrap b ts = (if b then Paren True # ts @ [Paren False] else ts)"

primrec print_ast :: "'n num_ops \<Rightarrow> ast \<Rightarrow> nat \<Rightarrow> 'n token list" where
  "print_ast ops (Lit raw) k = [Number (n_number ops raw) raw]"
| "print_ast ops (Pos a) k = wrap (2 < k) (Operator Add # print_ast ops a 2)"
| "print_ast ops (Neg a) k = wrap (2 < k) (Operator Sub # print_ast ops a 2)"
| "print_ast ops (Bin p a b) k =
     (case levels p of (l, left, right) \<Rightarrow>
        wrap (l < k) (print_ast ops a left @ Operator p # print_ast ops b right))"

text \<open>The next token is none of these operators.\<close>

definition no_op :: "operator set \<Rightarrow> 'n token list \<Rightarrow> bool" where
  "no_op P ts \<longleftrightarrow> (\<forall>p rest. ts = Operator p # rest \<longrightarrow> p \<notin> P)"

lemma no_op_simps [simp]:
  "no_op P []" "no_op P (Paren b # ts)" "no_op P (Number v raw # ts)" "no_op P (Operator p # ts) \<longleftrightarrow> p \<notin> P"
  by (auto simp: no_op_def)

lemma no_op_mono: "no_op P ts \<Longrightarrow> Q \<subseteq> P \<Longrightarrow> no_op Q ts"
  by (auto simp: no_op_def)

lemma no_op_match: "no_op P ts \<Longrightarrow> p \<in> P \<Longrightarrow> matchOperator p ts = None"
  by (auto simp: no_op_def matchOperator_def split: list.splits token.splits)

lemma match_simps [simp]:
  "matchOperator p (Operator q # ts) = (if q = p then Some ts else None)"
  "matchParen b (Paren c # ts) = (if c = b then Some ts else None)"
  by (simp_all add: matchOperator_def matchParen_def)

lemma term_loop_stop: "no_op {Mul, Div, Mod} rest \<Longrightarrow> term_loop ops v rest = Inr (v, rest)"
  by (simp add: term_loop.simps no_op_match [of "{Mul, Div, Mod}"])

lemma expression_loop_stop: "no_op {Add, Sub} rest \<Longrightarrow> expression_loop ops v rest = Inr (v, rest)"
  by (simp add: expression_loop.simps no_op_match [of "{Add, Sub}"])

text \<open>How each level of the parser treats tokens that are an operand of that level, whatever follows.\<close>

definition at_primary where
  "at_primary ops ts v \<longleftrightarrow> no_op UNIV ts \<and> ts \<noteq> [] \<and> (\<forall>rest. parsePrimary ops (ts @ rest) = Inr (v, rest))"

definition at_power where
  "at_power ops ts v \<longleftrightarrow> (\<forall>rest. no_op {Pow} rest \<longrightarrow> parsePower ops (ts @ rest) = Inr (v, rest))"

definition at_unary where
  "at_unary ops ts v \<longleftrightarrow> (\<forall>rest. no_op {Pow} rest \<longrightarrow> parseUnary ops (ts @ rest) = Inr (v, rest))"

definition at_term where
  "at_term ops ts v \<longleftrightarrow> (\<forall>rest. no_op {Pow} rest \<longrightarrow> parseTerm ops (ts @ rest) = term_loop ops v rest)"

definition at_expression where
  "at_expression ops ts v \<longleftrightarrow>
     (\<forall>rest. no_op {Pow, Mul, Div, Mod} rest \<longrightarrow> parseExpression ops (ts @ rest) = expression_loop ops v rest)"

lemma primary_power: "at_primary ops ts v \<Longrightarrow> at_power ops ts v"
  by (simp add: at_primary_def at_power_def parsePower.simps no_op_match [of "{Pow}"])

lemma no_op_append: "ts \<noteq> [] \<Longrightarrow> no_op P (ts @ rest) = no_op P ts"
  by (cases ts) (auto simp: no_op_def)

lemma power_unary: "at_power ops ts v \<Longrightarrow> no_op {Add, Sub} ts \<Longrightarrow> ts \<noteq> [] \<Longrightarrow> at_unary ops ts v"
  by (simp add: at_unary_def at_power_def parseUnary.simps no_op_match [of "{Add, Sub}"] no_op_append)

lemma unary_term: "at_unary ops ts v \<Longrightarrow> at_term ops ts v"
  by (simp add: at_unary_def at_term_def parseTerm.simps)

lemma term_expression: "at_term ops ts v \<Longrightarrow> at_expression ops ts v"
  unfolding at_term_def at_expression_def
  by (auto simp: parseExpression.simps term_loop_stop no_op_mono [of "{Pow, Mul, Div, Mod}"])

lemma primary_unary: "at_primary ops ts v \<Longrightarrow> at_unary ops ts v"
  by (rule power_unary [OF primary_power]) (auto simp: at_primary_def elim: no_op_mono)

lemma wrapped_primary: "at_expression ops ts v \<Longrightarrow> at_primary ops (wrap True ts) v"
  by (simp add: at_expression_def at_primary_def wrap_def parsePrimary.simps expression_loop_stop)

lemmas levels_up = primary_power power_unary primary_unary unary_term term_expression

lemma sum_parses:
  assumes "p \<in> {Add, Sub}" "at_expression ops ls v" "at_term ops rs w"
  shows "at_expression ops (ls @ Operator p # rs) (n_binary ops p v w)"
  unfolding at_expression_def
proof (intro allI impI)
  fix rest :: "'a token list"
  assume r: "no_op {Pow, Mul, Div, Mod} rest"
  have "parseTerm ops (rs @ rest) = Inr (w, rest)"
    using assms(3) no_op_mono [OF r] by (simp add: at_term_def term_loop_stop)
  then have "expression_loop ops v (Operator p # rs @ rest) = expression_loop ops (n_binary ops p v w) rest"
    using assms(1) by (auto simp: expression_loop.simps [of ops v "Operator _ # _"])
  moreover have "parseExpression ops (ls @ Operator p # rs @ rest) = expression_loop ops v (Operator p # rs @ rest)"
    using assms(1,2) by (auto simp: at_expression_def)
  ultimately show "parseExpression ops ((ls @ Operator p # rs) @ rest) = expression_loop ops (n_binary ops p v w) rest" by simp
qed

lemma product_parses:
  assumes "p \<in> {Mul, Div, Mod}" "at_term ops ls v" "at_unary ops rs w"
  shows "at_term ops (ls @ Operator p # rs) (n_binary ops p v w)"
  unfolding at_term_def
proof (intro allI impI)
  fix rest :: "'a token list"
  assume r: "no_op {Pow} rest"
  have "parseUnary ops (rs @ rest) = Inr (w, rest)" using assms(3) r by (simp add: at_unary_def)
  then have "term_loop ops v (Operator p # rs @ rest) = term_loop ops (n_binary ops p v w) rest"
    using assms(1) by (auto simp: term_loop.simps [of ops v "Operator _ # _"])
  moreover have "parseTerm ops (ls @ Operator p # rs @ rest) = term_loop ops v (Operator p # rs @ rest)"
    using assms(1,2) by (auto simp: at_term_def)
  ultimately show "parseTerm ops ((ls @ Operator p # rs) @ rest) = term_loop ops (n_binary ops p v w) rest" by simp
qed

lemma power_parses:
  assumes "at_primary ops ls v" "at_power ops rs w"
  shows "at_power ops (ls @ Operator Pow # rs) (n_binary ops Pow v w)"
  using assms by (simp add: at_power_def at_primary_def parsePower.simps [of ops "ls @ _"])

lemma sign_parses:
  assumes "at_unary ops ts v"
  shows "at_unary ops (Operator Add # ts) v" "at_unary ops (Operator Sub # ts) (n_negate ops v)"
  using assms by (simp_all add: at_unary_def parseUnary.simps [of ops "Operator _ # _"])

text \<open>Parentheses make an expression an operand of every level.\<close>

lemma wrapped_levels:
  assumes "at_expression ops ts v"
  shows "at_primary ops (wrap True ts) v" "at_power ops (wrap True ts) v" "at_unary ops (wrap True ts) v" "at_term ops (wrap True ts) v"
  by (fact wrapped_primary [OF assms] primary_power [OF wrapped_primary [OF assms]] primary_unary [OF wrapped_primary [OF assms]]
      unary_term [OF primary_unary [OF wrapped_primary [OF assms]]])+

lemma print_ast_parses:
  "at_primary ops (print_ast ops a 4) (eval_ast ops a) \<and> at_power ops (print_ast ops a 3) (eval_ast ops a) \<and>
   at_unary ops (print_ast ops a 2) (eval_ast ops a) \<and> at_term ops (print_ast ops a 1) (eval_ast ops a) \<and>
   at_expression ops (print_ast ops a 0) (eval_ast ops a)"
proof (induction a)
  case (Lit raw)
  have p: "at_primary ops [Number (n_number ops raw) raw] (n_number ops raw)"
    by (simp add: at_primary_def parsePrimary.simps)
  note u = primary_unary [OF p]
  show ?case using p u primary_power [OF p] unary_term [OF u] term_expression [OF unary_term [OF u]] by simp
next
  case (Pos a)
  then have u: "at_unary ops (Operator Add # print_ast ops a 2) (eval_ast ops a)" by (simp add: sign_parses)
  note e = term_expression [OF unary_term [OF u]]
  show ?case using u unary_term [OF u] e wrapped_levels [OF e] by (simp add: wrap_def)
next
  case (Neg a)
  then have u: "at_unary ops (Operator Sub # print_ast ops a 2) (n_negate ops (eval_ast ops a))" by (simp add: sign_parses)
  note e = term_expression [OF unary_term [OF u]]
  show ?case using u unary_term [OF u] e wrapped_levels [OF e] by (simp add: wrap_def)
next
  case (Bin p a b)
  have a: "at_primary ops (print_ast ops a 4) (eval_ast ops a)" "at_term ops (print_ast ops a 1) (eval_ast ops a)"
    "at_expression ops (print_ast ops a 0) (eval_ast ops a)" using Bin(1) by simp_all
  have b: "at_power ops (print_ast ops b 3) (eval_ast ops b)" "at_unary ops (print_ast ops b 2) (eval_ast ops b)"
    "at_term ops (print_ast ops b 1) (eval_ast ops b)" using Bin(2) by simp_all
  let ?v = "n_binary ops p (eval_ast ops a) (eval_ast ops b)"
  consider "p \<in> {Add, Sub}" | "p \<in> {Mul, Div, Mod}" | "p = Pow" by (cases p) simp_all
  then show ?case
  proof cases
    case 1
    note e = sum_parses [OF 1 a(3) b(3)]
    have "levels p = (0, 0, 1)" using 1 by auto
    then show ?thesis using e wrapped_levels [OF e] by (simp add: wrap_def)
  next
    case 2
    note tm = product_parses [OF 2 a(2) b(2)]
    note e = term_expression [OF tm]
    have "levels p = (1, 1, 2)" using 2 by auto
    then show ?thesis using tm e wrapped_levels [OF e] by (simp add: wrap_def)
  next
    case 3
    note pw = power_parses [OF a(1) b(1)]
    have "no_op {Add, Sub} (print_ast ops a 4 @ Operator Pow # print_ast ops b 3)"
      using a(1) no_op_mono [of UNIV "print_ast ops a 4" "{Add, Sub}"] by (simp add: at_primary_def no_op_append)
    then have u: "at_unary ops (print_ast ops a 4 @ Operator Pow # print_ast ops b 3) (n_binary ops Pow (eval_ast ops a) (eval_ast ops b))"
      using power_unary [OF pw] by simp
    note e = term_expression [OF unary_term [OF u]]
    show ?thesis using 3 pw u unary_term [OF u] e wrapped_levels [OF e] by (simp add: wrap_def)
  qed
qed

lemma parse_print_ast: "parse ops (print_ast ops a 0) = Inr (eval_ast ops a)"
proof -
  have "parseExpression ops (print_ast ops a 0 @ []) = expression_loop ops (eval_ast ops a) []"
    using print_ast_parses [of ops a] unfolding at_expression_def by (elim conjE) (erule allE [of _ "[]"], simp)
  then show ?thesis by (simp add: parse_def expression_loop_stop)
qed

section \<open>Tokens as text\<close>

fun operator_text :: "operator \<Rightarrow> jstr" where
  "operator_text Add = [43]"
| "operator_text Sub = [45]"
| "operator_text Mul = [42]"
| "operator_text Div = [47]"
| "operator_text Mod = [37]"
| "operator_text Pow = [42, 42]"

fun token_text :: "'n token \<Rightarrow> jstr" where
  "token_text (Number v raw) = raw"
| "token_text (Operator p) = operator_text p"
| "token_text (Paren b) = (if b then [40] else [41])"

definition tokens_text :: "'n token list \<Rightarrow> jstr" where
  "tokens_text ts = concat (map (\<lambda>t. token_text t @ [32]) ts)"

text \<open>Literals whose text is a string of digits and whose value is finite.\<close>

fun token_ok :: "'n num_ops \<Rightarrow> 'n token \<Rightarrow> bool" where
  "token_ok ops (Number v raw) = (raw \<noteq> [] \<and> list_all isDigit raw \<and> v = n_number ops raw \<and> n_isFinite ops v)"
| "token_ok ops _ = True"

primrec literals_ok :: "'n num_ops \<Rightarrow> ast \<Rightarrow> bool" where
  "literals_ok ops (Lit raw) = (raw \<noteq> [] \<and> list_all isDigit raw \<and> n_isFinite ops (n_number ops raw))"
| "literals_ok ops (Pos a) = literals_ok ops a"
| "literals_ok ops (Neg a) = literals_ok ops a"
| "literals_ok ops (Bin p a b) = (literals_ok ops a \<and> literals_ok ops b)"

lemma print_ast_tokens_ok: "literals_ok ops a \<Longrightarrow> list_all (token_ok ops) (print_ast ops a k)"
  by (induction a arbitrary: k) (auto simp: wrap_def split: prod.splits)

lemma scan_digits:
  assumes "raw \<noteq> []" "list_all isDigit raw"
  shows "scan_number (raw @ 32 # s) = Inr (length raw)"
proof -
  have d: "takeWhile isDigit (raw @ 32 # s) = raw"
    using assms(2) by (simp add: takeWhile_append2 list_all_iff isDigit_def)
  have "digits_from 0 (raw @ 32 # s) = length raw" by (simp add: digits_from_def d)
  moreover have "char_at (raw @ 32 # s) (length raw) = Some 32" by (simp add: char_at_def)
  ultimately have "scan_decimal (raw @ 32 # s) = Inr (length raw)"
    using assms(1) by (simp add: scan_decimal_def scan_exponent_def)
  moreover have "Option.bind (char_at (raw @ 32 # s) 1) radix_digit = None"
  proof -
    have "char_at (raw @ 32 # s) 1 = Some c \<Longrightarrow> isDigit c \<or> c = 32" for c
      using assms by (cases raw; cases "tl raw") (auto simp: char_at_def list_all_iff split: if_splits)
    then show ?thesis by (cases "char_at (raw @ 32 # s) 1") (auto simp: radix_digit_def isDigit_def)
  qed
  ultimately show ?thesis by (simp add: scan_number_def)
qed

lemma tokenize_space: "tokenizeExpression ops (32 # s) = tokenizeExpression ops s"
  by (subst tokenizeExpression.simps) (simp add: is_ws_def)

lemma tokenize_operator: "tokenizeExpression ops (operator_text p @ 32 # s) = map_sum id ((#) (Operator p)) (tokenizeExpression ops s)"
  by (cases p; simp only: operator_text.simps append.simps; subst tokenizeExpression.simps;
      simp add: is_ws_def operator_of_def char_at_def tokenize_space)

lemma tokenize_paren: "tokenizeExpression ops ((if b then 40 else 41) # 32 # s) = map_sum id ((#) (Paren b)) (tokenizeExpression ops s)"
  by (subst tokenizeExpression.simps) (simp add: is_ws_def tokenize_space)

lemma tokenize_number:
  assumes "raw \<noteq> []" "list_all isDigit raw" "n_isFinite ops (n_number ops raw)"
  shows "tokenizeExpression ops (raw @ 32 # s) = map_sum id ((#) (Number (n_number ops raw) raw)) (tokenizeExpression ops s)"
proof -
  obtain c cs where raw: "raw = c # cs" "isDigit c" using assms by (cases raw) auto
  have c: "\<not> is_ws c" "c \<noteq> 40" "c \<noteq> 41" "c \<noteq> 42" "operator_of c = None" "number_start (c # cs @ 32 # s)"
    using raw by (auto simp: isDigit_def is_ws_def operator_of_def number_start_def)
  have n: "scan_number (c # cs @ 32 # s) = Inr (Suc (length cs))" using scan_digits [OF assms(1,2), of s] raw by simp
  show ?thesis
    unfolding raw(1) append.simps using c n assms(3)
    by (subst tokenizeExpression.simps) (simp add: raw(1) tokenize_space Let_def)
qed

lemma tokenize_token:
  "token_ok ops t \<Longrightarrow> tokenizeExpression ops (token_text t @ 32 # s) = map_sum id ((#) t) (tokenizeExpression ops s)"
  using tokenize_paren [of ops True s] tokenize_paren [of ops False s]
  by (cases t) (auto simp: tokenize_operator tokenize_number)

lemma tokenize_text:
  "list_all (token_ok ops) ts \<Longrightarrow> tokenizeExpression ops (tokens_text ts) = Inr ts"
proof (induction ts)
  case Nil
  then show ?case by (simp add: tokens_text_def tokenizeExpression.simps [of ops "[]"])
next
  case (Cons t ts)
  then show ?case using tokenize_token [of ops t "tokens_text ts"] by (simp add: tokens_text_def)
qed

lemma print_ast_not_Nil: "print_ast ops a k \<noteq> []"
  by (cases a) (auto simp: wrap_def split: prod.splits)

section \<open>Properties\<close>

text \<open>C33: the calculator computes what an expression means: for every expression tree, the text of the tree
  with only the parentheses that precedence and associativity require evaluates to the value of the tree,
  or is rejected as not finite when that value is not finite; negative zero becomes zero.  This holds for
  every arithmetic on numbers.\<close>

theorem calculator_evaluates_trees:
  assumes "literals_ok ops a"
  shows "evaluateExpression ops (tokens_text (print_ast ops a 0)) =
    (if \<not> n_isFinite ops (eval_ast ops a) then Inl Not_finite
     else Inr (if n_isNegativeZero ops (eval_ast ops a) then n_zero ops else eval_ast ops a))"
  using tokenize_text [OF print_ast_tokens_ok [OF assms]]
  by (simp add: evaluateExpression_def parse_print_ast print_ast_not_Nil)

definition int_ops :: "int num_ops" where
  "int_ops = \<lparr>n_number = (\<lambda>raw. int (parse_digits raw)), n_isFinite = (\<lambda>v. True),
     n_binary = (\<lambda>p v w. case p of Add \<Rightarrow> v + w | Sub \<Rightarrow> v - w | Mul \<Rightarrow> v * w | Div \<Rightarrow> v div w | Mod \<Rightarrow> v mod w | Pow \<Rightarrow> v ^ nat w),
     n_negate = uminus, n_isNegativeZero = (\<lambda>v. False), n_zero = 0, n_string = (\<lambda>v. [])\<rparr>"

definition demo_ast :: ast where
  "demo_ast = Bin Sub (Bin Sub (Lit (js ''9'')) (Lit (js ''2''))) (Neg (Bin Pow (Bin Add (Lit (js ''1'')) (Lit (js ''1''))) (Lit (js ''3''))))"

theorem calculator_evaluates_trees_witness:
  "evaluateExpression int_ops (tokens_text (print_ast int_ops demo_ast 0)) = Inr 15"
proof -
  have "literals_ok int_ops demo_ast" by (simp add: demo_ast_def int_ops_def js_eval isDigit_def)
  moreover have "eval_ast int_ops demo_ast = 15" by (simp add: demo_ast_def int_ops_def js_eval parse_digits_def)
  ultimately show ?thesis using calculator_evaluates_trees [of int_ops demo_ast] by (simp add: int_ops_def)
qed

end
