(* ===== verification/Hashline_Prefixes.thy ===== *)
theory Hashline_Prefixes
  imports Hashline_Anchors
begin

text \<open>
  Stripping of read-output prefixes from echoed lines (\<open>hashline/prefixes.ts\<close>): the four regular
  expressions, the statistics over the lines, and the three functions that decide what to strip.

  The loop of \<open>stripLeadingHashlinePrefixes\<close> repeats a replacement until nothing changes; it is a partial
  function here, and that it always returns is proved.
\<close>

section \<open>Patterns\<close>

definition HL_OUTPUT_PREFIX_SEPARATOR_RE :: rx where
  "HL_OUTPUT_PREFIX_SEPARATOR_RE = RCls (\<lambda>c. c = 58 \<or> c = HL_BODY_SEP)"

definition LINE_MARK_RE :: rx where
  "LINE_MARK_RE = RSeqs [RWs, ROpt (RAlt (RStr (js ''>>>'')) (RStr (js ''>>''))), RWs]"

definition LINE_TAG_RE :: rx where
  "LINE_TAG_RE = RSeqs [RDigits, RCls is_lower, RCls is_lower, HL_OUTPUT_PREFIX_SEPARATOR_RE]"

definition HL_PREFIX_RE :: rx where
  "HL_PREFIX_RE = RSeqs [LINE_MARK_RE, ROpt (RSeq (RCls (\<lambda>c. c = 43 \<or> c = 42)) RWs), LINE_TAG_RE]"

definition HL_PREFIX_PLUS_RE :: rx where
  "HL_PREFIX_PLUS_RE = RSeqs [LINE_MARK_RE, RChr 43, RWs, LINE_TAG_RE]"

definition DIFF_PLUS_RE :: rx where
  "DIFF_PLUS_RE = RSeq (RChr 43) (RNot (RChr 43))"

definition READ_TRUNCATION_NOTICE_RE :: rx where
  "READ_TRUNCATION_NOTICE_RE =
     RSeqs [RChr 91,
       RAlt (RSeqs [RStr (js ''Showing lines ''), RDigits, RChr 45, RDigits, RStr (js '' of ''), RDigits])
            (RSeqs [RDigits, RStr (js '' more line''), ROpt (RChr 115), RStr (js '' in ''),
                    RAlt (RStr (js ''file'')) (RPlus (RCls (\<lambda>c. \<not> is_ws c)))]),
       RWordB, RStar (RCls is_dot), RWordB, RStr (js ''Use :''), ROpt (RChr 76), RDigits]"

section \<open>Stripping\<close>

partial_function (option) strip_loop :: "jstr \<Rightarrow> jstr option" where
  "strip_loop previous =
     (let result = rstrip HL_PREFIX_RE previous
      in if result \<noteq> previous then strip_loop result else Some result)"

definition stripLeadingHashlinePrefixes :: "jstr \<Rightarrow> jstr" where
  "stripLeadingHashlinePrefixes line = the (strip_loop line)"

record line_prefix_stats =
  nonEmpty :: nat
  hashPrefixCount :: nat
  diffPlusHashPrefixCount :: nat
  diffPlusCount :: nat
  truncationNoticeCount :: nat

definition stats_step :: "line_prefix_stats \<Rightarrow> jstr \<Rightarrow> line_prefix_stats" where
  "stats_step stats line =
     (if length line = 0 then stats
      else if rtest READ_TRUNCATION_NOTICE_RE line
      then stats\<lparr>truncationNoticeCount := truncationNoticeCount stats + 1\<rparr>
      else stats\<lparr>nonEmpty := nonEmpty stats + 1,
        hashPrefixCount := hashPrefixCount stats + (if rtest HL_PREFIX_RE line then 1 else 0),
        diffPlusHashPrefixCount := diffPlusHashPrefixCount stats + (if rtest HL_PREFIX_PLUS_RE line then 1 else 0),
        diffPlusCount := diffPlusCount stats + (if rtest DIFF_PLUS_RE line then 1 else 0)\<rparr>)"

definition collectLinePrefixStats :: "jstr list \<Rightarrow> line_prefix_stats" where
  "collectLinePrefixStats lines =
     foldl stats_step \<lparr>nonEmpty = 0, hashPrefixCount = 0, diffPlusHashPrefixCount = 0, diffPlusCount = 0,
       truncationNoticeCount = 0\<rparr> lines"

definition stripNewLinePrefixes :: "jstr list \<Rightarrow> jstr list" where
  "stripNewLinePrefixes lines =
     (let stats = collectLinePrefixStats lines;
          stripHash = (hashPrefixCount stats > 0 \<and> hashPrefixCount stats = nonEmpty stats);
          stripPlus = (\<not> stripHash \<and> diffPlusHashPrefixCount stats = 0 \<and> diffPlusCount stats > 0 \<and>
                       2 * diffPlusCount stats \<ge> nonEmpty stats)
      in if nonEmpty stats = 0 then lines
         else if \<not> stripHash \<and> \<not> stripPlus \<and> diffPlusHashPrefixCount stats = 0 then lines
         else map (\<lambda>line.
                if stripHash then stripLeadingHashlinePrefixes line
                else if stripPlus then rstrip DIFF_PLUS_RE line
                else if diffPlusHashPrefixCount stats > 0 \<and> rtest HL_PREFIX_PLUS_RE line then rstrip HL_PREFIX_RE line
                else line)
              (filter (\<lambda>line. \<not> rtest READ_TRUNCATION_NOTICE_RE line) lines))"

definition stripHashlinePrefixes :: "jstr list \<Rightarrow> jstr list" where
  "stripHashlinePrefixes lines =
     (let stats = collectLinePrefixStats lines
      in if nonEmpty stats = 0 then lines
         else if hashPrefixCount stats \<noteq> nonEmpty stats then lines
         else map stripLeadingHashlinePrefixes (filter (\<lambda>line. \<not> rtest READ_TRUNCATION_NOTICE_RE line) lines))"

datatype edit_text = No_text | Text_lines "jstr list" | Text_string jstr

definition hashlineParseText :: "edit_text \<Rightarrow> jstr list" where
  "hashlineParseText edit =
     (case edit of
        No_text \<Rightarrow> []
      | Text_lines ls \<Rightarrow> stripNewLinePrefixes ls
      | Text_string s \<Rightarrow>
          (let trimmed = (if s \<noteq> [] \<and> last s = 10 then butlast s else s)
           in stripNewLinePrefixes (split_on 10 (filter (\<lambda>c. c \<noteq> 13) trimmed))))"

section \<open>The loop ends\<close>

lemma strip_loop_ends:
  "\<exists>r. strip_loop line = Some r \<and> suffix r line \<and> rstrip HL_PREFIX_RE r = r"
proof (induction "length line" arbitrary: line rule: less_induct)
  case less
  show ?case
  proof (cases "rstrip HL_PREFIX_RE line = line")
    case True
    then show ?thesis by (subst strip_loop.simps) simp
  next
    case False
    have s: "suffix (rstrip HL_PREFIX_RE line) line" by (rule rstrip_suffix)
    with False have "length (rstrip HL_PREFIX_RE line) < length line"
      by (intro rstrip_shorter_or_same)
    from less [OF this] obtain r where "strip_loop (rstrip HL_PREFIX_RE line) = Some r"
      "suffix r (rstrip HL_PREFIX_RE line)" "rstrip HL_PREFIX_RE r = r" by blast
    moreover have "strip_loop line = strip_loop (rstrip HL_PREFIX_RE line)"
      using False by (subst strip_loop.simps) simp
    ultimately show ?thesis using s suffix_order.trans by auto
  qed
qed

text \<open>C34: stripping of leading prefixes always returns: the do-while loop of
  \<open>stripLeadingHashlinePrefixes\<close> ends on every line, what it returns is a suffix of the line, and no
  further prefix can be taken off it.\<close>

theorem strip_loop_returns:
  "\<exists>r. strip_loop line = Some r \<and> stripLeadingHashlinePrefixes line = r \<and> suffix r line \<and>
       rstrip HL_PREFIX_RE r = r"
  using strip_loop_ends [of line] by (auto simp: stripLeadingHashlinePrefixes_def)

section \<open>Stripping undoes the read output\<close>

lemma rstrip_no_match: "\<not> rtest r s \<Longrightarrow> rstrip r s = s"
  by (cases "rexec r s") (simp_all add: rtest_def rstrip_def)

lemma formatHashLine_not_Nil [simp]: "formatHashLine xx n l \<noteq> []"
  by (simp add: formatHashLine_def)

lemma formatHashLine_neq [simp]: "l \<noteq> formatHashLine xx n l"
  by (rule notI, drule arg_cong [where f = length]) (simp add: formatHashLine_def)

lemma rtest_lang: "rtest r s \<Longrightarrow> \<exists>u \<in> lang r. prefix u s"
proof -
  assume "rtest r s"
  then obtain st sts where "rmatch r (None, s, []) = st # sts"
    by (auto simp: rtest_def rexec_def rfirst_def split: list.splits)
  then have "\<exists>u \<in> lang r. s = u @ fst (snd st)" using rmatch_lang [of st r "(None, s, [])"] by simp
  then show ?thesis by (metis prefixI)
qed

lemma lang_tag: "u \<in> lang LINE_TAG_RE \<Longrightarrow> \<exists>x v. u = x # v \<and> is_digit x"
  unfolding LINE_TAG_RE_def RPlus_def RSeqs.simps lang.simps(2,3) by force

text \<open>Every tag has a line number, so a line without digits has no prefix.\<close>

lemma no_digit_no_prefix:
  assumes "\<And>x. x \<in> set l \<Longrightarrow> \<not> is_digit x"
  shows "\<not> rtest HL_PREFIX_RE l"
proof
  assume "rtest HL_PREFIX_RE l"
  then obtain u where "u \<in> lang HL_PREFIX_RE" "prefix u l" using rtest_lang by blast
  moreover from this obtain a b v where u: "u = a @ b @ v" and v: "v \<in> lang LINE_TAG_RE"
    unfolding HL_PREFIX_RE_def RSeqs.simps lang.simps(3) by blast
  moreover from lang_tag [OF v] obtain x v' where "v = x # v'" "is_digit x" by blast
  ultimately have "x \<in> set l" using set_mono_prefix [of u l] by auto
  with assms \<open>is_digit x\<close> show False by blast
qed

lemma rfirst_mark_digit:
  assumes "is_digit x"
  shows "rfirst LINE_MARK_RE (p, x # xs, c) = Some (p, x # xs, c)"
proof -
  have x: "x \<noteq> 62" "\<not> is_ws x" using assms by (auto simp: is_digit_def)
  then have "rfirst (ROpt (RAlt (RStr (js ''>>>'')) (RStr (js ''>>'')))) (p, x # xs, c) = Some (p, x # xs, c)"
    by (simp add: ROpt_def rfirst_RAlt rfirst_RSeq_None js_eval RChr_def)
  moreover have "rfirst RWs (p, x # xs, c) = Some (p, x # xs, c)" using x by simp
  ultimately show ?thesis by (simp add: LINE_MARK_RE_def rfirst_RSeq)
qed

lemma rfirst_tag:
  assumes "is_lower a" "is_lower b" "e = 58 \<or> e = HL_BODY_SEP"
  shows "rfirst LINE_TAG_RE (p, nat_str n @ a # b # e # s, c) = Some (Some e, s, c)"
proof -
  obtain x xs where n: "nat_str n = x # xs" "is_digit x" using nat_str_Cons by blast
  then have "list_all is_digit xs" using nat_str_digits [of _ n] by (auto simp: list_all_iff)
  then have "dropWhile is_digit (xs @ a # b # e # s) = a # b # e # s"
    using assms(1) by (simp add: dropWhile_append list_all_iff)
  with n have "\<exists>p'. rfirst RDigits (p, nat_str n @ a # b # e # s, c) = Some (p', a # b # e # s, c)"
    using rfirst_RDigits [of "nat_str n @ a # b # e # s" x "xs @ a # b # e # s" p c] by simp
  then obtain p' where d: "rfirst RDigits (p, nat_str n @ a # b # e # s, c) = Some (p', a # b # e # s, c)" ..
  show ?thesis unfolding LINE_TAG_RE_def RSeqs.simps HL_OUTPUT_PREFIX_SEPARATOR_RE_def
    by (intro rfirst_RSeq [OF d] rfirst_RSeq [where ?st1.0 = "(Some a, b # e # s, c)"]
        rfirst_RSeq [where ?st1.0 = "(Some b, e # s, c)"]) (use assms in auto)
qed

lemma rexec_prefix:
  assumes "is_lower a" "is_lower b" "e = 58 \<or> e = HL_BODY_SEP"
  shows "rexec HL_PREFIX_RE (nat_str n @ a # b # e # s) = Some (Some e, s, [])"
proof -
  obtain x xs where n: "nat_str n = x # xs" "is_digit x" using nat_str_Cons by blast
  let ?t = "nat_str n @ a # b # e # s"
  have "rfirst LINE_MARK_RE (None, ?t, []) = Some (None, ?t, [])"
    using n by (simp add: rfirst_mark_digit)
  moreover have "rfirst (ROpt (RSeq (RCls (\<lambda>c. c = 43 \<or> c = 42)) RWs)) (None, ?t, []) = Some (None, ?t, [])"
    using n by (auto simp: ROpt_def rfirst_RAlt rfirst_RSeq_None is_digit_def)
  ultimately show ?thesis
    unfolding rexec_def HL_PREFIX_RE_def RSeqs.simps using rfirst_tag [OF assms] by (intro rfirst_RSeq)
qed

lemma prefix_formatHashLine:
  "rtest HL_PREFIX_RE (formatHashLine xx n l)"
  "rstrip HL_PREFIX_RE (formatHashLine xx n l) = l"
proof -
  obtain a b where "computeLineHash xx n l = [a, b]" "is_lower a" "is_lower b" using clh.pair by blast
  then have "rexec HL_PREFIX_RE (formatHashLine xx n l) = Some (Some HL_BODY_SEP, l, [])"
    using rexec_prefix [of a b HL_BODY_SEP n l] by (simp add: formatHashLine_def)
  then show "rtest HL_PREFIX_RE (formatHashLine xx n l)" "rstrip HL_PREFIX_RE (formatHashLine xx n l) = l"
    by (simp_all add: rtest_def rstrip_def)
qed

lemma formatHashLine_not_notice: "\<not> rtest READ_TRUNCATION_NOTICE_RE (formatHashLine xx n l)"
proof -
  obtain x xs where n: "nat_str n = x # xs" "is_digit x" using nat_str_Cons by blast
  then have "rfirst (RChr 91) (None, formatHashLine xx n l, []) = None"
    by (auto simp: formatHashLine_def RChr_def is_digit_def)
  then show ?thesis
    by (simp add: rtest_def rexec_def READ_TRUNCATION_NOTICE_RE_def rfirst_RSeq_None)
qed

lemma strip_formatHashLine:
  assumes "\<not> rtest HL_PREFIX_RE l"
  shows "stripLeadingHashlinePrefixes (formatHashLine xx n l) = l"
proof -
  have "strip_loop l = Some l"
    using rstrip_no_match [OF assms] by (subst strip_loop.simps) simp
  then have "strip_loop (formatHashLine xx n l) = Some l"
    by (subst strip_loop.simps) (simp add: prefix_formatHashLine)
  then show ?thesis by (simp add: stripLeadingHashlinePrefixes_def)
qed

lemma collect_formatted:
  assumes "\<And>l. l \<in> set ls \<Longrightarrow> l \<noteq> [] \<and> rtest HL_PREFIX_RE l \<and> \<not> rtest READ_TRUNCATION_NOTICE_RE l"
  shows "nonEmpty (foldl stats_step st ls) = nonEmpty st + length ls \<and>
         hashPrefixCount (foldl stats_step st ls) = hashPrefixCount st + length ls"
  using assms by (induction ls arbitrary: st) (simp_all add: stats_step_def)

lemma strip_formatted_lines:
  assumes "\<And>l. l \<in> set ls \<Longrightarrow> \<not> rtest HL_PREFIX_RE l"
  shows "stripNewLinePrefixes (map (\<lambda>i. formatHashLine xx (k + i) (ls ! i)) [0..<length ls]) = ls"
proof (cases "ls = []")
  case True
  then show ?thesis by (simp add: stripNewLinePrefixes_def collectLinePrefixStats_def)
next
  case False
  let ?out = "map (\<lambda>i. formatHashLine xx (k + i) (ls ! i)) [0..<length ls]"
  let ?st = "collectLinePrefixStats ?out"
  have "nonEmpty ?st = length ls" "hashPrefixCount ?st = length ls"
    unfolding collectLinePrefixStats_def
    by (subst collect_formatted; auto simp: prefix_formatHashLine formatHashLine_not_notice)+
  moreover have "filter (\<lambda>l. \<not> rtest READ_TRUNCATION_NOTICE_RE l) ?out = ?out"
    by (auto simp: filter_id_conv formatHashLine_not_notice)
  moreover have "map stripLeadingHashlinePrefixes ?out = ls"
    using assms by (auto simp: strip_formatHashLine intro: nth_equalityI)
  ultimately show ?thesis using False
    by (simp add: stripNewLinePrefixes_def Let_def del: map_map filter_map)
qed

lemma formatHashLine_clean: "c < 32 \<Longrightarrow> c \<in> set (formatHashLine xx n l) \<longleftrightarrow> c \<in> set l"
proof -
  obtain a b where "computeLineHash xx n l = [a, b]" "is_lower a" "is_lower b" using clh.pair by blast
  then show "c < 32 \<Longrightarrow> ?thesis"
    using nat_str_digits [of c n] by (auto simp: formatHashLine_def is_lower_def is_digit_def HL_BODY_SEP_def)
qed

lemma set_join_with: "x \<in> set (join_with sep ls) \<Longrightarrow> x \<in> set sep \<or> (\<exists>l \<in> set ls. x \<in> set l)"
  by (induction sep ls rule: join_with.induct) auto

lemma split_on_sub: "l \<in> set (split_on c s) \<Longrightarrow> set l \<subseteq> set s"
proof (induction s arbitrary: l)
  case (Cons x s)
  then show ?case by (fastforce split: if_splits list.splits)
qed simp

lemma last_join_with:
  "ls \<noteq> [] \<Longrightarrow> last ls \<noteq> [] \<Longrightarrow> c \<notin> set (last ls) \<Longrightarrow> join_with sep ls \<noteq> [] \<and> last (join_with sep ls) \<noteq> c"
proof (induction sep ls rule: join_with.induct)
  case (3 sep l v va)
  then have "join_with sep (v # va) \<noteq> [] \<and> last (join_with sep (v # va)) \<noteq> c" by simp
  then show ?case by simp
qed (auto dest: last_in_set)

text \<open>C35: text that the read tool printed with its line tags comes back unchanged when a model echoes it as
  the payload of an edit: for text without carriage returns none of whose lines itself starts like a
  tagged line, \<open>hashlineParseText\<close> applied to \<open>formatHashLines\<close> gives the lines of the text.\<close>

theorem echoed_read_output:
  assumes "13 \<notin> set s"
    and "\<And>l. l \<in> set (split_on 10 s) \<Longrightarrow> \<not> rtest HL_PREFIX_RE l"
  shows "hashlineParseText (Text_string (formatHashLines xx s k)) = split_on 10 s"
proof -
  let ?ls = "split_on 10 s"
  let ?out = "map (\<lambda>i. formatHashLine xx (k + i) (?ls ! i)) [0..<length ?ls]"
  have lf: "10 \<notin> set l" if out: "l \<in> set ?out" for l
  proof -
    from out obtain i where "i < length ?ls" "l = formatHashLine xx (k + i) (?ls ! i)" by auto
    then show ?thesis using split_on_sep_free [OF nth_mem, of i 10 s] by (simp add: formatHashLine_clean)
  qed
  have ne: "?out \<noteq> []" by simp
  have cr: "13 \<notin> set (join_with [10] ?out)"
  proof
    assume "13 \<in> set (join_with [10] ?out)"
    then obtain i where "i < length ?ls" "13 \<in> set (?ls ! i)"
      by (auto simp: formatHashLine_clean dest!: set_join_with)
    with assms(1) split_on_sub [OF nth_mem, of i 10 s] show False by auto
  qed
  have "last (join_with [10] ?out) \<noteq> 10"
  proof -
    have "last ?out \<in> set ?out" using ne by (rule last_in_set)
    moreover from this have "last ?out \<noteq> []" by (metis (no_types, lifting) formatHashLine_not_Nil imageE list.set_map)
    ultimately show ?thesis using last_join_with [OF ne] lf by blast
  qed
  moreover have "filter (\<lambda>c. c \<noteq> 13) (join_with [10] ?out) = join_with [10] ?out"
    using cr by (auto simp: filter_id_conv)
  ultimately have "hashlineParseText (Text_string (formatHashLines xx s k)) =
      stripNewLinePrefixes (split_on 10 (join_with [10] ?out))"
    by (simp add: hashlineParseText_def formatHashLines_def Let_def)
  also have "split_on 10 (join_with [10] ?out) = ?out" by (rule split_join [OF ne lf])
  finally show ?thesis using strip_formatted_lines [OF assms(2)] by simp
qed

theorem echoed_read_output_witness:
  "hashlineParseText (Text_string (formatHashLines (\<lambda>_. 3) (js ''x+'' @ [10] @ js ''}'') 41)) = [js ''x+'', js ''}'']"
proof -
  have s: "split_on 10 (js ''x+'' @ [10] @ js ''}'') = [js ''x+'', js ''}'']" by (simp add: js_eval)
  have x: "\<not> rtest HL_PREFIX_RE (js ''x+'')" by (rule no_digit_no_prefix) (auto simp: js_eval)
  have b: "\<not> rtest HL_PREFIX_RE (js ''}'')" by (rule no_digit_no_prefix) (auto simp: js_eval)
  have cr: "13 \<notin> set (js ''x+'' @ [10] @ js ''}'')" by (simp add: js_eval)
  have "\<not> rtest HL_PREFIX_RE l" if "l \<in> set (split_on 10 (js ''x+'' @ [10] @ js ''}''))" for l
    using that x b unfolding s by auto
  from echoed_read_output [OF cr this] show ?thesis unfolding s .
qed

end
