(* ===== verification/Text_Normalize.thy ===== *)
theory Text_Normalize
  imports Js_Prelude "HOL-Library.Sublist"
begin

text \<open>
  Text normalisation for the edit tools (\<open>edit/normalize.ts\<close>): line endings, the byte order mark,
  indentation profiles and the adjustment of a replacement's indentation to the text it replaces, and the
  normal form for fuzzy line comparison.

  Shown: taking off the byte order mark and the line endings and putting them back is the identity on text
  with uniform endings; adjusting indentation changes leading white space and nothing else; the unit of a
  space-indented text is the greatest common divisor of its indents.  \<open>normalizeUnicode\<close> is not modelled: it
  ends with \<open>String.prototype.normalize\<close>, which needs the Unicode composition tables.
\<close>

section \<open>Line endings and byte order mark\<close>

datatype line_ending = CRLF | LF

definition ending_str :: "line_ending \<Rightarrow> jstr" where
  "ending_str e = (case e of CRLF \<Rightarrow> [13, 10] | LF \<Rightarrow> [10])"

fun index_of :: "jstr \<Rightarrow> jstr \<Rightarrow> nat option" where
  "index_of pat [] = (if pat = [] then Some 0 else None)"
| "index_of pat (x # xs) = (if prefix pat (x # xs) then Some 0 else map_option Suc (index_of pat xs))"

definition detectLineEnding :: "jstr \<Rightarrow> line_ending" where
  "detectLineEnding content =
     (case index_of [10] content of
        None \<Rightarrow> LF
      | Some lfIdx \<Rightarrow>
          (case index_of [13, 10] content of
             None \<Rightarrow> LF
           | Some crlfIdx \<Rightarrow> if crlfIdx < lfIdx then CRLF else LF))"

fun normalizeToLF :: "jstr \<Rightarrow> jstr" where
  "normalizeToLF [] = []"
| "normalizeToLF (x # xs) =
     (if x = 13
      then 10 # (case xs of y # ys \<Rightarrow> if y = 10 then normalizeToLF ys else normalizeToLF xs | [] \<Rightarrow> [])
      else x # normalizeToLF xs)"

definition restoreLineEndings :: "jstr \<Rightarrow> line_ending \<Rightarrow> jstr" where
  "restoreLineEndings s ending =
     (case ending of CRLF \<Rightarrow> concat (map (\<lambda>c. if c = 10 then [13, 10] else [c]) s) | LF \<Rightarrow> s)"

record bom_result =
  bom :: jstr
  bom_text :: jstr

definition stripBom :: "jstr \<Rightarrow> bom_result" where
  "stripBom content =
     (if prefix [65279] content then \<lparr>bom = [65279], bom_text = drop 1 content\<rparr>
      else \<lparr>bom = [], bom_text = content\<rparr>)"

section \<open>White space\<close>

fun countLeadingWhitespace :: "jstr \<Rightarrow> nat" where
  "countLeadingWhitespace [] = 0"
| "countLeadingWhitespace (c # cs) = (if c = 32 \<or> c = 9 then Suc (countLeadingWhitespace cs) else 0)"

definition getLeadingWhitespace :: "jstr \<Rightarrow> jstr" where
  "getLeadingWhitespace line = take (countLeadingWhitespace line) line"

definition isNonEmptyLine :: "jstr \<Rightarrow> bool" where
  "isNonEmptyLine line \<longleftrightarrow> length (trim line) > 0"

text \<open>The running minimum starts at infinity, here \<open>None\<close>.\<close>

definition min_step :: "nat option \<Rightarrow> jstr \<Rightarrow> nat option" where
  "min_step m line =
     (if isNonEmptyLine line
      then Some (case m of None \<Rightarrow> countLeadingWhitespace line | Some k \<Rightarrow> min k (countLeadingWhitespace line))
      else m)"

definition minIndent :: "jstr \<Rightarrow> nat" where
  "minIndent s = (case foldl min_step None (split_on 10 s) of None \<Rightarrow> 0 | Some k \<Rightarrow> k)"

fun first_indent_char :: "jstr list \<Rightarrow> nat" where
  "first_indent_char [] = 32"
| "first_indent_char (line # ls) =
     (case getLeadingWhitespace line of [] \<Rightarrow> first_indent_char ls | c # _ \<Rightarrow> c)"

definition detectIndentChar :: "jstr \<Rightarrow> nat" where
  "detectIndentChar s = first_indent_char (split_on 10 s)"

function gcd_loop :: "nat \<Rightarrow> nat \<Rightarrow> nat" where
  "gcd_loop x y = (if y \<noteq> 0 then gcd_loop y (x mod y) else x)"
  by auto
termination by (relation "measure snd") auto

declare gcd_loop.simps [simp del]

definition js_gcd :: "int \<Rightarrow> int \<Rightarrow> nat" where
  "js_gcd a b = gcd_loop (nat \<bar>a\<bar>) (nat \<bar>b\<bar>)"

section \<open>Indentation profiles\<close>

record indent_profile =
  ip_lines :: "jstr list"
  ip_counts :: "nat list"
  ip_char :: "nat option"
  ip_spaceOnly :: bool
  ip_tabOnly :: bool
  ip_mixed :: bool
  ip_unit :: nat
  ip_nonEmptyCount :: nat

definition profile_step :: "indent_profile \<Rightarrow> jstr \<Rightarrow> indent_profile" where
  "profile_step p line =
     (if \<not> isNonEmptyLine line then p
      else let indent = getLeadingWhitespace line;
               other_char = (indent \<noteq> [] \<and> ip_char p \<noteq> None \<and> ip_char p \<noteq> Some (hd indent))
           in p\<lparr>ip_nonEmptyCount := ip_nonEmptyCount p + 1,
                ip_counts := ip_counts p @ [length indent],
                ip_tabOnly := (if 32 \<in> set indent then False else ip_tabOnly p),
                ip_spaceOnly := (if 9 \<in> set indent then False else ip_spaceOnly p),
                ip_mixed := (ip_mixed p \<or> (32 \<in> set indent \<and> 9 \<in> set indent) \<or> other_char),
                ip_char := (if indent \<noteq> [] \<and> ip_char p = None then Some (hd indent) else ip_char p)\<rparr>)"

definition unit_step :: "nat \<Rightarrow> nat \<Rightarrow> nat" where
  "unit_step current count =
     (if count = 0 then current else if current = 0 then count else js_gcd (int current) (int count))"

definition buildIndentProfile :: "jstr \<Rightarrow> indent_profile" where
  "buildIndentProfile s =
     (let p = foldl profile_step
            \<lparr>ip_lines = split_on 10 s, ip_counts = [], ip_char = None, ip_spaceOnly = True, ip_tabOnly = True,
             ip_mixed = False, ip_unit = 0, ip_nonEmptyCount = 0\<rparr> (split_on 10 s);
          u1 = (if ip_spaceOnly p \<and> ip_nonEmptyCount p > 0 then foldl unit_step 0 (ip_counts p) else 0);
          u2 = (if ip_tabOnly p \<and> ip_nonEmptyCount p > 0 then 1 else u1)
      in p\<lparr>ip_unit := u2\<rparr>)"

text \<open>\<open>padding(n)\<close> is \<open>n\<close> spaces.\<close>

definition padding :: "int \<Rightarrow> jstr" where
  "padding n = (if n \<le> 0 then [] else replicate (nat n) 32)"

definition convert_line :: "nat \<Rightarrow> jstr \<Rightarrow> jstr" where
  "convert_line spacesPerTab line =
     (let trimmed = trimStart line; leading = getLeadingWhitespace line
      in if length trimmed = 0 then line
         else if 9 \<notin> set leading \<or> 32 \<in> set leading then line
         else padding (int (length leading * spacesPerTab)) @ trimmed)"

definition convertLeadingTabsToSpaces :: "jstr \<Rightarrow> nat \<Rightarrow> jstr" where
  "convertLeadingTabsToSpaces s spacesPerTab =
     (if spacesPerTab = 0 then s
      else join_with [10] (map (convert_line spacesPerTab) (split_on 10 s)))"

section \<open>Fuzzy comparison\<close>

definition fuzzy_char :: "nat \<Rightarrow> nat" where
  "fuzzy_char c =
     (if c \<in> {34, 8222, 8223, 171, 187} then 34
      else if c \<in> {39, 8218, 8219, 96, 180} then 39
      else if c \<in> {8208, 8209, 8210, 8211, 8212, 8722} then 45
      else c)"

fun collapse_blanks :: "bool \<Rightarrow> jstr \<Rightarrow> jstr" where
  "collapse_blanks inRun [] = []"
| "collapse_blanks inRun (c # cs) =
     (if c = 32 \<or> c = 9 then (if inRun then [] else [32]) @ collapse_blanks True cs
      else c # collapse_blanks False cs)"

definition normalizeForFuzzy :: "jstr \<Rightarrow> jstr" where
  "normalizeForFuzzy line =
     (let trimmed = trim line
      in if length trimmed = 0 then [] else collapse_blanks False (map fuzzy_char trimmed))"

section \<open>Indentation adjustment\<close>

definition isIndentationOnlyRewrite :: "jstr \<Rightarrow> jstr \<Rightarrow> bool" where
  "isIndentationOnlyRewrite oldText newText =
     (let oldLines = split_on 10 oldText; newLines = split_on 10 newText
      in length oldLines = length newLines \<and> list_all (\<lambda>(a, b). trim a = trim b) (zip oldLines newLines))"

definition unit_matches :: "nat \<Rightarrow> jstr \<times> jstr \<Rightarrow> bool" where
  "unit_matches u = (\<lambda>(oldLine, actualLine).
     let oldIndent = getLeadingWhitespace oldLine; actualIndent = getLeadingWhitespace actualLine
     in \<not> isNonEmptyLine oldLine \<or> \<not> isNonEmptyLine actualLine \<or> length oldIndent = 0
        \<or> length actualIndent = length oldIndent * u)"

definition maybeConvertTabIndentation ::
  "indent_profile \<Rightarrow> indent_profile \<Rightarrow> indent_profile \<Rightarrow> jstr \<Rightarrow> jstr option" where
  "maybeConvertTabIndentation oldProfile actualProfile newProfile newText =
     (if \<not> ip_spaceOnly actualProfile \<or> \<not> ip_tabOnly oldProfile \<or> \<not> ip_tabOnly newProfile
         \<or> ip_unit actualProfile = 0 then None
      else if list_all (unit_matches (ip_unit actualProfile)) (zip (ip_lines oldProfile) (ip_lines actualProfile))
      then Some (convertLeadingTabsToSpaces newText (ip_unit actualProfile))
      else None)"

definition indent_deltas :: "jstr list \<Rightarrow> jstr list \<Rightarrow> int list" where
  "indent_deltas olds actuals =
     map (\<lambda>(oldLine, actualLine). int (countLeadingWhitespace actualLine) - int (countLeadingWhitespace oldLine))
       (filter (\<lambda>(oldLine, actualLine). isNonEmptyLine oldLine \<and> isNonEmptyLine actualLine) (zip olds actuals))"

definition computeUniformIndentDelta :: "indent_profile \<Rightarrow> indent_profile \<Rightarrow> int option" where
  "computeUniformIndentDelta oldProfile actualProfile =
     (case indent_deltas (ip_lines oldProfile) (ip_lines actualProfile) of
        [] \<Rightarrow> None
      | delta # ds \<Rightarrow> if list_all (\<lambda>v. v = delta) (delta # ds) then Some delta else None)"

definition delta_line :: "int \<Rightarrow> nat \<Rightarrow> jstr \<Rightarrow> jstr" where
  "delta_line delta indentChar line =
     (if \<not> isNonEmptyLine line then line
      else if delta > 0 then replicate (nat delta) indentChar @ line
      else drop (min (nat (- delta)) (countLeadingWhitespace line)) line)"

definition applyIndentDelta :: "jstr \<Rightarrow> int \<Rightarrow> nat \<Rightarrow> jstr" where
  "applyIndentDelta s delta indentChar = join_with [10] (map (delta_line delta indentChar) (split_on 10 s))"

definition hasNonEmptyIndentProfiles :: "indent_profile list \<Rightarrow> bool" where
  "hasNonEmptyIndentProfiles ps = list_all (\<lambda>p. ip_nonEmptyCount p > 0) ps"

definition hasMixedIndentation :: "indent_profile list \<Rightarrow> bool" where
  "hasMixedIndentation ps = list_ex ip_mixed ps"

definition chars_differ :: "nat option \<Rightarrow> nat option \<Rightarrow> bool" where
  "chars_differ a b \<longleftrightarrow> a \<noteq> None \<and> b \<noteq> None \<and> a \<noteq> b"

definition adjustIndentation :: "jstr \<Rightarrow> jstr \<Rightarrow> jstr \<Rightarrow> jstr" where
  "adjustIndentation oldText actualText newText =
     (if oldText = actualText then newText
      else if isIndentationOnlyRewrite oldText newText then newText
      else
        let oldProfile = buildIndentProfile oldText;
            actualProfile = buildIndentProfile actualText;
            newProfile = buildIndentProfile newText
        in if \<not> hasNonEmptyIndentProfiles [oldProfile, actualProfile, newProfile] then newText
           else if hasMixedIndentation [oldProfile, actualProfile, newProfile] then newText
           else if chars_differ (ip_char oldProfile) (ip_char actualProfile)
           then (case maybeConvertTabIndentation oldProfile actualProfile newProfile newText of
                   Some converted \<Rightarrow> converted | None \<Rightarrow> newText)
           else (case computeUniformIndentDelta oldProfile actualProfile of
                   None \<Rightarrow> newText
                 | Some delta \<Rightarrow>
                     if delta = 0 then newText
                     else if chars_differ (ip_char newProfile) (ip_char actualProfile) then newText
                     else applyIndentDelta newText delta
                       (case ip_char actualProfile of Some c \<Rightarrow> c
                        | None \<Rightarrow> (case ip_char oldProfile of Some c \<Rightarrow> c
                                   | None \<Rightarrow> detectIndentChar actualText))))"

section \<open>Line endings come back\<close>

definition plain :: "jstr \<Rightarrow> bool" where
  "plain l \<longleftrightarrow> 10 \<notin> set l \<and> 13 \<notin> set l"

lemma normalizeToLF_plain: "13 \<notin> set l \<Longrightarrow> normalizeToLF (l @ s) = l @ normalizeToLF s"
  by (induction l) auto

lemma normalizeToLF_ending [simp]: "normalizeToLF (ending_str e @ s) = 10 # normalizeToLF s"
  by (cases e) (simp_all add: ending_str_def)

lemma normalize_join:
  "list_all plain ls \<Longrightarrow> normalizeToLF (join_with (ending_str e) ls) = join_with [10] ls"
proof (induction "ending_str e" ls rule: join_with.induct)
  case (2 l)
  then show ?case using normalizeToLF_plain [of l "[]"] by (simp add: plain_def)
next
  case (3 l v va)
  then show ?case by (simp add: plain_def normalizeToLF_plain)
qed simp

lemma restore_plain: "10 \<notin> set l \<Longrightarrow> restoreLineEndings (l @ s) e = l @ restoreLineEndings s e"
  by (induction l) (auto simp: restoreLineEndings_def split: line_ending.splits)

lemma restore_join:
  "list_all plain ls \<Longrightarrow> restoreLineEndings (join_with [10] ls) e = join_with (ending_str e) ls"
proof (induction "ending_str e" ls rule: join_with.induct)
  case 1
  then show ?case by (simp add: restoreLineEndings_def split: line_ending.splits)
next
  case (2 l)
  have "restoreLineEndings [] e = []" by (simp add: restoreLineEndings_def split: line_ending.splits)
  with 2 show ?case using restore_plain [of l "[]" e] by (simp add: plain_def)
next
  case (3 l v va)
  have "restoreLineEndings (10 # s) e = ending_str e @ restoreLineEndings s e" for s
    by (simp add: restoreLineEndings_def ending_str_def split: line_ending.splits)
  with 3 show ?case by (simp add: plain_def restore_plain)
qed

lemma index_of_plain:
  "plain l \<Longrightarrow> pat = [10] \<or> pat = [13, 10] \<Longrightarrow>
   index_of pat (l @ s) = map_option ((+) (length l)) (index_of pat s)"
proof (induction l)
  case Nil
  then show ?case by (simp add: option.map_ident)
next
  case (Cons x l)
  then show ?case by (auto simp: plain_def option.map_comp o_def)
qed

lemma index_of_none: "plain l \<Longrightarrow> pat = [10] \<or> pat = [13, 10] \<Longrightarrow> index_of pat l = None"
  using index_of_plain [of l pat "[]"] by auto

lemma detect_join:
  assumes "list_all plain ls"
  shows "detectLineEnding (join_with (ending_str e) ls) = (if length ls \<le> 1 then LF else e)"
  using assms
proof (induction "ending_str e" ls rule: join_with.induct)
  case (3 l v va)
  then have l: "plain l" by simp
  show ?case
    using index_of_plain [OF l, of "[10]"] index_of_plain [OF l, of "[13, 10]"]
    by (cases e) (auto simp: detectLineEnding_def ending_str_def split: option.splits)
qed (simp_all add: detectLineEnding_def index_of_none)

lemma endings_restored:
  assumes "list_all plain ls"
  shows "restoreLineEndings (normalizeToLF (join_with (ending_str e) ls))
           (detectLineEnding (join_with (ending_str e) ls)) = join_with (ending_str e) ls"
proof (cases "length ls \<le> 1")
  case True
  then have "join_with [10] ls = join_with (ending_str e) ls" by (cases ls) auto
  with True assms show ?thesis by (simp add: normalize_join detect_join restoreLineEndings_def)
next
  case False
  with assms show ?thesis by (simp add: normalize_join detect_join restore_join)
qed

lemma plain_drop_bom:
  assumes "list_all plain ls" "prefix [b] (join_with (ending_str e) ls)" "b \<noteq> 10" "b \<noteq> 13"
  shows "\<exists>ls'. list_all plain ls' \<and> drop 1 (join_with (ending_str e) ls) = join_with (ending_str e) ls'"
proof -
  from assms obtain l ls2 where ls: "ls = l # ls2" by (cases ls) auto
  with assms obtain l' where "l = b # l'"
    by (cases l; cases ls2; cases e) (auto simp: ending_str_def)
  with ls assms have "list_all plain (l' # ls2)"
    "drop 1 (join_with (ending_str e) ls) = join_with (ending_str e) (l' # ls2)"
    by (auto simp: plain_def; cases ls2; simp)+
  then show ?thesis by blast
qed

text \<open>C37: a file whose lines all end the same way, with or without a byte order mark, survives
  normalisation: the mark and the line ending taken off before an edit, put back, give the same text.\<close>

theorem normalization_roundtrip:
  assumes "list_all plain ls" "c = join_with (ending_str e) ls"
  shows "bom (stripBom c) @
           restoreLineEndings (normalizeToLF (bom_text (stripBom c))) (detectLineEnding (bom_text (stripBom c))) = c"
proof (cases "prefix [65279] c")
  case True
  then obtain ls' where "list_all plain ls'" "drop 1 c = join_with (ending_str e) ls'"
    using plain_drop_bom assms by force
  moreover from True have "c = 65279 # drop 1 c" by (cases c) auto
  ultimately show ?thesis using True endings_restored [of ls' e] by (simp add: stripBom_def)
next
  case False
  with endings_restored [OF assms(1), of e] assms(2) show ?thesis by (simp add: stripBom_def)
qed

theorem normalization_roundtrip_witness:
  "let c = [65279] @ js ''a'' @ [13, 10] @ js ''b'' @ [13, 10]
   in bom (stripBom c) @
        restoreLineEndings (normalizeToLF (bom_text (stripBom c))) (detectLineEnding (bom_text (stripBom c))) = c"
proof -
  have "list_all plain [[65279] @ js ''a'', js ''b'', []]" by (simp add: plain_def js_eval)
  moreover have "[65279] @ js ''a'' @ [13, 10] @ js ''b'' @ [13, 10] =
      join_with (ending_str CRLF) [[65279] @ js ''a'', js ''b'', []]" by (simp add: ending_str_def)
  ultimately show ?thesis unfolding Let_def by (rule normalization_roundtrip)
qed

text \<open>On mixed line endings the first one decides, whatever the majority is.\<close>

theorem first_ending_decides:
  "detectLineEnding (js ''a'' @ [13, 10] @ js ''b'' @ [10] @ js ''c'' @ [10] @ js ''d'') = CRLF"
  by (simp add: detectLineEnding_def js_eval)

text \<open>The curly double and single quotes (U+201C, U+2018) are left as they are by the fuzzy normal form.\<close>

theorem fuzzy_keeps_curly_quotes:
  "normalizeForFuzzy [8220] = [8220] \<and> normalizeForFuzzy [8216] = [8216]
   \<and> normalizeForFuzzy [8222] = [34]"
  by (simp add: normalizeForFuzzy_def trim_def trimStart_def trimEnd_def is_ws_def fuzzy_char_def)

section \<open>Indentation adjustment changes white space only\<close>

lemma trim_leading: "list_all is_ws w \<Longrightarrow> trim (w @ l) = trim l"
  by (simp add: trim_def trimStart_def dropWhile_append list_all_iff)

lemma trim_trimStart [simp]: "trim (trimStart l) = trim l"
  by (simp add: trim_def trimStart_def dropWhile_idem)

lemma leading_ws: "list_all (\<lambda>c. c = 32 \<or> c = 9) (take (countLeadingWhitespace l) l)"
  by (induction l) auto

lemma trim_drop: "k \<le> countLeadingWhitespace l \<Longrightarrow> trim (drop k l) = trim l"
proof (induction l arbitrary: k)
  case (Cons x l)
  show ?case
  proof (cases k)
    case (Suc j)
    with Cons show ?thesis using trim_leading [of "[x]" l] by (auto simp: is_ws_def split: if_splits)
  qed simp
qed simp

lemma trim_convert_line [simp]: "trim (convert_line n l) = trim l"
  using trim_leading [of "padding (int (length (getLeadingWhitespace l) * n))" "trimStart l"]
  by (auto simp: convert_line_def Let_def padding_def list_all_iff is_ws_def)

lemma trim_delta_line [simp]: "is_ws c \<Longrightarrow> trim (delta_line d c l) = trim l"
  using trim_leading [of "replicate (nat d) c" l] by (auto simp: delta_line_def list_all_iff trim_drop)

lemma trim_lines_map:
  assumes "\<And>l. trim (f l) = trim l" "\<And>l. 10 \<notin> set l \<Longrightarrow> 10 \<notin> set (f l)"
  shows "map trim (split_on 10 (join_with [10] (map f (split_on 10 s)))) = map trim (split_on 10 s)"
proof -
  have "10 \<notin> set l" if "l \<in> set (map f (split_on 10 s))" for l
    using that assms(2) split_on_sep_free by auto
  then have "split_on 10 (join_with [10] (map f (split_on 10 s))) = map f (split_on 10 s)"
    by (intro split_join) auto
  then show ?thesis by (simp add: assms(1))
qed

lemma trim_lines_convert:
  "map trim (split_on 10 (convertLeadingTabsToSpaces s n)) = map trim (split_on 10 s)"
proof -
  have "10 \<notin> set (convert_line n l)" if "10 \<notin> set l" for l
    using that by (auto simp: convert_line_def Let_def padding_def trimStart_def dest: set_dropWhileD)
  then show ?thesis by (simp add: convertLeadingTabsToSpaces_def trim_lines_map)
qed

lemma trim_lines_delta:
  assumes "c = 32 \<or> c = 9"
  shows "map trim (split_on 10 (applyIndentDelta s d c)) = map trim (split_on 10 s)"
proof -
  have "10 \<notin> set (delta_line d c l)" if "10 \<notin> set l" for l
    using that assms by (auto simp: delta_line_def dest: in_set_dropD)
  moreover have "is_ws c" using assms by (auto simp: is_ws_def)
  ultimately show ?thesis unfolding applyIndentDelta_def by (intro trim_lines_map) auto
qed

lemma leading_char: "getLeadingWhitespace l = c # r \<Longrightarrow> c = 32 \<or> c = 9"
  using leading_ws [of l] by (simp add: getLeadingWhitespace_def)

lemma first_indent_char_blank: "first_indent_char ls = 32 \<or> first_indent_char ls = 9"
  by (induction ls) (auto split: list.splits dest: leading_char)

lemma profile_char_step:
  "(\<forall>c. ip_char p = Some c \<longrightarrow> c = 32 \<or> c = 9) \<Longrightarrow> ip_char (profile_step p l) = Some c \<Longrightarrow> c = 32 \<or> c = 9"
  by (cases "getLeadingWhitespace l") (auto simp: profile_step_def Let_def dest: leading_char split: if_splits)

lemma profile_char_fold:
  "(\<forall>c. ip_char p = Some c \<longrightarrow> c = 32 \<or> c = 9) \<Longrightarrow>
   \<forall>c. ip_char (foldl profile_step p ls) = Some c \<longrightarrow> c = 32 \<or> c = 9"
proof (induction ls arbitrary: p)
  case (Cons l ls)
  have "\<forall>c. ip_char (profile_step p l) = Some c \<longrightarrow> c = 32 \<or> c = 9"
    using profile_char_step [OF Cons.prems] by blast
  from Cons.IH [OF this] show ?case by simp
qed simp

lemma profile_char: "ip_char (buildIndentProfile s) = Some c \<Longrightarrow> c = 32 \<or> c = 9"
  using profile_char_fold [of "\<lparr>ip_lines = split_on 10 s, ip_counts = [], ip_char = None, ip_spaceOnly = True,
      ip_tabOnly = True, ip_mixed = False, ip_unit = 0, ip_nonEmptyCount = 0\<rparr>" "split_on 10 s"]
  by (simp add: buildIndentProfile_def Let_def)

text \<open>C36: adjusting indentation never touches content: whatever the matched text and the replaced text
  look like, the adjusted replacement has the same number of lines, and each line is the same up to
  surrounding white space.\<close>

theorem adjustIndentation_keeps_content:
  "map trim (split_on 10 (adjustIndentation oldText actualText newText)) = map trim (split_on 10 newText)"
proof -
  have "(case ip_char (buildIndentProfile a) of Some c \<Rightarrow> c
      | None \<Rightarrow> (case ip_char (buildIndentProfile b) of Some c \<Rightarrow> c | None \<Rightarrow> detectIndentChar a)) \<in> {32, 9}" for a b
    using profile_char first_indent_char_blank [of "split_on 10 a"]
    by (auto simp: detectIndentChar_def split: option.splits)
  then have d: "map trim (split_on 10 (applyIndentDelta newText d (case ip_char (buildIndentProfile a) of Some c \<Rightarrow> c
      | None \<Rightarrow> (case ip_char (buildIndentProfile b) of Some c \<Rightarrow> c | None \<Rightarrow> detectIndentChar a))))
      = map trim (split_on 10 newText)" for d a b
    by (intro trim_lines_delta) blast
  show ?thesis
    unfolding adjustIndentation_def Let_def maybeConvertTabIndentation_def
    by (simp add: trim_lines_convert d split: option.splits)
qed

section \<open>The indentation unit\<close>

lemma gcd_loop_gcd: "gcd_loop x y = gcd x y"
proof (induction x y rule: gcd_loop.induct)
  case (1 x y)
  then show ?case by (cases "y = 0") (simp_all add: gcd_loop.simps [of x 0] gcd_loop.simps [of x y] gcd_red_nat [of x y])
qed

lemma unit_step_gcd: "unit_step u c = gcd u c"
  by (simp add: unit_step_def js_gcd_def gcd_loop_gcd)

lemma unit_fold: "foldl unit_step u cs = gcd u (Gcd (set cs))"
  by (induction cs arbitrary: u) (simp_all add: unit_step_gcd gcd.assoc)

lemma profile_counts_tabs:
  "ip_tabOnly p \<or> 0 < ip_nonEmptyCount p \<Longrightarrow>
   ip_tabOnly (foldl profile_step p ls) \<or> 0 < ip_nonEmptyCount (foldl profile_step p ls)"
proof (induction ls arbitrary: p)
  case (Cons l ls)
  have "ip_tabOnly (profile_step p l) \<or> 0 < ip_nonEmptyCount (profile_step p l)"
    using Cons.prems by (auto simp: profile_step_def Let_def)
  from Cons.IH [OF this] show ?case by simp
qed simp

text \<open>The indentation unit of a text indented with spaces is the greatest common divisor of the
  indents of its non-empty lines, as computed by the loop over Euclid's algorithm.\<close>

theorem indent_unit_is_gcd:
  assumes "ip_spaceOnly (buildIndentProfile s)" "\<not> ip_tabOnly (buildIndentProfile s)"
  shows "ip_unit (buildIndentProfile s) = Gcd (set (ip_counts (buildIndentProfile s)))"
  using assms profile_counts_tabs [of "\<lparr>ip_lines = split_on 10 s, ip_counts = [], ip_char = None,
      ip_spaceOnly = True, ip_tabOnly = True, ip_mixed = False, ip_unit = 0, ip_nonEmptyCount = 0\<rparr>" "split_on 10 s"]
  by (simp add: buildIndentProfile_def Let_def unit_fold)

theorem indent_unit_is_gcd_witness:
  "ip_unit (buildIndentProfile (js ''a'' @ [10] @ js ''    b'' @ [10] @ js ''      c'')) = 2"
proof -
  let ?p = "buildIndentProfile (js ''a'' @ [10] @ js ''    b'' @ [10] @ js ''      c'')"
  have "ip_spaceOnly ?p" "\<not> ip_tabOnly ?p" "ip_counts ?p = [0, 4, 6]"
    by (simp_all add: buildIndentProfile_def Let_def profile_step_def isNonEmptyLine_def getLeadingWhitespace_def
        trim_def trimStart_def trimEnd_def is_ws_def js_eval)
  with indent_unit_is_gcd [of "js ''a'' @ [10] @ js ''    b'' @ [10] @ js ''      c''"]
  have "ip_unit ?p = Gcd {0, 4, 6}" by simp
  also have "\<dots> = 2" by (simp add: gcd_red_nat [of 4 6] gcd_red_nat [of 6 4])
  finally show ?thesis .
qed

end
