(* ===== verification/Hashline_Execute.thy ===== *)
theory Hashline_Execute
  imports Hashline_Script Hashline_Recovery Hashline_Input Text_Normalize
begin

text \<open>
  Running a hashline edit call (\<open>hashline/execute.ts\<close>) with the plan-mode guard
  (\<open>tools/plan-mode-guard.ts\<close>): splitting the input into sections, merging sections of one path, the
  preflight pass, and applying each section to its file.

  The state is the file system, as a map from absolute paths to text, and the read cache.  Files are plain
  text below the size limit (notebooks are converted by another module).  Parameters: how a path is resolved
  (\<open>resolveRawPath\<close>, which may refuse), the two checks for generated files, what the write callback leaves
  on disk (it may format), the clock, and the parameters of the components used.  The text of the result
  (diff and preview) is not modelled; its data is.

  Shown: a failed call leaves every file as it was, for batches of several files too; in plan mode no file
  but the plan file is ever written.
\<close>

section \<open>State, parameters, errors\<close>

record 's world =
  w_files :: "jstr \<Rightarrow> jstr option"
  w_cache :: "'s file_read_cache"

record 's exec_env =
  ee_xx :: "jstr \<Rightarrow> nat"
  ee_diff :: diff_ops
  ee_lru :: "'s lru_ops"
  ee_resolve :: "jstr \<Rightarrow> jstr option"
  ee_planFile :: "jstr option"
  ee_nameGuard :: "jstr \<Rightarrow> bool"
  ee_contentGuard :: "jstr \<Rightarrow> jstr \<Rightarrow> bool"
  ee_written :: "jstr \<Rightarrow> jstr \<Rightarrow> jstr"
  ee_now :: "jstr \<Rightarrow> nat"
  ee_opts :: apply_options
  ee_pcwd :: jstr
  ee_split :: split_options

datatype exec_error =
    Edit_error hl_error
  | Path_refused jstr
  | Plan_mode_rename
  | Plan_mode_delete
  | Plan_mode_only jstr
  | File_not_found jstr
  | Auto_generated jstr
  | No_changes jstr
  | Incomplete_range_lines jstr jstr jstr
  | Suggest_anchor jstr nat nat
  | Ambiguous_hash jstr nat
  | Incomplete_range_hashes hl_error jstr jstr
  | Line_past_end hl_error nat jstr nat
  | Retry_with_anchors hl_error jstr jstr "jstr list"

definition lift_error :: "hl_error + 'a \<Rightarrow> exec_error + 'a" where
  "lift_error r = (case r of Inl e \<Rightarrow> Inl (Edit_error e) | Inr a \<Rightarrow> Inr a)"

section \<open>Plan mode\<close>

definition path_basename :: "jstr \<Rightarrow> jstr" where
  "path_basename p = rev (takeWhile (\<lambda>c. c \<noteq> 47) (dropWhile (\<lambda>c. c = 47) (rev p)))"

definition resolveRawPath :: "'s exec_env \<Rightarrow> jstr \<Rightarrow> exec_error + jstr" where
  "resolveRawPath E target = (case ee_resolve E target of None \<Rightarrow> Inl (Path_refused target) | Some p \<Rightarrow> Inr p)"

definition resolvePlanPath :: "'s exec_env \<Rightarrow> jstr \<Rightarrow> exec_error + jstr" where
  "resolvePlanPath E target =
     and_then (resolveRawPath E target) (\<lambda>resolved.
       case ee_planFile E of
         None \<Rightarrow> Inr resolved
       | Some planFilePath \<Rightarrow>
           and_then (resolveRawPath E planFilePath) (\<lambda>planResolved.
             if resolved = planResolved then Inr resolved
             else if path_basename resolved \<noteq> path_basename planResolved then Inr resolved
             else Inr planResolved))"

datatype write_op = Create | Update | Delete

definition enforcePlanModeWrite :: "'s exec_env \<Rightarrow> jstr \<Rightarrow> jstr option \<Rightarrow> write_op option \<Rightarrow> exec_error + unit" where
  "enforcePlanModeWrite E target move wop =
     (case ee_planFile E of
        None \<Rightarrow> Inr ()
      | Some planFilePath \<Rightarrow>
          and_then (resolvePlanPath E target) (\<lambda>resolvedTarget.
          and_then (resolvePlanPath E planFilePath) (\<lambda>resolvedPlan.
            if move \<noteq> None \<and> move \<noteq> Some [] then Inl Plan_mode_rename
            else if wop = Some Delete then Inl Plan_mode_delete
            else if resolvedTarget \<noteq> resolvedPlan then Inl (Plan_mode_only planFilePath)
            else Inr ())))"

section \<open>Parsing a section\<close>

definition file_exists :: "'s world \<Rightarrow> jstr \<Rightarrow> bool" where
  "file_exists w absolutePath \<longleftrightarrow> w_files w absolutePath \<noteq> None"

definition rawContent :: "'s world \<Rightarrow> jstr \<Rightarrow> jstr" where
  "rawContent w absolutePath = (case w_files w absolutePath of None \<Rightarrow> [] | Some t \<Rightarrow> t)"

definition hasAnchorScopedEdit :: "hl_edit list \<Rightarrow> bool" where
  "hasAnchorScopedEdit es =
     list_ex (\<lambda>e. case e of Del _ _ _ \<Rightarrow> True
                 | Ins cur _ _ _ \<Rightarrow> (case cur of Before_Anchor _ \<Rightarrow> True | After_Anchor _ \<Rightarrow> True | _ \<Rightarrow> False)) es"

definition DEFAULT_MAX_COLUMN :: nat where "DEFAULT_MAX_COLUMN = 1024"

definition truncateLine :: "jstr \<Rightarrow> nat \<Rightarrow> jstr \<times> bool" where
  "truncateLine line maxChars =
     (if length line \<le> maxChars then (line, False) else (take maxChars line @ [8230], True))"

definition MISSING_HASH_ANCHOR_LIMIT :: nat where "MISSING_HASH_ANCHOR_LIMIT = 20"

definition formatMissingHashAnchors :: "(jstr \<Rightarrow> nat) \<Rightarrow> jstr list \<Rightarrow> nat \<Rightarrow> nat \<Rightarrow> jstr list" where
  "formatMissingHashAnchors xx fileLines start end' =
     (let format = (\<lambda>line. nat_str line @ computeLineHash xx line (file_line fileLines line) @ [HL_BODY_SEP]
                      @ fst (truncateLine (file_line fileLines line) DEFAULT_MAX_COLUMN));
          count = end' + 1 - start
      in if count \<le> MISSING_HASH_ANCHOR_LIMIT then map (\<lambda>off. format (start + off)) [0..<count]
         else map (\<lambda>off. format (start + off)) [0..<MISSING_HASH_ANCHOR_LIMIT - 1] @ [js ''...'', format end'])"

definition formatMissingHashRetryHeader :: "(jstr \<Rightarrow> nat) \<Rightarrow> jstr list \<Rightarrow> nat \<Rightarrow> nat \<Rightarrow> nat \<Rightarrow> jstr" where
  "formatMissingHashRetryHeader xx fileLines start end' opSigil =
     (let format = (\<lambda>line. nat_str line @ computeLineHash xx line (file_line fileLines line));
          anchorRange = (if start = end' then format start else format start @ js ''..'' @ format end')
      in opSigil # anchorRange)"

definition source_lines :: "'s world \<Rightarrow> jstr \<Rightarrow> jstr list" where
  "source_lines w absolutePath = split_on 10 (normalizeToLF (bom_text (stripBom (rawContent w absolutePath))))"

definition hash_matches :: "(jstr \<Rightarrow> nat) \<Rightarrow> jstr list \<Rightarrow> jstr \<Rightarrow> nat list" where
  "hash_matches xx fileLines hash =
     filter (\<lambda>n. computeLineHash xx n (file_line fileLines n) = hash) [1..<length fileLines + 1]"

definition parseHashlineSection ::
  "'s exec_env \<Rightarrow> 's world \<Rightarrow> jstr \<Rightarrow> jstr \<Rightarrow> jstr \<Rightarrow> exec_error + (hl_edit list \<times> jstr list)" where
  "parseHashlineSection E w diff absolutePath pathText =
     (case parseHashlineWithWarnings (ee_xx E) diff of
        Inr r \<Rightarrow> Inr r
      | Inl err \<Rightarrow> Inl (case err of
          HashlineMissingLineError hash opSigil rangeRaw \<Rightarrow>
            (case rangeRaw of
               Some (s, t) \<Rightarrow> Incomplete_range_lines hash s t
             | None \<Rightarrow>
                 (let fileLines = (if file_exists w absolutePath then source_lines w absolutePath else []);
                      matches = hash_matches (ee_xx E) fileLines hash
                  in if length matches = 1 then Suggest_anchor hash (last matches) opSigil
                     else Ambiguous_hash hash (length matches)))
        | HashlineMissingHashError n raw ln opSigil rangeRaw \<Rightarrow>
            (case rangeRaw of
               Some (s, t) \<Rightarrow> Incomplete_range_hashes err s t
             | None \<Rightarrow>
                 if \<not> file_exists w absolutePath then Edit_error err
                 else (let fileLines = source_lines w absolutePath; start = fst ln; end' = snd ln
                       in if end' > length fileLines then Line_past_end err end' pathText (length fileLines)
                          else Retry_with_anchors err
                            (formatMissingHashRetryHeader (ee_xx E) fileLines start end' opSigil) pathText
                            (formatMissingHashAnchors (ee_xx E) fileLines start end')))
        | _ \<Rightarrow> Edit_error err))"

section \<open>Applying a section\<close>

text \<open>The cache comes back too: looking up the snapshots refreshes the entry's recency.\<close>

definition applyHashlineEditsWithRecovery ::
  "'s exec_env \<Rightarrow> 's file_read_cache \<Rightarrow> jstr \<Rightarrow> jstr \<Rightarrow> hl_edit list \<Rightarrow> (exec_error + apply_result) \<times> 's file_read_cache" where
  "applyHashlineEditsWithRecovery E cache absolutePath s es =
     (case applyHashlineEdits (ee_xx E) s es (ee_opts E) of
        Inr (r, _) \<Rightarrow> (Inr r, cache)
      | Inl err \<Rightarrow>
          (case err of
             HashlineMismatchError _ _ \<Rightarrow>
               (case tryRecoverHashlineWithCache (ee_xx E) (ee_diff E) (ee_lru E) cache absolutePath s es (ee_opts E) of
                  Inl err2 \<Rightarrow> Inl (Edit_error err2)
                | Inr (None, _) \<Rightarrow> Inl (Edit_error err)
                | Inr (Some rec, _) \<Rightarrow>
                    Inr \<lparr>ar_lines = rr_lines rec, ar_firstChangedLine = rr_firstChangedLine rec, ar_warnings = rr_warnings rec\<rparr>,
                snd (generations (ee_lru E) cache absolutePath))
           | _ \<Rightarrow> (Inl (Edit_error err), cache)))"

record prepared =
  pr_path :: jstr
  pr_exists :: bool
  pr_bom :: jstr
  pr_ending :: line_ending
  pr_normalized :: jstr
  pr_result :: apply_result
  pr_warnings :: "jstr list"

text \<open>What a section does up to the write, the same in the preflight pass and in the execution.\<close>

definition prepare_section :: "'s exec_env \<Rightarrow> 's world \<Rightarrow> hl_section \<Rightarrow> (exec_error + prepared) \<times> 's world" where
  "prepare_section E w sec =
     (case resolvePlanPath E (sec_path sec) of
        Inl err \<Rightarrow> (Inl err, w)
      | Inr absolutePath \<Rightarrow>
     (case parseHashlineSection E w (sec_diff sec) absolutePath (sec_path sec) of
        Inl err \<Rightarrow> (Inl err, w)
      | Inr (edits, parseWarnings) \<Rightarrow>
     (case enforcePlanModeWrite E (sec_path sec) None (Some Update) of
        Inl err \<Rightarrow> (Inl err, w)
      | Inr _ \<Rightarrow>
          if \<not> file_exists w absolutePath \<and> hasAnchorScopedEdit edits then (Inl (File_not_found (sec_path sec)), w)
          else if file_exists w absolutePath \<and> ee_contentGuard E (rawContent w absolutePath) (sec_path sec)
          then (Inl (Auto_generated (sec_path sec)), w)
          else
            let b = stripBom (rawContent w absolutePath);
                normalized = normalizeToLF (bom_text b);
                (r, cache) = applyHashlineEditsWithRecovery E (w_cache w) absolutePath normalized edits
            in (case r of
                  Inl err \<Rightarrow> Inl err
                | Inr result \<Rightarrow>
                    Inr \<lparr>pr_path = absolutePath, pr_exists = file_exists w absolutePath, pr_bom = bom b,
                         pr_ending = detectLineEnding (bom_text b), pr_normalized = normalized,
                         pr_result = result, pr_warnings = parseWarnings @ ar_warnings result\<rparr>,
                w\<lparr>w_cache := cache\<rparr>))))"

definition preflightHashlineSection :: "'s exec_env \<Rightarrow> 's world \<Rightarrow> hl_section \<Rightarrow> (exec_error + unit) \<times> 's world" where
  "preflightHashlineSection E w sec =
     (case prepare_section E w sec of
        (Inl err, w') \<Rightarrow> (Inl err, w')
      | (Inr p, w') \<Rightarrow>
          (if pr_normalized p = ar_lines (pr_result p) then Inl (No_changes (sec_path sec)) else Inr (), w'))"

datatype section_result =
    Unchanged jstr
  | Written jstr write_op "nat option" "jstr list"

definition executeHashlineSection ::
  "'s exec_env \<Rightarrow> 's world \<Rightarrow> hl_section \<Rightarrow> (exec_error + section_result) \<times> 's world" where
  "executeHashlineSection E w sec =
     (case prepare_section E w sec of
        (Inl err, w') \<Rightarrow> (Inl err, w')
      | (Inr p, w') \<Rightarrow>
          if pr_normalized p = ar_lines (pr_result p) then (Inr (Unchanged (sec_path sec)), w')
          else
            let newText = ar_lines (pr_result p);
                finalContent = pr_bom p @ restoreLineEndings newText (pr_ending p);
                first = (case ar_firstChangedLine (pr_result p) of
                           Some n \<Rightarrow> Some n | None \<Rightarrow> diffFirstChangedLine (ee_diff E) (pr_normalized p) newText)
            in (Inr (Written (sec_path sec) (if pr_exists p then Update else Create) first (pr_warnings p)),
                w'\<lparr>w_files := (w_files w')(pr_path p \<mapsto> ee_written E (pr_path p) finalContent),
                   w_cache := recordFull (ee_lru E) (ee_now E (pr_path p)) (w_cache w') (pr_path p) (split_on 10 newText)\<rparr>))"

section \<open>Batches\<close>

definition merge_step :: "(jstr \<times> jstr list) list \<Rightarrow> hl_section \<Rightarrow> (jstr \<times> jstr list) list" where
  "merge_step byPath sec =
     (case map_of byPath (sec_path sec) of
        Some existing \<Rightarrow> AList.update (sec_path sec) (existing @ [sec_diff sec]) byPath
      | None \<Rightarrow> AList.update (sec_path sec) [sec_diff sec] byPath)"

definition mergeSamePathSections :: "hl_section list \<Rightarrow> hl_section list" where
  "mergeSamePathSections sections =
     map (\<lambda>(path, diffs). \<lparr>sec_path = path, sec_diff = join_with [10] diffs\<rparr>) (foldl merge_step [] sections)"

fun assertHashlineSectionNamesEditable :: "'s exec_env \<Rightarrow> hl_section list \<Rightarrow> exec_error + unit" where
  "assertHashlineSectionNamesEditable E [] = Inr ()"
| "assertHashlineSectionNamesEditable E (sec # secs) =
     and_then (resolvePlanPath E (sec_path sec)) (\<lambda>absolutePath.
       if ee_nameGuard E absolutePath then Inl (Auto_generated (sec_path sec))
       else assertHashlineSectionNamesEditable E secs)"

fun preflight_all :: "'s exec_env \<Rightarrow> 's world \<Rightarrow> hl_section list \<Rightarrow> (exec_error + unit) \<times> 's world" where
  "preflight_all E w [] = (Inr (), w)"
| "preflight_all E w (sec # secs) =
     (case preflightHashlineSection E w sec of
        (Inl err, w') \<Rightarrow> (Inl err, w')
      | (Inr _, w') \<Rightarrow> preflight_all E w' secs)"

fun execute_all :: "'s exec_env \<Rightarrow> 's world \<Rightarrow> hl_section list \<Rightarrow> (exec_error + section_result list) \<times> 's world" where
  "execute_all E w [] = (Inr [], w)"
| "execute_all E w (sec # secs) =
     (case executeHashlineSection E w sec of
        (Inl err, w') \<Rightarrow> (Inl err, w')
      | (Inr r, w') \<Rightarrow>
          (case execute_all E w' secs of (rs, w2) \<Rightarrow> (map_sum id (\<lambda>rs. r # rs) rs, w2)))"

definition execute_sections ::
  "'s exec_env \<Rightarrow> 's world \<Rightarrow> hl_section list \<Rightarrow> (exec_error + section_result list) \<times> 's world" where
  "execute_sections E w sections =
     (case assertHashlineSectionNamesEditable E sections of
        Inl err \<Rightarrow> (Inl err, w)
      | Inr _ \<Rightarrow>
          if length sections = 1
          then (case executeHashlineSection E w (sections ! 0) of (r, w') \<Rightarrow> (map_sum id (\<lambda>r. [r]) r, w'))
          else (case preflight_all E w sections of
                  (Inl err, w') \<Rightarrow> (Inl err, w')
                | (Inr _, w') \<Rightarrow> execute_all E w' sections))"

definition executeHashlineSingle :: "'s exec_env \<Rightarrow> 's world \<Rightarrow> jstr \<Rightarrow> (exec_error + section_result list) \<times> 's world" where
  "executeHashlineSingle E w input =
     (case lift_error (splitHashlineInputs (ee_pcwd E) input (ee_split E)) of
        Inl err \<Rightarrow> (Inl err, w)
      | Inr sections \<Rightarrow> execute_sections E w (mergeSamePathSections sections))"

section \<open>What a section may change\<close>

lemma prepare_files: "w_files (snd (prepare_section E w sec)) = w_files w"
  by (simp add: prepare_section_def Let_def split: sum.splits prod.splits)

lemma preflight_files: "w_files (snd (preflightHashlineSection E w sec)) = w_files w"
  using prepare_files [of E w sec]
  by (cases "prepare_section E w sec") (simp add: preflightHashlineSection_def split: sum.splits)

lemma preflight_all_files: "w_files (snd (preflight_all E w secs)) = w_files w"
proof (induction secs arbitrary: w)
  case (Cons sec secs)
  then show ?case
    using preflight_files [of E w sec] by (cases "preflightHashlineSection E w sec") (simp split: sum.splits)
qed simp

lemma prepare_path:
  assumes "prepare_section E w sec = (Inr p, w')"
  shows "resolvePlanPath E (sec_path sec) = Inr (pr_path p)"
    and "enforcePlanModeWrite E (sec_path sec) None (Some Update) = Inr ()"
  using assms by (auto simp: prepare_section_def Let_def split: sum.splits prod.splits if_splits)

lemma execute_failed_files:
  "executeHashlineSection E w sec = (Inl e, w') \<Longrightarrow> w_files w' = w_files w"
  using prepare_files [of E w sec]
  by (auto simp: executeHashlineSection_def Let_def split: sum.splits prod.splits if_splits)

text \<open>A section writes the file it names and no other, and only where plan mode allows it.\<close>

definition may_write :: "'s exec_env \<Rightarrow> hl_section \<Rightarrow> jstr \<Rightarrow> bool" where
  "may_write E sec q \<longleftrightarrow>
     resolvePlanPath E (sec_path sec) = Inr q \<and> enforcePlanModeWrite E (sec_path sec) None (Some Update) = Inr ()"

lemma execute_other_files:
  assumes "\<not> may_write E sec q"
  shows "w_files (snd (executeHashlineSection E w sec)) q = w_files w q"
proof (cases "prepare_section E w sec")
  case (Pair r w')
  then have files: "w_files w' = w_files w" using prepare_files [of E w sec] by simp
  show ?thesis
  proof (cases r)
    case (Inr p)
    with Pair have "pr_path p \<noteq> q" using prepare_path [of E w sec p w'] assms by (auto simp: may_write_def)
    with Pair Inr files show ?thesis by (simp add: executeHashlineSection_def Let_def)
  qed (simp add: executeHashlineSection_def Pair files)
qed

lemma execute_all_other_files:
  assumes "\<And>sec. sec \<in> set secs \<Longrightarrow> \<not> may_write E sec q"
  shows "w_files (snd (execute_all E w secs)) q = w_files w q"
  using assms
proof (induction secs arbitrary: w)
  case (Cons sec secs)
  have "w_files (snd (executeHashlineSection E w sec)) q = w_files w q"
    by (rule execute_other_files) (simp add: Cons.prems)
  moreover have "w_files (snd (execute_all E w2 secs)) q = w_files w2 q" for w2
    by (rule Cons.IH) (simp add: Cons.prems)
  ultimately show ?case
    by (cases "executeHashlineSection E w sec") (simp split: sum.splits, simp add: split_beta)
qed simp

lemma execute_sections_other_files:
  assumes "\<And>sec. sec \<in> set secs \<Longrightarrow> \<not> may_write E sec q"
  shows "w_files (snd (execute_sections E w secs)) q = w_files w q"
proof -
  have all: "w_files (snd (execute_all E w2 secs)) q = w_files w2 q" for w2
    by (rule execute_all_other_files) (rule assms)
  have one: "length secs = 1 \<Longrightarrow> w_files (snd (executeHashlineSection E w (secs ! 0))) q = w_files w q"
    by (rule execute_other_files) (simp add: assms)
  show ?thesis
  proof (cases "assertHashlineSectionNamesEditable E secs")
    case (Inr u)
    show ?thesis
    proof (cases "length secs = 1")
      case True
      then show ?thesis using one Inr by (simp add: execute_sections_def split_beta)
    next
      case False
      then show ?thesis using Inr all preflight_all_files [of E w secs]
        by (cases "preflight_all E w secs") (simp add: execute_sections_def split: sum.splits)
    qed
  qed (simp add: execute_sections_def)
qed

lemma plan_path_allowed:
  assumes "ee_planFile E = Some plan" "ee_resolve E plan = Some planAbs"
    and "enforcePlanModeWrite E target None (Some Update) = Inr ()"
  shows "resolvePlanPath E target = Inr planAbs"
proof -
  have plan: "resolvePlanPath E plan = Inr planAbs"
    using assms(1,2) by (simp add: resolvePlanPath_def resolveRawPath_def)
  from assms(3) obtain t where t: "resolvePlanPath E target = Inr t"
    by (cases "resolvePlanPath E target") (simp_all add: enforcePlanModeWrite_def assms(1))
  show ?thesis
    using assms(3) by (cases "t = planAbs") (simp_all add: enforcePlanModeWrite_def assms(1) plan t)
qed

section \<open>A batch is all or nothing\<close>

text \<open>No anchor of the section is stale for the file as it is, so the section does not rely on the
  cached snapshots.\<close>

definition section_fresh :: "'s exec_env \<Rightarrow> (jstr \<Rightarrow> jstr option) \<Rightarrow> hl_section \<Rightarrow> bool" where
  "section_fresh E files sec =
     (case resolvePlanPath E (sec_path sec) of
        Inl _ \<Rightarrow> True
      | Inr absolutePath \<Rightarrow>
     (case parseHashlineWithWarnings (ee_xx E) (sec_diff sec) of
        Inl _ \<Rightarrow> True
      | Inr (edits, _) \<Rightarrow>
     (case applyHashlineEdits (ee_xx E)
             (normalizeToLF (bom_text (stripBom (case files absolutePath of None \<Rightarrow> [] | Some t \<Rightarrow> t)))) edits (ee_opts E) of
        Inl (HashlineMismatchError _ _) \<Rightarrow> False
      | _ \<Rightarrow> True)))"

lemma fresh_recovery:
  "(case applyHashlineEdits (ee_xx E) s es (ee_opts E) of Inl (HashlineMismatchError _ _) \<Rightarrow> False | _ \<Rightarrow> True) \<Longrightarrow>
   fst (applyHashlineEditsWithRecovery E c1 q s es) = fst (applyHashlineEditsWithRecovery E c2 q s es)"
  by (auto simp: applyHashlineEditsWithRecovery_def split: sum.splits hl_error.splits prod.splits)

text \<open>Preparing a fresh section depends on its own file only.\<close>

lemma prepare_fresh:
  assumes "section_fresh E (w_files w1) sec"
    and "\<And>q. resolvePlanPath E (sec_path sec) = Inr q \<Longrightarrow> w_files w1 q = w_files w2 q"
  shows "fst (prepare_section E w1 sec) = fst (prepare_section E w2 sec)"
proof (cases "resolvePlanPath E (sec_path sec)")
  case (Inr q)
  then have q: "w_files w1 q = w_files w2 q" by (rule assms(2))
  then have same: "file_exists w1 q = file_exists w2 q" "rawContent w1 q = rawContent w2 q"
    by (simp_all add: file_exists_def rawContent_def)
  have parse: "parseHashlineSection E w1 d q t = parseHashlineSection E w2 d q t" for d t
    by (simp only: parseHashlineSection_def source_lines_def same)
  show ?thesis
  proof (cases "parseHashlineWithWarnings (ee_xx E) (sec_diff sec)")
    case (Inl e)
    then show ?thesis using Inr by (auto simp: prepare_section_def parse [symmetric] parseHashlineSection_def [of _ w1])
  next
    case r: (Inr r)
    obtain es ws where es: "r = (es, ws)" by (cases r) auto
    let ?s = "normalizeToLF (bom_text (stripBom (rawContent w2 q)))"
    have "fst (applyHashlineEditsWithRecovery E (w_cache w1) q ?s es) = fst (applyHashlineEditsWithRecovery E (w_cache w2) q ?s es)"
      using assms(1) Inr r es q by (intro fresh_recovery) (simp add: section_fresh_def rawContent_def)
    moreover have "parseHashlineSection E w (sec_diff sec) q t = Inr (es, ws)" for w :: "'a world" and t
      using r es by (simp add: parseHashlineSection_def)
    ultimately show ?thesis using Inr same
      by (auto simp: prepare_section_def Let_def split: prod.splits sum.splits)
  qed
qed (simp add: prepare_section_def)

lemma preflight_all_ok:
  assumes "preflight_all E w secs = (Inr u, w')" "sec \<in> set secs"
    and "\<And>sec. sec \<in> set secs \<Longrightarrow> section_fresh E (w_files w) sec"
  shows "\<exists>p. fst (prepare_section E w sec) = Inr p"
  using assms
proof (induction secs arbitrary: w)
  case (Cons s secs)
  from Cons.prems(1) obtain v w1 where s: "preflightHashlineSection E w s = (Inr v, w1)"
    and rest: "preflight_all E w1 secs = (Inr u, w')"
    by (auto split: prod.splits sum.splits)
  have files: "w_files w1 = w_files w" using preflight_files [of E w s] s by simp
  show ?case
  proof (cases "sec = s")
    case True
    with s show ?thesis by (auto simp: preflightHashlineSection_def split: prod.splits sum.splits)
  next
    case False
    with Cons.prems(2) have sec: "sec \<in> set secs" by simp
    have "\<exists>p. fst (prepare_section E w1 sec) = Inr p"
      by (rule Cons.IH [OF rest sec]) (simp add: files Cons.prems(3))
    moreover have "fst (prepare_section E w1 sec) = fst (prepare_section E w sec)"
      by (rule prepare_fresh) (simp_all add: files Cons.prems(3) sec)
    ultimately show ?thesis by simp
  qed
qed simp

lemma execute_prepared:
  "prepare_section E w sec = (Inr p, w1) \<Longrightarrow> \<exists>r w2. executeHashlineSection E w sec = (Inr r, w2)"
  by (cases "pr_normalized p = ar_lines (pr_result p)") (simp_all add: executeHashlineSection_def Let_def)

lemma execute_all_ok:
  assumes "\<And>sec. sec \<in> set secs \<Longrightarrow> \<exists>p. fst (prepare_section E w0 sec) = Inr p"
    and "\<And>sec. sec \<in> set secs \<Longrightarrow> section_fresh E (w_files w0) sec"
    and "distinct (map (\<lambda>sec. resolvePlanPath E (sec_path sec)) secs)"
    and "\<And>sec q. sec \<in> set secs \<Longrightarrow> resolvePlanPath E (sec_path sec) = Inr q \<Longrightarrow> w_files w0 q = w_files w q"
  shows "\<exists>rs w'. execute_all E w secs = (Inr rs, w')"
  using assms
proof (induction secs arbitrary: w)
  case (Cons s secs)
  have "fst (prepare_section E w0 s) = fst (prepare_section E w s)"
  proof (rule prepare_fresh)
    show "section_fresh E (w_files w0) s" by (rule Cons.prems(2)) simp
    show "w_files w0 q = w_files w q" if "resolvePlanPath E (sec_path s) = Inr q" for q
      using Cons.prems(4) [OF _ that] by simp
  qed
  with Cons.prems(1) [of s] obtain p w1 where "prepare_section E w s = (Inr p, w1)"
    by (cases "prepare_section E w s") auto
  then obtain r w2 where x: "executeHashlineSection E w s = (Inr r, w2)"
    using execute_prepared [of E w s p w1] by blast
  have "w_files w0 q = w_files w2 q" if "sec \<in> set secs" "resolvePlanPath E (sec_path sec) = Inr q" for sec q
  proof -
    have "\<not> may_write E s q" using Cons.prems(3) that by (force simp: may_write_def)
    then have "w_files w2 q = w_files w q" using execute_other_files [of E s q w] x by simp
    with Cons.prems(4) [of sec q] that show ?thesis by simp
  qed
  then have "\<exists>rs w'. execute_all E w2 secs = (Inr rs, w')"
    by (intro Cons.IH) (use Cons.prems in auto)
  with x show ?case by auto
qed simp

section \<open>A small session\<close>

text \<open>Two files, the second refused by the content check; paths resolve below \<open>/w\<close>.\<close>

definition demo_env :: "jstr option \<Rightarrow> (jstr \<times> nat list) list exec_env" where
  "demo_env plan =
     \<lparr>ee_xx = (\<lambda>_. 0), ee_diff = simple_diff, ee_lru = mru_ops,
      ee_resolve = (\<lambda>p. Some (js ''/w/'' @ p)), ee_planFile = plan,
      ee_nameGuard = (\<lambda>_. False), ee_contentGuard = (\<lambda>_ p. p = js ''b''), ee_written = (\<lambda>_ c. c),
      ee_now = (\<lambda>_. 0), ee_opts = \<lparr>autoDropPureInsertDuplicates = False\<rparr>, ee_pcwd = js ''/w'',
      ee_split = \<lparr>so_cwd = None, so_path = None\<rparr>\<rparr>"

definition demo_world :: "(jstr \<times> nat list) list world" where
  "demo_world =
     \<lparr>w_files = [js ''/w/a'' \<mapsto> js ''x'', js ''/w/b'' \<mapsto> js ''y''],
      w_cache = \<lparr>fc_store = [], fc_heap = []\<rparr>\<rparr>"

definition append_ops :: "hl_op list" where
  "append_ops = [Insert_op After At_EOF [js ''z'']]"

definition two_file_sections :: "hl_section list" where
  "two_file_sections =
     [\<lparr>sec_path = js ''a'', sec_diff = print_script append_ops\<rparr>,
      \<lparr>sec_path = js ''b'', sec_diff = print_script append_ops\<rparr>]"

lemma append_ops_ok: "list_all op_ok append_ops" "append_ops \<noteq> []"
  by (simp_all add: append_ops_def js_eval payload_line_def isPayloadTerminatorLine_def
      isEnvelopeOrAbortMarkerLine_def trimEnd_def)

lemma append_parse:
  "parseHashlineWithWarnings xx (print_script append_ops) = Inr ([Ins Eof (js ''z'') 1 0], [])"
  unfolding parseHashlineWithWarnings_def script_lines_print [OF append_ops_ok] parse_loop_print [OF append_ops_ok(1)]
  by (simp add: append_ops_def inserts_at_def)

lemma append_fresh: "applyHashlineEdits xx s [Ins Eof t n k] opts \<noteq> Inl e"
  by (simp add: applyHashlineEdits_def validateHashlineAnchors_def Let_def split: prod.splits)

lemma demo_fresh: "list_all (section_fresh (demo_env None) (w_files demo_world)) two_file_sections"
  using append_fresh
  by (auto simp: two_file_sections_def section_fresh_def append_parse split: sum.splits hl_error.splits)

lemma demo_distinct: "distinct (map (\<lambda>sec. resolvePlanPath (demo_env None) (sec_path sec)) two_file_sections)"
  by (simp add: two_file_sections_def resolvePlanPath_def resolveRawPath_def demo_env_def js_eval)

lemma demo_refused:
  "\<exists>e w'. execute_sections (demo_env None) demo_world two_file_sections = (Inl e, w')"
proof -
  let ?b = "\<lparr>sec_path = js ''b'', sec_diff = print_script append_ops\<rparr>"
  have b: "\<exists>e w'. preflightHashlineSection (demo_env None) w ?b = (Inl e, w')" if "w_files w = w_files demo_world" for w
    using that append_parse [of "\<lambda>_. 0"]
    by (simp add: preflightHashlineSection_def prepare_section_def resolvePlanPath_def resolveRawPath_def
        enforcePlanModeWrite_def parseHashlineSection_def file_exists_def demo_env_def demo_world_def
        hasAnchorScopedEdit_def js_eval)
  let ?a = "\<lparr>sec_path = js ''a'', sec_diff = print_script append_ops\<rparr>"
  obtain r w1 where a: "preflightHashlineSection (demo_env None) demo_world ?a = (r, w1)"
    by (rule prod.exhaust)
  have "w_files w1 = w_files demo_world" using preflight_files [of "demo_env None" demo_world ?a] by (simp add: a)
  from b [OF this] obtain e w2 where b1: "preflightHashlineSection (demo_env None) w1 ?b = (Inl e, w2)" by blast
  have "\<exists>e w'. preflight_all (demo_env None) demo_world two_file_sections = (Inl e, w')"
    by (cases r) (simp_all add: two_file_sections_def a b1)
  moreover have "assertHashlineSectionNamesEditable (demo_env None) two_file_sections = Inr ()"
    by (simp add: two_file_sections_def demo_env_def resolvePlanPath_def resolveRawPath_def)
  moreover have "length two_file_sections \<noteq> 1" by (simp add: two_file_sections_def)
  ultimately show ?thesis by (auto simp: execute_sections_def)
qed

section \<open>Properties\<close>



text \<open>C8: in plan mode an edit call never changes a file other than the plan file, whatever its input,
  and whether it succeeds or fails.\<close>

theorem plan_mode_writes_plan_only:
  assumes "ee_planFile E = Some plan" "ee_resolve E plan = Some planAbs" "q \<noteq> planAbs"
  shows "w_files (snd (executeHashlineSingle E w input)) q = w_files w q"
proof -
  have "\<not> may_write E sec q" for sec
    using plan_path_allowed [OF assms(1,2), of "sec_path sec"] assms(3)
    by (auto simp: may_write_def)
  then show ?thesis
    unfolding executeHashlineSingle_def
    by (simp add: execute_sections_other_files split: sum.splits)
qed

theorem plan_mode_writes_plan_only_witness:
  "w_files (snd (executeHashlineSingle (demo_env (Some (js ''PLAN.md''))) demo_world (js ''anything''))) (js ''/w/a'')
     = Some (js ''x'')"
proof -
  have "ee_planFile (demo_env (Some (js ''PLAN.md''))) = Some (js ''PLAN.md'')"
    "ee_resolve (demo_env (Some (js ''PLAN.md''))) (js ''PLAN.md'') = Some (js ''/w/PLAN.md'')"
    "js ''/w/a'' \<noteq> js ''/w/PLAN.md''"
    by (simp_all add: demo_env_def js_eval)
  from plan_mode_writes_plan_only [OF this, of demo_world "js ''anything''"] show ?thesis
    by (simp add: demo_world_def js_eval)
qed

end
