(* ===== verification/Append_Only_Context.thy ===== *)
theory Append_Only_Context
  imports Js_Prelude "HOL-Library.Word" "HOL-Library.Sublist"
begin

text \<open>
  The append-only context of the agent (\<open>agent/src/append-only-context.ts\<close>): the frozen prefix of system
  prompt and tools, the message log, and the manager that keeps the log in step with the provider-level
  history.  Messages are JavaScript values; \<open>JSON.stringify\<close> is modelled with its escapes.  A value has no
  \<open>toJSON\<close> method and no accessors; a number is its printed form.  Parameters: \<open>Bun.hash\<close> and
  \<open>normalizeTools\<close>, whose schema conversion is a library's.

  Shown: the copy that enters the log prints the same bytes as the original, except under the key
  \<open>__proto__\<close>; growing histories only append to the log; after a synchronisation the log is the history,
  byte for byte, when the hash does not confuse the messages at hand; and two different system prompts can
  have the same fingerprint, so that the stale one is kept.
\<close>

section \<open>Values and \<open>JSON.stringify\<close>\<close>

datatype jval =
    Undefined
  | Func
  | JNull
  | JBool bool
  | JNum bool jstr     \<comment> \<open>finite or not, and the printed form\<close>
  | JStr jstr
  | JArr "jval list"
  | JObj "(jstr \<times> jval) list"

definition hex_digit :: "nat \<Rightarrow> nat" where
  "hex_digit n = (if n < 10 then 48 + n else 87 + n)"

definition unicode_escape :: "nat \<Rightarrow> jstr" where
  "unicode_escape c = [92, 117,
     hex_digit (c div 4096 mod 16), hex_digit (c div 256 mod 16), hex_digit (c div 16 mod 16), hex_digit (c mod 16)]"

definition escape_unit :: "nat \<Rightarrow> jstr" where
  "escape_unit c =
     (if c = 34 then [92, 34] else if c = 92 then [92, 92] else if c = 8 then [92, 98]
      else if c = 9 then [92, 116] else if c = 10 then [92, 110] else if c = 12 then [92, 102]
      else if c = 13 then [92, 114] else if c < 32 then unicode_escape c else [c])"

definition high_surrogate :: "nat \<Rightarrow> bool" where "high_surrogate c \<longleftrightarrow> 55296 \<le> c \<and> c \<le> 56319"
definition low_surrogate :: "nat \<Rightarrow> bool" where "low_surrogate c \<longleftrightarrow> 56320 \<le> c \<and> c \<le> 57343"

text \<open>Unpaired surrogates are escaped, pairs are printed.\<close>

fun escape_units :: "jstr \<Rightarrow> jstr" where
  "escape_units [] = []"
| "escape_units [c] = (if high_surrogate c \<or> low_surrogate c then unicode_escape c else escape_unit c)"
| "escape_units (c # d # cs) =
     (if high_surrogate c \<and> low_surrogate d then [c, d] @ escape_units cs
      else (if high_surrogate c \<or> low_surrogate c then unicode_escape c else escape_unit c) @ escape_units (d # cs))"

definition quote_str :: "jstr \<Rightarrow> jstr" where
  "quote_str s = [34] @ escape_units s @ [34]"

fun stringify :: "jval \<Rightarrow> jstr option"
  and stringify_items :: "jval list \<Rightarrow> jstr list"
  and stringify_fields :: "(jstr \<times> jval) list \<Rightarrow> jstr list" where
  "stringify Undefined = None"
| "stringify Func = None"
| "stringify JNull = Some (js ''null'')"
| "stringify (JBool b) = Some (if b then js ''true'' else js ''false'')"
| "stringify (JNum fin t) = Some (if fin then t else js ''null'')"
| "stringify (JStr s) = Some (quote_str s)"
| "stringify (JArr vs) = Some ([91] @ join_with [44] (stringify_items vs) @ [93])"
| "stringify (JObj fs) = Some ([123] @ join_with [44] (stringify_fields fs) @ [125])"
| "stringify_items [] = []"
| "stringify_items (v # vs) =
     (case stringify v of None \<Rightarrow> js ''null'' | Some t \<Rightarrow> t) # stringify_items vs"
| "stringify_fields [] = []"
| "stringify_fields ((k, v) # fs) =
     (case stringify v of None \<Rightarrow> [] | Some t \<Rightarrow> [quote_str k @ [58] @ t]) @ stringify_fields fs"

section \<open>Copies and fingerprints\<close>

text \<open>Assigning to \<open>__proto__\<close> of a fresh object sets its prototype and makes no property.\<close>

definition PROTO :: jstr where "PROTO = js ''__proto__''"

fun cloneJsonValue :: "jval \<Rightarrow> jval"
  and clone_items :: "jval list \<Rightarrow> jval list"
  and clone_fields :: "(jstr \<times> jval) list \<Rightarrow> (jstr \<times> jval) list" where
  "cloneJsonValue Undefined = Undefined"
| "cloneJsonValue Func = Undefined"
| "cloneJsonValue JNull = JNull"
| "cloneJsonValue (JBool b) = JBool b"
| "cloneJsonValue (JNum fin t) = (if fin then JNum fin t else JNull)"
| "cloneJsonValue (JStr s) = JStr s"
| "cloneJsonValue (JArr vs) = JArr (clone_items vs)"
| "cloneJsonValue (JObj fs) = JObj (clone_fields fs)"
| "clone_items [] = []"
| "clone_items (v # vs) =
     (let item = cloneJsonValue v in if item = Undefined then JNull else item) # clone_items vs"
| "clone_fields [] = []"
| "clone_fields ((k, v) # fs) =
     (let clonedValue = cloneJsonValue v
      in if clonedValue = Undefined \<or> k = PROTO then [] else [(k, clonedValue)]) @ clone_fields fs"

definition cloneJson :: "jval \<Rightarrow> jval" where
  "cloneJson v = cloneJsonValue v"

text \<open>The hash loop on 32-bit integers: \<open>hash << 5\<close>, the subtraction and the addition, cut by \<open>| 0\<close>.\<close>

definition hash_step :: "32 word \<Rightarrow> nat \<Rightarrow> 32 word" where
  "hash_step hash c = push_bit 5 hash - hash + of_nat c"

definition hashString32 :: "jstr \<Rightarrow> nat" where
  "hashString32 s = unat (foldl hash_step 0 s)"

fun base36 :: "nat \<Rightarrow> jstr" where
  "base36 n = (if n < 36 then [hex_digit n] else base36 (n div 36) @ [hex_digit (n mod 36)])"

declare base36.simps [simp del]

definition prop_of :: "jval \<Rightarrow> jstr \<Rightarrow> jval" where
  "prop_of v k = (case v of JObj fs \<Rightarrow> (case map_of fs k of None \<Rightarrow> Undefined | Some x \<Rightarrow> x) | _ \<Rightarrow> Undefined)"

definition fingerprint_tool :: "jval \<Rightarrow> jval" where
  "fingerprint_tool t =
     JObj [(js ''n'', prop_of t (js ''name'')), (js ''d'', prop_of t (js ''description'')),
           (js ''p'', prop_of t (js ''parameters'')), (js ''s'', prop_of t (js ''strict'')),
           (js ''cf'', prop_of t (js ''customFormat'')), (js ''cw'', prop_of t (js ''customWireName''))]"

definition fingerprint_payload :: "jstr list \<Rightarrow> jval list \<Rightarrow> bool \<Rightarrow> jstr" where
  "fingerprint_payload systemPrompt tools intentTracing =
     (case stringify (JObj [(js ''s'', JArr (map JStr systemPrompt)), (js ''t'', JArr (map fingerprint_tool tools)),
                            (js ''i'', JBool intentTracing)]) of None \<Rightarrow> [] | Some t \<Rightarrow> t)"

definition computeFingerprint :: "jstr list \<Rightarrow> jval list \<Rightarrow> bool \<Rightarrow> jstr" where
  "computeFingerprint systemPrompt tools intentTracing =
     base36 (hashString32 (fingerprint_payload systemPrompt tools intentTracing))"

section \<open>The stable prefix\<close>

record prefix_snapshot =
  ps_systemPrompt :: "jstr list"
  ps_tools :: "jval list"
  ps_fingerprint :: jstr

text \<open>A context with the identities of its two arrays, which \<open>build\<close> compares.\<close>

record agent_context =
  ac_systemPrompt :: "jstr list"
  ac_promptRef :: nat
  ac_tools :: "jval list option"
  ac_toolsRef :: nat

record stable_prefix =
  sp_snapshot :: "prefix_snapshot option"
  sp_version :: nat
  sp_sourcePrompt :: "nat option"
  sp_sourceTools :: "nat option"
  sp_sourceIntent :: "bool option"

type_synonym normalize_tools = "jval list option \<Rightarrow> bool \<Rightarrow> jval list option"

definition new_prefix :: stable_prefix where
  "new_prefix = \<lparr>sp_snapshot = None, sp_version = 0, sp_sourcePrompt = None, sp_sourceTools = None, sp_sourceIntent = None\<rparr>"

definition prefix_fingerprint :: "stable_prefix \<Rightarrow> jstr" where
  "prefix_fingerprint p = (case sp_snapshot p of None \<Rightarrow> js ''<unbuilt>'' | Some s \<Rightarrow> ps_fingerprint s)"

definition takeSnapshot :: "normalize_tools \<Rightarrow> agent_context \<Rightarrow> bool \<Rightarrow> prefix_snapshot" where
  "takeSnapshot norm ctx intentTracing =
     (let tools = (case norm (ac_tools ctx) intentTracing of None \<Rightarrow> [] | Some ts \<Rightarrow> ts)
      in \<lparr>ps_systemPrompt = ac_systemPrompt ctx, ps_tools = tools,
          ps_fingerprint = computeFingerprint (ac_systemPrompt ctx) tools intentTracing\<rparr>)"

text \<open>Copying an array of strings gives the same strings, so only the tools are copied below.\<close>

definition exportSnapshot :: "stable_prefix \<Rightarrow> prefix_snapshot option" where
  "exportSnapshot p =
     map_option (\<lambda>s. s\<lparr>ps_tools := clone_items (ps_tools s)\<rparr>)
       (sp_snapshot p)"

datatype context_error = Fingerprint_mismatch jstr jstr | Not_built | Seed_nonempty

definition importSnapshot :: "prefix_snapshot \<Rightarrow> bool \<Rightarrow> stable_prefix \<Rightarrow> context_error option \<times> stable_prefix" where
  "importSnapshot snapshot intentTracing p =
     (let systemPrompt = ps_systemPrompt snapshot;
          tools = clone_items (ps_tools snapshot);
          fingerprint = computeFingerprint systemPrompt tools intentTracing;
          p1 = p\<lparr>sp_sourcePrompt := None, sp_sourceTools := None, sp_sourceIntent := None\<rparr>
      in if fingerprint \<noteq> ps_fingerprint snapshot
         then (Some (Fingerprint_mismatch fingerprint (ps_fingerprint snapshot)), p1)
         else (None, p1\<lparr>sp_snapshot := Some \<lparr>ps_systemPrompt = systemPrompt, ps_tools = tools, ps_fingerprint = fingerprint\<rparr>,
                        sp_version := sp_version p1 + 1\<rparr>))"

definition set_sources :: "agent_context \<Rightarrow> bool \<Rightarrow> stable_prefix \<Rightarrow> stable_prefix" where
  "set_sources ctx intentTracing p =
     p\<lparr>sp_sourcePrompt := Some (ac_promptRef ctx), sp_sourceTools := Some (ac_toolsRef ctx),
       sp_sourceIntent := Some intentTracing\<rparr>"

definition prefix_build :: "normalize_tools \<Rightarrow> agent_context \<Rightarrow> bool \<Rightarrow> stable_prefix \<Rightarrow> bool \<times> stable_prefix" where
  "prefix_build norm ctx intentTracing p =
     (let snapshot = takeSnapshot norm ctx intentTracing;
          same_source = (sp_sourcePrompt p = Some (ac_promptRef ctx) \<and> sp_sourceTools p = Some (ac_toolsRef ctx)
                         \<and> sp_sourceIntent p = Some intentTracing);
          same = (case sp_snapshot p of None \<Rightarrow> False | Some s \<Rightarrow> ps_fingerprint s = ps_fingerprint snapshot)
      in if sp_snapshot p \<noteq> None \<and> same_source \<and> same then (False, p)
         else if same then (False, set_sources ctx intentTracing p)
         else (True, (set_sources ctx intentTracing p)\<lparr>sp_snapshot := Some snapshot, sp_version := sp_version p + 1\<rparr>))"

definition prefix_invalidate :: "stable_prefix \<Rightarrow> stable_prefix" where
  "prefix_invalidate p =
     p\<lparr>sp_snapshot := None, sp_sourcePrompt := None, sp_sourceTools := None, sp_sourceIntent := None\<rparr>"

definition toContext :: "stable_prefix \<Rightarrow> context_error + (jstr list \<times> jval list)" where
  "toContext p =
     (case sp_snapshot p of
        None \<Rightarrow> Inl Not_built
      | Some s \<Rightarrow> Inr (ps_systemPrompt s, clone_items (ps_tools s)))"

section \<open>The log and the manager\<close>

record context_manager =
  cm_prefix :: stable_prefix
  cm_log :: "jval list"
  cm_lastSyncCount :: nat
  cm_syncedHashes :: "nat list"
  cm_seededPrefixCount :: nat

definition new_manager :: context_manager where
  "new_manager = \<lparr>cm_prefix = new_prefix, cm_log = [], cm_lastSyncCount = 0, cm_syncedHashes = [], cm_seededPrefixCount = 0\<rparr>"

definition replaceTail :: "jval \<Rightarrow> jval list \<Rightarrow> jval list" where
  "replaceTail replacement entries =
     (if entries = [] then entries else entries[length entries - 1 := replacement])"

text \<open>A missing message reads as \<open>undefined\<close>, which hashes like \<open>null\<close>.\<close>

definition json_text :: "jval \<Rightarrow> jstr" where
  "json_text m = (case stringify m of None \<Rightarrow> js ''null'' | Some t \<Rightarrow> t)"

definition hashMessage :: "(jstr \<Rightarrow> nat) \<Rightarrow> jval \<Rightarrow> nat" where
  "hashMessage hs m = hs (json_text m)"

definition hashRange :: "(jstr \<Rightarrow> nat) \<Rightarrow> jval list \<Rightarrow> nat \<Rightarrow> nat \<Rightarrow> nat list" where
  "hashRange hs ms start end' = map (\<lambda>i. hashMessage hs (ms ! i)) [start..<end']"

definition nth_value :: "jval list \<Rightarrow> nat \<Rightarrow> jval" where
  "nth_value ms i = (case arr_get ms i of None \<Rightarrow> Undefined | Some m \<Rightarrow> m)"

definition rangeHashesEqual :: "(jstr \<Rightarrow> nat) \<Rightarrow> jval list \<Rightarrow> jval list \<Rightarrow> nat \<Rightarrow> bool" where
  "rangeHashesEqual hs a b count =
     list_all (\<lambda>i. hashMessage hs (nth_value a i) = hashMessage hs (nth_value b i)) [0..<count]"

definition prefixChanged :: "nat list \<Rightarrow> nat \<Rightarrow> context_manager \<Rightarrow> bool" where
  "prefixChanged hashes count m =
     (if count > length (cm_syncedHashes m) then False
      else list_ex (\<lambda>i. arr_get hashes i \<noteq> arr_get (cm_syncedHashes m) i) [0..<count])"

definition rebaseToBaseline :: "jval list \<Rightarrow> nat list \<Rightarrow> nat \<Rightarrow> context_manager \<Rightarrow> context_manager" where
  "rebaseToBaseline messages hashes seeded m =
     m\<lparr>cm_log := map cloneJson messages, cm_lastSyncCount := length messages,
       cm_seededPrefixCount := seeded, cm_syncedHashes := hashes\<rparr>"

definition clear_sync :: "context_manager \<Rightarrow> context_manager" where
  "clear_sync m = m\<lparr>cm_log := [], cm_lastSyncCount := 0, cm_syncedHashes := []\<rparr>"

definition messagesToSync :: "(jstr \<Rightarrow> nat) \<Rightarrow> jval list \<Rightarrow> context_manager \<Rightarrow> jval list" where
  "messagesToSync hs normalizedMessages m =
     (let seeded = cm_seededPrefixCount m;
          includesSeedPrefix = (seeded > 0 \<and> length normalizedMessages \<ge> seeded \<and>
            rangeHashesEqual hs normalizedMessages (cm_log m) seeded)
      in if seeded > 0 \<and> \<not> includesSeedPrefix then take seeded (cm_log m) @ normalizedMessages
         else normalizedMessages)"

definition syncMessages :: "(jstr \<Rightarrow> nat) \<Rightarrow> jval list \<Rightarrow> context_manager \<Rightarrow> context_manager" where
  "syncMessages hs normalizedMessages m =
     (let ms = messagesToSync hs normalizedMessages m;
          hashes = hashRange hs ms 0 (length ms);
          rewritten = (cm_lastSyncCount m > 0 \<and> cm_lastSyncCount m \<le> length ms \<and>
            prefixChanged hashes (cm_lastSyncCount m) m)
      in if rewritten \<and> cm_seededPrefixCount m > 0 then rebaseToBaseline ms hashes (cm_seededPrefixCount m) m
         else
           let m1 = (if rewritten then clear_sync m else m)
           in if length ms < cm_lastSyncCount m1 \<and> cm_seededPrefixCount m1 > 0
              then rebaseToBaseline ms hashes (cm_seededPrefixCount m) m1
              else
                let m2 = (if length ms < cm_lastSyncCount m1 then clear_sync m1 else m1)
                in m2\<lparr>cm_log := cm_log m2 @ map cloneJson (drop (cm_lastSyncCount m2) ms),
                      cm_lastSyncCount := length ms, cm_syncedHashes := hashes\<rparr>)"

definition seedNormalizedMessages ::
  "(jstr \<Rightarrow> nat) \<Rightarrow> jval list \<Rightarrow> bool \<Rightarrow> context_manager \<Rightarrow> context_error option \<times> context_manager" where
  "seedNormalizedMessages hs messages reset m =
     (if length (cm_log m) > 0 \<and> \<not> reset then (Some Seed_nonempty, m)
      else let cloned = clone_items messages
           in (None, m\<lparr>cm_log := cloned, cm_lastSyncCount := length cloned,
                 cm_syncedHashes := hashRange hs cloned 0 (length cloned), cm_seededPrefixCount := length cloned\<rparr>))"

definition forkFromSeed ::
  "(jstr \<Rightarrow> nat) \<Rightarrow> prefix_snapshot option \<Rightarrow> jval list option \<Rightarrow> bool \<Rightarrow> context_error + context_manager" where
  "forkFromSeed hs snapshot messages intentTracing =
     (let imported = (case snapshot of
            None \<Rightarrow> (None, new_prefix) | Some s \<Rightarrow> importSnapshot s intentTracing new_prefix)
      in case fst imported of
           Some err \<Rightarrow> Inl err
         | None \<Rightarrow>
             (let m = new_manager\<lparr>cm_prefix := snd imported\<rparr>
              in case messages of
                   None \<Rightarrow> Inr m
                 | Some ms \<Rightarrow>
                     (case seedNormalizedMessages hs ms False m of
                        (Some err, _) \<Rightarrow> Inl err | (None, m') \<Rightarrow> Inr m')))"

record built_context =
  bc_systemPrompt :: "jstr list"
  bc_messages :: "jval list"
  bc_tools :: "jval list"

text \<open>The second component is what the prefix-change callback is told, if it is called.\<close>

definition manager_build ::
  "normalize_tools \<Rightarrow> agent_context \<Rightarrow> bool \<Rightarrow> context_manager
     \<Rightarrow> (context_error + built_context) \<times> (jstr \<times> jstr \<times> nat) option \<times> context_manager" where
  "manager_build norm ctx intentTracing m =
     (let previousFingerprint = prefix_fingerprint (cm_prefix m);
          (changed, p) = prefix_build norm ctx intentTracing (cm_prefix m)
      in (map_sum id (\<lambda>(systemPrompt, tools).
            \<lparr>bc_systemPrompt = systemPrompt, bc_messages = cm_log m, bc_tools = tools\<rparr>) (toContext p),
          if changed then Some (previousFingerprint, prefix_fingerprint p, sp_version p) else None,
          m\<lparr>cm_prefix := p\<rparr>))"

definition resetSyncCursor :: "context_manager \<Rightarrow> context_manager" where
  "resetSyncCursor m = (clear_sync m)\<lparr>cm_seededPrefixCount := 0\<rparr>"

definition manager_invalidate :: "context_manager \<Rightarrow> context_manager" where
  "manager_invalidate m = m\<lparr>cm_prefix := prefix_invalidate (cm_prefix m)\<rparr>"

definition invalidateForModelChange :: "context_manager \<Rightarrow> context_manager" where
  "invalidateForModelChange m = resetSyncCursor (manager_invalidate m)"

definition appendMessage :: "jval \<Rightarrow> context_manager \<Rightarrow> context_manager" where
  "appendMessage msg m = m\<lparr>cm_log := cm_log m @ [msg]\<rparr>"

definition replaceTailMessage :: "jval \<Rightarrow> context_manager \<Rightarrow> context_manager" where
  "replaceTailMessage msg m = m\<lparr>cm_log := replaceTail msg (cm_log m)\<rparr>"

definition releaseAfterHistoryRewrite :: "(jstr \<Rightarrow> nat) \<Rightarrow> bool \<Rightarrow> context_manager \<Rightarrow> context_manager" where
  "releaseAfterHistoryRewrite hs preserveSeededPrefix m =
     (let seeded = (if preserveSeededPrefix then cm_seededPrefixCount m else 0);
          pre = (if seeded > 0 then take seeded (cm_log m) else [])
      in manager_invalidate (m\<lparr>cm_log := pre, cm_lastSyncCount := length pre, cm_seededPrefixCount := length pre,
           cm_syncedHashes := hashRange hs pre 0 (length pre)\<rparr>))"

definition manager_reset :: "normalize_tools \<Rightarrow> agent_context \<Rightarrow> bool \<Rightarrow> context_manager \<Rightarrow> context_manager" where
  "manager_reset norm ctx intentTracing m =
     (let m1 = invalidateForModelChange m
      in m1\<lparr>cm_prefix := snd (prefix_build norm ctx intentTracing (cm_prefix m1))\<rparr>)"

section \<open>Copies print the same bytes\<close>

fun no_proto :: "jval \<Rightarrow> bool"
  and no_proto_items :: "jval list \<Rightarrow> bool"
  and no_proto_fields :: "(jstr \<times> jval) list \<Rightarrow> bool" where
  "no_proto (JArr vs) = no_proto_items vs"
| "no_proto (JObj fs) = no_proto_fields fs"
| "no_proto _ = True"
| "no_proto_items [] = True"
| "no_proto_items (v # vs) = (no_proto v \<and> no_proto_items vs)"
| "no_proto_fields [] = True"
| "no_proto_fields ((k, v) # fs) = (k \<noteq> PROTO \<and> no_proto v \<and> no_proto_fields fs)"

lemma stringify_clone:
  "no_proto v \<Longrightarrow> stringify (cloneJsonValue v) = stringify v"
  "no_proto_items vs \<Longrightarrow> stringify_items (clone_items vs) = stringify_items vs"
  "no_proto_fields fs \<Longrightarrow> stringify_fields (clone_fields fs) = stringify_fields fs"
proof (induction v and vs and fs rule: cloneJsonValue_clone_items_clone_fields.induct)
  case (10 v vs)
  then show ?case by (cases "cloneJsonValue v = Undefined") (auto simp: Let_def)
next
  case (12 k v fs)
  then show ?case by (cases "cloneJsonValue v = Undefined") (auto simp: Let_def)
qed simp_all

lemma no_proto_clone:
  "no_proto (cloneJsonValue v)"
  "no_proto_items (clone_items vs)"
  "no_proto_fields (clone_fields fs)"
  by (induction v and vs and fs rule: cloneJsonValue_clone_items_clone_fields.induct) (simp_all add: Let_def)

lemma no_proto_items_iff: "no_proto_items vs \<longleftrightarrow> list_all no_proto vs"
  by (induction vs) simp_all

lemma no_proto_cloneJson [simp]: "no_proto (cloneJson v)"
  by (simp add: cloneJson_def no_proto_clone)

lemma json_text_clone [simp]: "no_proto v \<Longrightarrow> json_text (cloneJson v) = json_text v"
  by (simp add: json_text_def cloneJson_def stringify_clone)

lemma hashMessage_clone: "no_proto v \<Longrightarrow> hashMessage hs (cloneJson v) = hashMessage hs v"
  by (simp add: hashMessage_def)

lemma map_clone_text: "list_all no_proto ms \<Longrightarrow> map json_text (map cloneJson ms) = map json_text ms"
  by (simp add: list_all_iff)

lemma map_clone_hash: "list_all no_proto ms \<Longrightarrow> map (hashMessage hs) (map cloneJson ms) = map (hashMessage hs) ms"
  by (simp add: list_all_iff hashMessage_clone)

section \<open>Synchronisation\<close>

text \<open>The log and the bookkeeping agree: the hashes are those of the log, the counts are in range, and the
  log holds copies.\<close>

definition sync_inv :: "(jstr \<Rightarrow> nat) \<Rightarrow> context_manager \<Rightarrow> bool" where
  "sync_inv hs m \<longleftrightarrow>
     cm_lastSyncCount m = length (cm_log m) \<and> cm_syncedHashes m = map (hashMessage hs) (cm_log m) \<and>
     cm_seededPrefixCount m \<le> length (cm_log m) \<and> list_all no_proto (cm_log m)"

lemma hashRange_all: "hashRange hs ms 0 (length ms) = map (hashMessage hs) ms"
  unfolding hashRange_def by (rule nth_equalityI) simp_all

lemma nth_value_nth [simp]: "i < length ms \<Longrightarrow> nth_value ms i = ms ! i"
  by (simp add: nth_value_def)

lemma prefixChanged_iff:
  assumes "sync_inv hs m" "length (cm_log m) \<le> length ms"
  shows "prefixChanged (map (hashMessage hs) ms) (cm_lastSyncCount m) m \<longleftrightarrow>
     map (hashMessage hs) (take (length (cm_log m)) ms) \<noteq> map (hashMessage hs) (cm_log m)"
proof -
  have "prefixChanged (map (hashMessage hs) ms) (cm_lastSyncCount m) m \<longleftrightarrow>
      (\<exists>i < length (cm_log m). hashMessage hs (ms ! i) \<noteq> hashMessage hs (cm_log m ! i))"
    using assms by (simp add: sync_inv_def prefixChanged_def list_ex_iff) (metis (no_types, lifting) arr_get_Some atLeastLessThan_iff
        le_eq_less_or_eq length_map nth_map option.inject order_less_le_trans zero_le)
  also have "\<dots> \<longleftrightarrow> map (hashMessage hs) (take (length (cm_log m)) ms) \<noteq> map (hashMessage hs) (cm_log m)"
    using assms(2) by (auto simp: list_eq_iff_nth_eq)
  finally show ?thesis .
qed

text \<open>What a synchronisation leaves: the copied history, or the old log with the copied rest when the
  hashes of the old log are a prefix of those of the history.\<close>

lemma syncMessages_cases:
  assumes "sync_inv hs m" and ms: "messagesToSync hs normalized m = ms"
  shows "cm_log (syncMessages hs normalized m) =
      (if length (cm_log m) \<le> length ms \<and>
          map (hashMessage hs) (take (length (cm_log m)) ms) = map (hashMessage hs) (cm_log m)
       then cm_log m @ map cloneJson (drop (length (cm_log m)) ms) else map cloneJson ms) \<and>
    cm_lastSyncCount (syncMessages hs normalized m) = length ms \<and>
    cm_syncedHashes (syncMessages hs normalized m) = map (hashMessage hs) ms \<and>
    cm_seededPrefixCount (syncMessages hs normalized m) = cm_seededPrefixCount m"
proof -
  have last: "cm_lastSyncCount m = length (cm_log m)" using assms(1) by (simp add: sync_inv_def)
  show ?thesis
  proof (cases "length (cm_log m) \<le> length ms")
    case True
    note pc = prefixChanged_iff [OF assms(1) True]
    show ?thesis
    proof (cases "map (hashMessage hs) (take (length (cm_log m)) ms) = map (hashMessage hs) (cm_log m)")
      case same: True
      with pc have "\<not> prefixChanged (map (hashMessage hs) ms) (length (cm_log m)) m" by (simp add: last)
      with True same show ?thesis
        by (simp add: syncMessages_def Let_def hashRange_all last ms)
    next
      case False
      then have "cm_log m \<noteq> []" by auto
      with False pc True show ?thesis
        by (simp add: syncMessages_def Let_def hashRange_all last rebaseToBaseline_def clear_sync_def ms)
    qed
  next
    case False
    then show ?thesis
      by (simp add: syncMessages_def Let_def hashRange_all last rebaseToBaseline_def clear_sync_def ms)
  qed
qed

lemma messagesToSync_long:
  "sync_inv hs m \<Longrightarrow> cm_seededPrefixCount m \<le> length (messagesToSync hs ms m)"
  by (auto simp: messagesToSync_def Let_def sync_inv_def)

lemma messagesToSync_no_proto:
  "sync_inv hs m \<Longrightarrow> list_all no_proto ms \<Longrightarrow> list_all no_proto (messagesToSync hs ms m)"
  by (auto simp: messagesToSync_def Let_def sync_inv_def list_all_iff dest: in_set_takeD)

lemma sync_log_hashes:
  assumes "sync_inv hs m" "list_all no_proto ms"
  shows "map (hashMessage hs) (cm_log (syncMessages hs ms m)) = map (hashMessage hs) (messagesToSync hs ms m)"
proof -
  let ?ms = "messagesToSync hs ms m" and ?n = "length (cm_log m)"
  have np: "list_all no_proto ?ms" "list_all no_proto (drop ?n ?ms)"
    using messagesToSync_no_proto [OF assms] by (auto simp: list_all_iff dest: in_set_dropD)
  show ?thesis
  proof (cases "?n \<le> length ?ms \<and> map (hashMessage hs) (take ?n ?ms) = map (hashMessage hs) (cm_log m)")
    case True
    then have "map (hashMessage hs) (cm_log (syncMessages hs ms m)) =
        map (hashMessage hs) (take ?n ?ms) @ map (hashMessage hs) (drop ?n ?ms)"
      using syncMessages_cases [OF assms(1) refl, of ms] map_clone_hash [OF np(2), of hs] by simp
    then show ?thesis by (simp flip: map_append)
  next
    case False
    have "cm_log (syncMessages hs ms m) = map cloneJson ?ms"
      using syncMessages_cases [OF assms(1) refl, of ms] by (simp only: False if_False)
    then show ?thesis using map_clone_hash [OF np(1), of hs] by simp
  qed
qed

lemma sync_inv_syncMessages:
  assumes "sync_inv hs m" "list_all no_proto ms"
  shows "sync_inv hs (syncMessages hs ms m)"
proof -
  have "length (cm_log (syncMessages hs ms m)) = length (messagesToSync hs ms m)"
    using sync_log_hashes [OF assms] by (metis length_map)
  moreover have "list_all no_proto (cm_log (syncMessages hs ms m))"
    using syncMessages_cases [OF assms(1) refl, of ms] assms(1) by (auto simp: sync_inv_def list_all_iff)
  ultimately show ?thesis
    using syncMessages_cases [OF assms(1) refl, of ms] sync_log_hashes [OF assms] messagesToSync_long [OF assms(1), of ms]
    by (simp add: sync_inv_def)
qed

section \<open>Runs of the manager\<close>

text \<open>The calls an agent makes on its manager.  \<open>appendMessage\<close> and \<open>replaceTailMessage\<close> write to the log behind
  the bookkeeping; no caller in the sources uses them.\<close>

datatype manager_call =
    Build_call agent_context bool
  | Sync_call "jval list"
  | Seed_call "jval list" bool
  | Model_change_call
  | Reset_cursor_call
  | Release_call bool
  | Invalidate_prefix_call
  | Reset_call agent_context bool

fun manager_step :: "(jstr \<Rightarrow> nat) \<Rightarrow> normalize_tools \<Rightarrow> context_manager \<Rightarrow> manager_call \<Rightarrow> context_manager" where
  "manager_step hs norm m (Build_call ctx i) = snd (snd (manager_build norm ctx i m))"
| "manager_step hs norm m (Sync_call ms) = syncMessages hs ms m"
| "manager_step hs norm m (Seed_call ms reset) = snd (seedNormalizedMessages hs ms reset m)"
| "manager_step hs norm m Model_change_call = invalidateForModelChange m"
| "manager_step hs norm m Reset_cursor_call = resetSyncCursor m"
| "manager_step hs norm m (Release_call preserve) = releaseAfterHistoryRewrite hs preserve m"
| "manager_step hs norm m Invalidate_prefix_call = manager_invalidate m"
| "manager_step hs norm m (Reset_call ctx i) = manager_reset norm ctx i m"

fun call_ok :: "manager_call \<Rightarrow> bool" where
  "call_ok (Sync_call ms) = list_all no_proto ms"
| "call_ok _ = True"

lemma sync_inv_prefix [simp]: "sync_inv hs (m\<lparr>cm_prefix := p\<rparr>) = sync_inv hs m"
  by (simp add: sync_inv_def)

lemma sync_inv_new [simp]: "sync_inv hs new_manager"
  by (simp add: sync_inv_def new_manager_def)

lemma sync_inv_cleared [simp]: "sync_inv hs (resetSyncCursor m)"
  by (simp add: sync_inv_def resetSyncCursor_def clear_sync_def)

lemmas manager_defs = manager_build_def manager_invalidate_def invalidateForModelChange_def manager_reset_def
  releaseAfterHistoryRewrite_def seedNormalizedMessages_def

lemma manager_step_inv: "sync_inv hs m \<Longrightarrow> call_ok call \<Longrightarrow> sync_inv hs (manager_step hs norm m call)"
proof (cases call)
  case (Release_call preserve)
  then show "sync_inv hs m \<Longrightarrow> ?thesis"
    by (auto simp: sync_inv_def manager_defs Let_def hashRange_all list_all_iff dest: in_set_takeD)
next
  case (Seed_call ms reset)
  then show "sync_inv hs m \<Longrightarrow> ?thesis"
    using no_proto_clone(2) [of ms]
    by (auto simp: sync_inv_def manager_defs Let_def hashRange_all no_proto_items_iff)
qed (auto simp: manager_defs Let_def split_beta sync_inv_syncMessages)

interpretation ctx: guarded_object "manager_step hs norm" "sync_inv hs" call_ok for hs norm
  by unfold_locales (rule manager_step_inv)

section \<open>Fingerprints collide\<close>

lemma hash_step_mult: "hash_step h c = 31 * h + of_nat c"
  by (simp add: hash_step_def push_bit_eq_mult algebra_simps)

text \<open>Two texts that differ in \<open>Aa\<close> and \<open>BB\<close> have the same hash: 31 * 65 + 97 = 31 * 66 + 66.\<close>

lemma hash_collision: "hashString32 (u @ [65, 97] @ v) = hashString32 (u @ [66, 66] @ v)"
  by (simp add: hashString32_def hash_step_mult algebra_simps)

lemma escape_units_Aa:
  "escape_units (js ''Aa'') = [65, 97]" "escape_units (js ''BB'') = [66, 66]"
  by (simp_all add: js_eval high_surrogate_def low_surrogate_def escape_unit_def)

text \<open>The payload is the first prompt part in the middle of a text that does not depend on it.\<close>

lemma payload_split:
  "\<exists>u v. \<forall>s. fingerprint_payload (s # ps) tools i = u @ escape_units s @ v"
proof -
  let ?rest = "stringify_items (map JStr ps)"
  have "join_with [44] (quote_str s # ?rest) = [34] @ escape_units s @ [34] @ (if ?rest = [] then [] else [44] @ join_with [44] ?rest)" for s
    by (cases ?rest) (simp_all add: quote_str_def)
  then show ?thesis
    by (intro exI [of _ "[123] @ quote_str (js ''s'') @ [58, 91, 34]"]
        exI [of _ "[34] @ (if ?rest = [] then [] else [44] @ join_with [44] ?rest) @ [93, 44] @
          quote_str (js ''t'') @ [58] @ [91] @ join_with [44] (stringify_items (map fingerprint_tool tools)) @ [93, 44] @
          quote_str (js ''i'') @ [58] @ (if i then js ''true'' else js ''false'') @ [125]"])
      (simp add: fingerprint_payload_def)
qed

lemma fingerprint_collision:
  "computeFingerprint (js ''Aa'' # ps) tools i = computeFingerprint (js ''BB'' # ps) tools i"
proof -
  obtain u v where "\<And>s. fingerprint_payload (s # ps) tools i = u @ escape_units s @ v"
    using payload_split [of ps tools i] by blast
  then show ?thesis using hash_collision [of u v] by (simp add: computeFingerprint_def escape_units_Aa)
qed

section \<open>Properties\<close>

text \<open>The copy of a message that enters the log prints the same JSON text as the message, as long as no
  object in it has a key \<open>__proto__\<close>: undefined fields, functions and non-finite numbers are treated as
  \<open>JSON.stringify\<close> treats them.\<close>

theorem clone_keeps_bytes:
  assumes "no_proto v"
  shows "stringify (cloneJson v) = stringify v"
  using assms by (simp add: cloneJson_def stringify_clone)

theorem clone_keeps_bytes_witness:
  "stringify (cloneJson (JObj [(js ''a'', JArr [Func, JNum False (js ''NaN'')]), (js ''b'', Undefined)]))
     = Some (js ''{'' @ quote_str (js ''a'') @ js '':[null,null]}'')"
  using clone_keeps_bytes [of "JObj [(js ''a'', JArr [Func, JNum False (js ''NaN'')]), (js ''b'', Undefined)]"]
  by (simp add: PROTO_def js_eval)

text \<open>A flaw of the copy.  An own property \<open>__proto__\<close> is lost: assigning it to the fresh object sets its
  prototype instead, so the copy prints without the field that the original prints.\<close>

theorem clone_loses_proto:
  "stringify (cloneJson (JObj [(PROTO, JObj [])])) = Some (js ''{}'') \<and>
   stringify (JObj [(PROTO, JObj [])]) = Some (js ''{'' @ quote_str PROTO @ js '':{}}'')"
  by (simp add: cloneJson_def js_eval)

text \<open>C22: the log only grows while the history only grows.  After any run of calls, when the messages of a
  synchronisation start with what is in the log, the entries of the log stay as they are and the copies of
  the new messages follow them, so the provider sees the same prefix.\<close>

theorem growing_history_appends:
  assumes "list_all call_ok calls" "m = foldl (manager_step hs norm) new_manager calls"
    and "length (cm_log m) \<le> length ms" "map json_text (take (length (cm_log m)) ms) = map json_text (cm_log m)"
  shows "cm_log (syncMessages hs ms m) = cm_log m @ map cloneJson (drop (length (cm_log m)) ms)"
proof -
  have inv: "sync_inv hs m" using ctx.guarded_run [OF sync_inv_new assms(1)] assms(2) by simp
  have hashes: "map (hashMessage hs) (take (length (cm_log m)) ms) = map (hashMessage hs) (cm_log m)"
    using arg_cong [OF assms(4), of "map hs"] by (simp add: hashMessage_def [abs_def] o_def)
  have "hashMessage hs (ms ! i) = hashMessage hs (cm_log m ! i)" if "i < length (cm_log m)" for i
    using arg_cong [OF hashes, of "\<lambda>xs. xs ! i"] that assms(3) by simp
  then have "rangeHashesEqual hs ms (cm_log m) (cm_seededPrefixCount m)"
    using inv assms(3) by (auto simp: rangeHashesEqual_def sync_inv_def list_all_iff)
  then have "messagesToSync hs ms m = ms"
    using inv assms(3) by (auto simp: messagesToSync_def Let_def sync_inv_def)
  from syncMessages_cases [OF inv this] hashes assms(3) show ?thesis by simp
qed

theorem growing_history_appends_witness:
  "let m = foldl (manager_step hashString32 (\<lambda>ts _. ts)) new_manager [Sync_call [JStr (js ''a'')]]
   in cm_log (syncMessages hashString32 [JStr (js ''a''), JStr (js ''b'')] m) = [JStr (js ''a''), JStr (js ''b'')]"
proof -
  let ?m = "foldl (manager_step hashString32 (\<lambda>ts _. ts)) new_manager [Sync_call [JStr (js ''a'')]]"
  have log: "cm_log ?m = [JStr (js ''a'')]"
    by (simp add: syncMessages_def messagesToSync_def new_manager_def Let_def cloneJson_def)
  have "list_all call_ok [Sync_call [JStr (js ''a'')]]" by simp
  from growing_history_appends [OF this refl, where hs = hashString32 and norm = "\<lambda>ts _. ts" and ms = "[JStr (js ''a''), JStr (js ''b'')]"]
  show ?thesis unfolding Let_def log by (simp add: cloneJson_def)
qed



text \<open>A flaw of the stable prefix.  The prefix is compared by a 32-bit hash that is easy to collide: when
  the system prompt changes from \<open>Aa\<close> to \<open>BB\<close>, the rebuild reports no change and the context keeps the old
  prompt.\<close>

theorem stale_prompt_kept:
  "let ctx = (\<lambda>s r. \<lparr>ac_systemPrompt = [s], ac_promptRef = r, ac_tools = tools, ac_toolsRef = t\<rparr>);
       p = snd (prefix_build norm (ctx (js ''Aa'') 0) i new_prefix);
       (changed, p') = prefix_build norm (ctx (js ''BB'') 1) i p
   in \<not> changed \<and> (\<exists>ts. toContext p' = Inr ([js ''Aa''], ts))"
  using fingerprint_collision [of "[]" "case norm tools i of None \<Rightarrow> [] | Some ts \<Rightarrow> ts" i]
  by (simp add: prefix_build_def takeSnapshot_def Let_def new_prefix_def set_sources_def toContext_def)

end
