(* ===== verification/Levenshtein.thy ===== *)
theory Levenshtein
  imports Complex_Main Js_Prelude
begin

text \<open>
  Edit distance.  The reference \<open>lev\<close> is shown to be the least number of single-unit insertions, deletions and
  substitutions.  Two routines of the sources compute it: \<open>levenshteinDistance\<close> with two rows
  (\<open>edit/modes/replace.ts\<close>), and \<open>levenshtein_units\<close> of the native matcher with one row, after taking off
  common ends and ordering the arguments (\<open>crates/pi-edit/src/fuzzy.rs\<close>).  Both are shown to be equal to
  \<open>lev\<close>.  Similarity is a rational number here; the sources round it to a double.
\<close>

section \<open>The reference\<close>

text \<open>\<open>edit_seq n a b\<close>: \<open>n\<close> edits turn \<open>a\<close> into \<open>b\<close>.\<close>

inductive edit_seq :: "nat \<Rightarrow> 'a list \<Rightarrow> 'a list \<Rightarrow> bool" where
  edit_seq_Nil: "edit_seq 0 [] []"
| edit_seq_keep: "edit_seq n a b \<Longrightarrow> edit_seq n (x # a) (x # b)"
| edit_seq_subst: "edit_seq n a b \<Longrightarrow> edit_seq (Suc n) (x # a) (y # b)"
| edit_seq_delete: "edit_seq n a b \<Longrightarrow> edit_seq (Suc n) (x # a) b"
| edit_seq_insert: "edit_seq n a b \<Longrightarrow> edit_seq (Suc n) a (y # b)"

fun lev :: "'a list \<Rightarrow> 'a list \<Rightarrow> nat" where
  "lev [] b = length b"
| "lev (x # a) [] = length (x # a)"
| "lev (x # a) (y # b) =
     min (lev a (y # b) + 1) (min (lev (x # a) b + 1) (lev a b + (if x = y then 0 else 1)))"

lemma lev_Nil2 [simp]: "lev a [] = length a"
  by (cases a) simp_all

lemma edit_seq_all_insert: "edit_seq (length b) [] b"
  by (induction b) (auto intro: edit_seq.intros)

lemma edit_seq_all_delete: "edit_seq (length a) a []"
  by (induction a) (auto intro: edit_seq.intros)

lemma edit_seq_lev: "edit_seq (lev a b) a b"
proof (induction a b rule: lev.induct)
  case (3 x a y b)
  consider "lev (x # a) (y # b) = Suc (lev a (y # b))" | "lev (x # a) (y # b) = Suc (lev (x # a) b)"
    | "x = y" "lev (x # a) (y # b) = lev a b" | "lev (x # a) (y # b) = Suc (lev a b)"
  proof -
    have "min p (min q r) = p \<or> min p (min q r) = q \<or> min p (min q r) = r" for p q r :: nat
      by (simp add: min_def)
    from this [of "lev a (y # b) + 1" "lev (x # a) b + 1" "lev a b + (if x = y then 0 else 1)"]
    show ?thesis using that unfolding lev.simps(3) [symmetric] by (cases "x = y") (simp_all del: lev.simps(3), blast+)
  qed
  then show ?case by cases (simp_all only: edit_seq.intros 3)
qed (auto intro: edit_seq_all_insert edit_seq_all_delete edit_seq.intros)

text \<open>One unit more or less changes the distance by at most one.\<close>

lemma lev_Cons_le: "lev (x # a) b \<le> Suc (lev a b)"
  by (cases b) auto

lemma lev_Cons_le2: "lev a (y # b) \<le> Suc (lev a b)"
  by (cases a) auto

lemma lev_le_Cons: "lev a b \<le> Suc (lev (x # a) b) \<and> lev b a \<le> Suc (lev b (x # a))"
proof (induction b arbitrary: a x)
  case (Cons y b)
  have "lev a (y # b) \<le> Suc (lev a b)" "lev (y # b) a \<le> Suc (lev b a)"
    by (rule lev_Cons_le2, rule lev_Cons_le)
  moreover note Cons.IH [of a x]
  ultimately show ?case by (auto simp: min_def split: if_splits)
qed simp

lemma lev_same [simp]: "lev (x # a) (x # b) = lev a b"
  using lev_le_Cons [of a b x] lev_le_Cons [of b a x] by (simp add: min_def)

text \<open>\<open>lev\<close> is the least number of edit_seq.\<close>

lemma lev_le_edits: "edit_seq n a b \<Longrightarrow> lev a b \<le> n"
proof (induction rule: edit_seq.induct)
  case (edit_seq_subst n a b x y)
  then show ?case by (simp add: min_le_iff_disj)
next
  case (edit_seq_delete n a b x)
  then show ?case using lev_Cons_le [of x a b] by simp
next
  case (edit_seq_insert n a b y)
  then show ?case using lev_Cons_le2 [of a y b] by simp
qed simp_all

lemma lev_least: "lev a b = (LEAST n. edit_seq n a b)"
  by (rule Least_equality [symmetric]) (auto intro: edit_seq_lev lev_le_edits)

section \<open>Symmetries\<close>

lemma lev_sym: "lev a b = lev b a"
  by (induction a b rule: lev.induct) (auto simp: min.commute min.left_commute)

lemma edit_seq_snoc:
  assumes "edit_seq n a b"
  shows "edit_seq n (a @ [x]) (b @ [x])" "edit_seq (Suc n) (a @ [x]) (b @ [y])"
    "edit_seq (Suc n) (a @ [x]) b" "edit_seq (Suc n) a (b @ [y])"
  using assms by (induction rule: edit_seq.induct) (auto intro: edit_seq.intros)

lemma edit_seq_rev: "edit_seq n a b \<Longrightarrow> edit_seq n (rev a) (rev b)"
  by (induction rule: edit_seq.induct) (auto intro: edit_seq_snoc edit_seq_Nil)

lemma lev_rev [simp]: "lev (rev a) (rev b) = lev a b"
proof (rule antisym)
  show "lev (rev a) (rev b) \<le> lev a b" by (intro lev_le_edits edit_seq_rev edit_seq_lev)
  show "lev a b \<le> lev (rev a) (rev b)"
    using lev_le_edits [OF edit_seq_rev [OF edit_seq_lev [of "rev a" "rev b"]]] by simp
qed

text \<open>The recursion from the other end, which the tables follow.\<close>

lemma lev_snoc:
  "lev (a @ [x]) (b @ [y]) =
     min (lev a (b @ [y]) + 1) (min (lev (a @ [x]) b + 1) (lev a b + (if x = y then 0 else 1)))"
  using lev.simps(3) [of x "rev a" y "rev b"] lev_rev [of "a @ [x]" "b @ [y]"] lev_rev [of a "b @ [y]"]
    lev_rev [of "a @ [x]" b] lev_rev [of a b] by simp

lemma lev_snoc_same [simp]: "lev (a @ [x]) (b @ [x]) = lev a b"
  using lev_same [of x "rev a" "rev b"] lev_rev [of "a @ [x]" "b @ [x]"] by simp

lemma lev_prefix [simp]: "lev (p @ a) (p @ b) = lev a b"
  by (induction p) (simp_all del: lev.simps(3))

lemma lev_suffix [simp]: "lev (a @ s) (b @ s) = lev a b"
  by (induction s rule: rev_induct) (simp_all flip: append_assoc)

lemma lev_bounds: "lev a b \<le> max (length a) (length b)"
  by (induction a b rule: lev.induct) auto

lemma lev_eq_0: "lev a b = 0 \<longleftrightarrow> a = b"
  by (induction a b rule: lev.induct) (auto simp: min_def split: if_splits)

section \<open>Two rows\<close>

text \<open>The inner loop: \<open>prev\<close> from \<open>j - 1\<close> on, \<open>left\<close> is \<open>curr[j - 1]\<close>; it gives \<open>curr\<close> from \<open>j\<close> on.\<close>

fun row_loop :: "nat \<Rightarrow> nat \<Rightarrow> nat list \<Rightarrow> jstr \<Rightarrow> nat list" where
  "row_loop aCode left (p0 # p1 # ps) (bCode # bs) =
     (let cost = (if aCode = bCode then 0 else 1);
          deletion = p1 + 1;
          insertion = left + 1;
          substitution = p0 + cost;
          v = min deletion (min insertion substitution)
      in v # row_loop aCode v (p1 # ps) bs)"
| "row_loop aCode left _ _ = []"

text \<open>The outer loop, from row \<open>i\<close> on.\<close>

fun rows_loop :: "nat \<Rightarrow> nat list \<Rightarrow> jstr \<Rightarrow> jstr \<Rightarrow> nat list" where
  "rows_loop i prev [] b = prev"
| "rows_loop i prev (aCode # as) b = rows_loop (i + 1) (i # row_loop aCode i prev b) as b"

definition levenshteinDistance :: "jstr \<Rightarrow> jstr \<Rightarrow> nat" where
  "levenshteinDistance a b =
     (if a = b then 0
      else if length a = 0 then length b
      else if length b = 0 then length a
      else rows_loop 1 [0..<length b + 1] a b ! length b)"

text \<open>Row \<open>a\<close> of the table for the rest \<open>bs\<close> of \<open>b = c @ bs\<close>.\<close>

definition table_row :: "jstr \<Rightarrow> jstr \<Rightarrow> jstr \<Rightarrow> nat list" where
  "table_row a c bs = map (\<lambda>k. lev a (c @ take k bs)) [0..<length bs + 1]"

lemma table_row_Nil [simp]: "table_row a c [] = [lev a c]"
  by (simp add: table_row_def)

lemma table_row_Cons [simp]: "table_row a c (y # bs) = lev a c # table_row a (c @ [y]) bs"
  unfolding table_row_def by (simp add: upt_conv_Cons map_Suc_upt [symmetric] del: upt_Suc map_Suc_upt)

lemma row_loop_table:
  "row_loop x (lev (a @ [x]) c) (table_row a c bs) bs = tl (table_row (a @ [x]) c bs)"
proof (induction bs arbitrary: c)
  case (Cons y bs)
  obtain q qs where row: "table_row a (c @ [y]) bs = q # qs" and q: "q = lev a (c @ [y])"
    by (cases bs) auto
  have step: "min (q + 1) (min (lev (a @ [x]) c + 1) (lev a c + (if x = y then 0 else 1))) = lev (a @ [x]) (c @ [y])"
    by (simp only: lev_snoc q)
  from Cons.IH [of "c @ [y]"] have "row_loop x (lev (a @ [x]) (c @ [y])) (q # qs) bs = tl (table_row (a @ [x]) (c @ [y]) bs)"
    by (simp only: row)
  moreover have "table_row (a @ [x]) (c @ [y]) bs = lev (a @ [x]) (c @ [y]) # tl (table_row (a @ [x]) (c @ [y]) bs)"
    by (cases bs) simp_all
  ultimately show ?case using step by (simp add: row Let_def)
qed simp

lemma table_row_start: "table_row a [] b = length a # tl (table_row a [] b)"
  by (cases b) simp_all

lemma rows_loop_table:
  "rows_loop (length a + 1) (table_row a [] b) as b = table_row (a @ as) [] b"
proof (induction as arbitrary: a)
  case (Cons x as)
  have "(length a + 1) # row_loop x (length a + 1) (table_row a [] b) b = table_row (a @ [x]) [] b"
    using row_loop_table [of x a "[]" b] table_row_start [of "a @ [x]" b] by simp
  with Cons.IH [of "a @ [x]"] show ?case by simp
qed simp

lemma table_row_initial: "table_row [] [] b = [0..<length b + 1]"
  unfolding table_row_def by (rule nth_equalityI) (simp_all del: upt_Suc)

lemma table_row_last: "table_row a [] b ! length b = lev a b"
  by (simp add: table_row_def del: upt_Suc)

lemma levenshteinDistance_lev: "levenshteinDistance a b = lev a b"
proof -
  have "rows_loop 1 [0..<length b + 1] a b = table_row a [] b"
    using rows_loop_table [of "[]" b a] by (simp add: table_row_initial del: upt_Suc)
  then show ?thesis by (auto simp: levenshteinDistance_def lev_eq_0 table_row_last simp del: upt_Suc)
qed

section \<open>One row\<close>

fun strip_common :: "'a list \<Rightarrow> 'a list \<Rightarrow> 'a list \<times> 'a list" where
  "strip_common (x # a) (y # b) = (if x = y then strip_common a b else (x # a, y # b))"
| "strip_common a b = (a, b)"

definition strip_ends :: "'a list \<Rightarrow> 'a list \<Rightarrow> 'a list \<times> 'a list" where
  "strip_ends a b =
     (case strip_common a b of (a1, b1) \<Rightarrow>
        (case strip_common (rev a1) (rev b1) of (a2, b2) \<Rightarrow> (rev a2, rev b2)))"

text \<open>The cells of a row from \<open>cell\<close> on: \<open>diagonal\<close> and \<open>row[cell - 1]\<close> are carried.\<close>

fun units_row :: "nat \<Rightarrow> nat \<Rightarrow> nat \<Rightarrow> nat list \<Rightarrow> jstr \<Rightarrow> nat list" where
  "units_row a_unit diagonal left (up # row) (b_unit # bs) =
     (let v = (if a_unit = b_unit then diagonal else min (min (up + 1) (left + 1)) (diagonal + 1))
      in v # units_row a_unit up v row bs)"
| "units_row a_unit diagonal left _ _ = []"

fun units_rows :: "nat \<Rightarrow> nat list \<Rightarrow> jstr \<Rightarrow> jstr \<Rightarrow> nat list" where
  "units_rows line row [] shorter = row"
| "units_rows line row (a_unit # longer) shorter =
     units_rows (line + 1) ((line + 1) # units_row a_unit (hd row) (line + 1) (tl row) shorter) longer shorter"

definition levenshtein_units :: "jstr \<Rightarrow> jstr \<Rightarrow> nat" where
  "levenshtein_units a b =
     (if a = b then 0
      else case strip_ends a b of (longer, shorter) \<Rightarrow>
        if longer = [] then length shorter
        else if shorter = [] then length longer
        else (case (if length shorter > length longer then (shorter, longer) else (longer, shorter)) of
                (longer, shorter) \<Rightarrow> units_rows 0 [0..<length shorter + 1] longer shorter ! length shorter))"

lemma strip_common_lev: "strip_common a b = (a', b') \<Longrightarrow> lev a' b' = lev a b"
  by (induction a b rule: strip_common.induct) (auto split: if_splits simp del: lev.simps(3))

lemma strip_ends_lev:
  assumes "strip_ends a b = (a', b')"
  shows "lev a' b' = lev a b"
proof -
  obtain a1 b1 where 1: "strip_common a b = (a1, b1)" by (cases "strip_common a b")
  obtain a2 b2 where 2: "strip_common (rev a1) (rev b1) = (a2, b2)" by (cases "strip_common (rev a1) (rev b1)")
  from assms 1 2 have "a' = rev a2" "b' = rev b2" by (simp_all add: strip_ends_def)
  with strip_common_lev [OF 1] strip_common_lev [OF 2] show ?thesis by simp
qed

lemma units_row_table:
  "units_row x (lev a c) (lev (a @ [x]) c) (tl (table_row a c bs)) bs = tl (table_row (a @ [x]) c bs)"
proof (induction bs arbitrary: c)
  case (Cons y bs)
  have row: "table_row d (c @ [y]) bs = lev d (c @ [y]) # tl (table_row d (c @ [y]) bs)" for d
    by (cases bs) simp_all
  have cell: "(if x = y then lev a c else min (min (lev a (c @ [y]) + 1) (lev (a @ [x]) c + 1)) (lev a c + 1))
      = lev (a @ [x]) (c @ [y])"
    by (cases "x = y") (simp_all add: lev_snoc [of a x c y] min.assoc del: lev.simps)
  have "units_row x (lev a c) (lev (a @ [x]) c) (lev a (c @ [y]) # tl (table_row a (c @ [y]) bs)) (y # bs)
      = lev (a @ [x]) (c @ [y]) # tl (table_row (a @ [x]) (c @ [y]) bs)"
    unfolding units_row.simps(1) Let_def cell Cons.IH ..
  then show ?case by (simp only: table_row_Cons list.sel(3) row [symmetric])
qed simp

lemma units_rows_table:
  "units_rows (length a) (table_row a [] b) as b = table_row (a @ as) [] b"
proof (induction as arbitrary: a)
  case (Cons x as)
  have "hd (table_row a [] b) = lev a []" by (cases b) simp_all
  then have "(length a + 1) # units_row x (hd (table_row a [] b)) (length a + 1) (tl (table_row a [] b)) b
      = table_row (a @ [x]) [] b"
    using units_row_table [of x a "[]" b] table_row_start [of "a @ [x]" b] by simp
  with Cons.IH [of "a @ [x]"] show ?case by simp
qed simp

lemma units_rows_lev: "units_rows 0 [0..<length b + 1] a b ! length b = lev a b"
  using units_rows_table [of "[]" b a] by (simp add: table_row_initial table_row_last del: upt_Suc)

lemma levenshtein_units_lev: "levenshtein_units a b = lev a b"
proof -
  obtain l s where ends: "strip_ends a b = (l, s)" by (cases "strip_ends a b")
  have "lev l s = lev a b" by (rule strip_ends_lev [OF ends])
  then show ?thesis
    using units_rows_lev [of s l] units_rows_lev [of l s] lev_sym [of l s]
    by (auto simp: levenshtein_units_def ends lev_eq_0 simp del: upt_Suc)
qed

section \<open>Similarity\<close>

definition similarity :: "jstr \<Rightarrow> jstr \<Rightarrow> rat" where
  "similarity a b =
     (if length a = 0 \<and> length b = 0 then 1
      else let maxLen = max (length a) (length b)
           in if maxLen = 0 then 1 else 1 - of_nat (levenshteinDistance a b) / of_nat maxLen)"

lemma similarity_bounds: "0 \<le> similarity a b \<and> similarity a b \<le> 1"
proof (cases "max (length a) (length b) = 0")
  case False
  have "of_nat (lev a b) \<le> (of_nat (max (length a) (length b)) :: rat)" using lev_bounds [of a b] by (simp only: of_nat_le_iff)
  with False have "(of_nat (lev a b) :: rat) / of_nat (max (length a) (length b)) \<le> 1" by (simp add: divide_le_eq)
  with False show ?thesis by (auto simp: similarity_def levenshteinDistance_lev Let_def)
qed (simp add: similarity_def)

lemma similarity_one: "similarity a b = 1 \<longleftrightarrow> a = b"
  by (auto simp: similarity_def levenshteinDistance_lev Let_def lev_eq_0)

text \<open>C13: the distance is the least number of one-unit insertions, deletions and substitutions that turn one
  string into the other, and the native routine gives the same number.
\<close>

theorem levenshtein_least_edits:
  "levenshteinDistance a b = (LEAST n. edit_seq n a b) \<and> levenshtein_units a b = levenshteinDistance a b"
  by (simp add: levenshteinDistance_lev levenshtein_units_lev flip: lev_least)

end
