(* ===== verification/Unit_Pattern.thy ===== *)
theory Unit_Pattern
  imports Levenshtein "HOL-Library.Word" "HOL-Library.AList"
begin

unbundle bit_operations_syntax

text \<open>
  The bit-parallel edit distance of the native matcher (\<open>UnitPattern\<close> in \<open>crates/pi-edit/src/fuzzy.rs\<close>): a
  column of the distance table is kept as two 128-bit words, one bit for each step up and one for each step
  down along the pattern, and a unit of the text is processed with one addition.  Shown: for every pattern
  and text it computes the edit distance, the sum's wrap-around included.
\<close>

section \<open>The pattern\<close>

type_synonym u128 = "128 word"

record unit_pattern =
  up_units :: jstr
  up_masks :: "(nat \<times> u128) list"
  up_ascii_slot :: "nat list"
  up_high_bit :: u128
  up_active_bits :: u128

definition mask_step :: "(nat \<times> u128) list \<Rightarrow> nat \<times> nat \<Rightarrow> (nat \<times> u128) list" where
  "mask_step masks = (\<lambda>(index, unit).
     let b = push_bit index 1
     in case map_of masks unit of
          Some m \<Rightarrow> AList.update unit (m OR b) masks
        | None \<Rightarrow> masks @ [(unit, b)])"

definition build_masks :: "jstr \<Rightarrow> (nat \<times> u128) list" where
  "build_masks units =
     (if length units \<le> 128 then sort_key fst (foldl mask_step [] (enumerate 0 units)) else [])"

definition build_ascii_slot :: "(nat \<times> u128) list \<Rightarrow> nat list" where
  "build_ascii_slot masks =
     foldl (\<lambda>slots (index, (unit, _)). if unit < 128 then slots[unit := (index + 1) mod 256] else slots)
       (replicate 128 0) (enumerate 0 masks)"

definition new_pattern :: "jstr \<Rightarrow> unit_pattern" where
  "new_pattern units =
     (let len = length units;
          masks = build_masks units;
          (high_bit, active_bits) =
            (if 1 \<le> len \<and> len \<le> 127 then (push_bit (len - 1) 1, push_bit len 1 - 1)
             else if len = 128 then (push_bit 127 1, - 1)
             else (0, 0))
      in \<lparr>up_units = units, up_masks = masks, up_ascii_slot = build_ascii_slot masks,
          up_high_bit = high_bit, up_active_bits = active_bits\<rparr>)"

text \<open>The masks are sorted by unit, so the binary search finds a unit exactly when it is there.\<close>

definition pattern_mask :: "unit_pattern \<Rightarrow> nat \<Rightarrow> u128" where
  "pattern_mask P unit =
     (if unit < 128
      then (let slot = up_ascii_slot P ! unit in if slot = 0 then 0 else snd (up_masks P ! (slot - 1)))
      else (case map_of (up_masks P) unit of None \<Rightarrow> 0 | Some m \<Rightarrow> m))"

definition distance_step :: "unit_pattern \<Rightarrow> nat \<times> u128 \<times> u128 \<Rightarrow> nat \<Rightarrow> nat \<times> u128 \<times> u128" where
  "distance_step P st unit =
     (case st of (score, pv, mv) \<Rightarrow>
        let eq = pattern_mask P unit;
            xv = eq OR mv;
            xh = (((eq AND pv) + pv) XOR pv) OR eq;
            ph = mv OR NOT (xh OR pv);
            mh = pv AND xh;
            score' = (if ph AND up_high_bit P \<noteq> 0 then score + 1
                      else if mh AND up_high_bit P \<noteq> 0 then score - 1 else score);
            ph' = (push_bit 1 ph OR 1) AND up_active_bits P;
            mh' = push_bit 1 mh AND up_active_bits P
        in (score', (mh' OR NOT (xv OR ph')) AND up_active_bits P, ph' AND xv AND up_active_bits P))"

definition pattern_distance :: "unit_pattern \<Rightarrow> jstr \<Rightarrow> nat" where
  "pattern_distance P s =
     (let pattern_len = length (up_units P)
      in if pattern_len = 0 \<or> s = [] \<or> pattern_len > 128 then levenshtein_units (up_units P) s
         else fst (foldl (distance_step P) (pattern_len, up_active_bits P, 0) s))"

definition pattern_similarity :: "unit_pattern \<Rightarrow> jstr \<Rightarrow> rat" where
  "pattern_similarity P s =
     (let max_len = max (length (up_units P)) (length s)
      in if max_len = 0 then 1 else 1 - of_nat (pattern_distance P s) / of_nat max_len)"

section \<open>Carries\<close>

fun carry :: "nat \<Rightarrow> nat \<Rightarrow> bool \<Rightarrow> nat \<Rightarrow> bool" where
  "carry x y c 0 = c"
| "carry x y c (Suc n) =
     (bit x n \<and> bit y n \<or> bit x n \<and> carry x y c n \<or> bit y n \<and> carry x y c n)"

lemma carry_shift: "carry x y c (Suc n) = carry (x div 2) (y div 2) (carry x y c 1) n"
proof (induction n)
  case (Suc n)
  show ?case by (simp only: carry.simps(2) [of x y c "Suc n"] Suc.IH bit_Suc carry.simps(2) [of "x div 2"])
qed simp

lemma half_sum:
  "(x + y + of_bool c) div 2 = x div 2 + y div 2 + of_bool (odd x \<and> odd y \<or> odd x \<and> c \<or> odd y \<and> c)"
  for x y :: nat
proof (cases c)
  case True
  show ?thesis unfolding True by (cases "odd x"; cases "odd y") (simp_all add: of_bool_def, presburger+)
next
  case False
  show ?thesis using False by (cases "odd x"; cases "odd y") (simp_all add: of_bool_def, presburger+)
qed

lemma bit_plus_carry: "bit (x + y + of_bool c) n \<longleftrightarrow> bit x n \<noteq> (bit y n \<noteq> carry x y c n)"
  for x y :: nat
proof (induction n arbitrary: x y c)
  case 0
  then show ?case by (auto simp: bit_0)
next
  case (Suc n)
  have "(x + y + of_bool c) div 2 = x div 2 + y div 2 + of_bool (carry x y c 1)"
    by (simp only: half_sum One_nat_def carry.simps bit_0)
  then show ?case
    using Suc.IH [of "x div 2" "y div 2" "carry x y c 1"] by (simp only: bit_Suc carry_shift)
qed

lemma word_bit_plus:
  fixes a b :: u128
  assumes "n < 128"
  shows "bit (a + b) n \<longleftrightarrow> bit a n \<noteq> (bit b n \<noteq> carry (unat a) (unat b) False n)"
proof -
  have "bit (a + b) n \<longleftrightarrow> bit (unat (a + b)) n" by (simp add: bit_unsigned_iff assms)
  also have "unat (a + b) = take_bit 128 (unat a + unat b)" by (simp add: unat_word_ariths take_bit_eq_mod)
  also have "bit (take_bit 128 (unat a + unat b)) n \<longleftrightarrow> bit (unat a + unat b) n" by (simp add: bit_take_bit_iff assms)
  finally show ?thesis using bit_plus_carry [of "unat a" "unat b" False n] by (simp add: bit_unsigned_iff assms)
qed

text \<open>The sum \<open>(eq AND pv) + pv\<close> carries a match up along a run of steps up.\<close>

fun run_match :: "u128 \<Rightarrow> u128 \<Rightarrow> nat \<Rightarrow> bool" where
  "run_match eq pv 0 = False"
| "run_match eq pv (Suc n) = (bit pv n \<and> (bit eq n \<or> run_match eq pv n))"

lemma carry_run_match:
  "n \<le> 128 \<Longrightarrow> carry (unat (eq AND pv)) (unat pv) False n = run_match eq pv n"
  by (induction n) (auto simp: bit_unsigned_iff bit_and_iff)

lemma bit_xh:
  fixes eq pv :: u128
  assumes "n < 128"
  shows "bit ((((eq AND pv) + pv) XOR pv) OR eq) n \<longleftrightarrow> bit eq n \<or> run_match eq pv n"
  unfolding bit_or_iff bit_xor_iff word_bit_plus [OF assms] carry_run_match [OF less_imp_le [OF assms]]
    bit_and_iff by blast

section \<open>One cell of the table\<close>

lemma lev_snoc_adjacent:
  "lev (a @ [x]) b \<le> Suc (lev a b)" "lev a b \<le> Suc (lev (a @ [x]) b)"
  "lev a (b @ [y]) \<le> Suc (lev a b)" "lev a b \<le> Suc (lev a (b @ [y]))"
  using lev_Cons_le [of x "rev a" "rev b"] lev_Cons_le2 [of "rev a" y "rev b"]
    lev_le_Cons [of "rev a" "rev b" x] lev_le_Cons [of "rev b" "rev a" y]
    lev_rev [of "a @ [x]" b] lev_rev [of a "b @ [y]"] lev_rev [of a b] by simp_all

text \<open>The steps out of a cell from the steps into it, \<open>v\<close> from above and \<open>h\<close> from the left.\<close>

lemma cell_arith:
  fixes d v h r :: nat
  assumes "v \<le> Suc d" "d \<le> Suc v" "h \<le> Suc d" "d \<le> Suc h" "r = (if e then d else min (h + 1) (min (v + 1) (d + 1)))"
  shows "r + 1 = v \<longleftrightarrow> v = d + 1 \<and> (e \<or> h + 1 = d)"
    "r = v + 1 \<longleftrightarrow> v + 1 = d \<or> \<not> ((e \<or> h + 1 = d) \<or> v = d + 1)"
    "r = h + 1 \<longleftrightarrow> h + 1 = d \<or> \<not> ((e \<or> v + 1 = d) \<or> h = d + 1)"
    "r + 1 = h \<longleftrightarrow> h = d + 1 \<and> (e \<or> v + 1 = d)"
  using assms by (cases e; auto simp: min_def split: if_splits)+

lemma lev_snoc_cell:
  "lev (a @ [x]) (b @ [y]) =
     (if x = y then lev a b else min (lev a (b @ [y]) + 1) (min (lev (a @ [x]) b + 1) (lev a b + 1)))"
  using lev_snoc [of a x b y] by (cases "x = y") simp_all

lemmas cell_steps = cell_arith [OF lev_snoc_adjacent lev_snoc_cell]

section \<open>A column as two words\<close>

definition steps_up :: "jstr \<Rightarrow> jstr \<Rightarrow> nat \<Rightarrow> bool" where
  "steps_up p s i \<longleftrightarrow> i < length p \<and> lev (take (Suc i) p) s = lev (take i p) s + 1"

definition steps_down :: "jstr \<Rightarrow> jstr \<Rightarrow> nat \<Rightarrow> bool" where
  "steps_down p s i \<longleftrightarrow> i < length p \<and> lev (take (Suc i) p) s + 1 = lev (take i p) s"

text \<open>The column of the table after the text \<open>s\<close>.\<close>

definition column :: "jstr \<Rightarrow> jstr \<Rightarrow> nat \<times> u128 \<times> u128 \<Rightarrow> bool" where
  "column p s st \<longleftrightarrow> (case st of (score, pv, mv) \<Rightarrow>
     score = lev p s \<and> (\<forall>i. bit pv i = steps_up p s i) \<and> (\<forall>i. bit mv i = steps_down p s i))"

text \<open>What a pattern's words have to be: the positions of each unit, its last position, all its positions.\<close>

definition pattern_ok :: "unit_pattern \<Rightarrow> bool" where
  "pattern_ok P \<longleftrightarrow> 0 < length (up_units P) \<and> length (up_units P) \<le> 128 \<and>
     (\<forall>c i. bit (pattern_mask P c) i \<longleftrightarrow> i < length (up_units P) \<and> up_units P ! i = c) \<and>
     (\<forall>i. bit (up_high_bit P) i \<longleftrightarrow> i = length (up_units P) - 1) \<and>
     (\<forall>i. bit (up_active_bits P) i \<longleftrightarrow> i < length (up_units P))"

text \<open>The run of matches is where the distance falls along the row above.\<close>

lemma run_match_falls:
  assumes "\<And>i. bit eq i \<longleftrightarrow> i < length p \<and> p ! i = c" "\<And>i. bit pv i = steps_up p s i" "i \<le> length p"
  shows "run_match eq pv i \<longleftrightarrow> lev (take i p) (s @ [c]) + 1 = lev (take i p) s"
  using assms(3)
proof (induction i)
  case (Suc i)
  then have i: "i < length p" by simp
  have t: "take (Suc i) p = take i p @ [p ! i]" by (rule take_Suc_conv_app_nth [OF i])
  show ?case using Suc.IH i unfolding run_match.simps assms(1,2) steps_up_def t cell_steps(1) by auto
qed simp

lemma column_row:
  assumes P: "pattern_ok P" and c: "column (up_units P) s (score, pv, mv)" and i: "i < length (up_units P)"
    and p_def: "p = up_units P" and xh_def: "xh = (((pattern_mask P u AND pv) + pv) XOR pv) OR pattern_mask P u"
  shows "bit (mv OR NOT (xh OR pv)) i \<longleftrightarrow> lev (take (Suc i) p) (s @ [u]) = lev (take (Suc i) p) s + 1"
    "bit (pv AND xh) i \<longleftrightarrow> lev (take (Suc i) p) (s @ [u]) + 1 = lev (take (Suc i) p) s"
proof -
  have t: "take (Suc i) p = take i p @ [p ! i]" unfolding p_def by (rule take_Suc_conv_app_nth [OF i])
  have eq: "bit (pattern_mask P u) j \<longleftrightarrow> j < length p \<and> p ! j = u" for j
    using P unfolding pattern_ok_def p_def by blast
  have up: "bit pv j = steps_up p s j" and dn: "bit mv j = steps_down p s j" for j
    using c unfolding column_def p_def by simp_all
  have i128: "i < 128" and ip: "i < length p" using P i unfolding pattern_ok_def p_def by simp_all
  have xh: "bit xh i \<longleftrightarrow> p ! i = u \<or> lev (take i p) (s @ [u]) + 1 = lev (take i p) s"
    unfolding xh_def bit_xh [OF i128] run_match_falls [OF eq up less_imp_le [OF ip]] eq using ip by simp
  have "bit (mv OR NOT (xh OR pv)) i \<longleftrightarrow> bit mv i \<or> \<not> (bit xh i \<or> bit pv i)"
    unfolding bit_or_iff bit_not_iff using i128 by simp
  then show "bit (mv OR NOT (xh OR pv)) i \<longleftrightarrow> lev (take (Suc i) p) (s @ [u]) = lev (take (Suc i) p) s + 1"
    unfolding xh up dn steps_up_def steps_down_def t cell_steps(2) using ip by blast
  show "bit (pv AND xh) i \<longleftrightarrow> lev (take (Suc i) p) (s @ [u]) + 1 = lev (take (Suc i) p) s"
    unfolding bit_and_iff xh up steps_up_def t cell_steps(1) using ip by blast
qed

lemma bit_shift_in: "i < 128 \<Longrightarrow> bit (push_bit 1 w OR 1) i \<longleftrightarrow> i = 0 \<or> bit w (i - 1)" for w :: u128
  unfolding bit_or_iff bit_push_bit_iff bit_1_iff by (cases i) auto

lemma bit_shift: "i < 128 \<Longrightarrow> bit (push_bit 1 w) i \<longleftrightarrow> 0 < i \<and> bit w (i - 1)" for w :: u128
  unfolding bit_push_bit_iff by (cases i) auto

lemma and_single: "(\<And>i. bit h i \<longleftrightarrow> i = k) \<Longrightarrow> w AND h \<noteq> 0 \<longleftrightarrow> bit w k" for w h :: u128
  using bit_eq_iff [of "w AND h" 0] by (auto simp: bit_and_iff dest: bit_imp_le_length)

lemma shifted_row:
  fixes w act :: u128
  assumes "length p \<le> 128" "\<And>i. bit act i \<longleftrightarrow> i < length p" "\<And>i. i < length p \<Longrightarrow> bit w i \<longleftrightarrow> Q (Suc i)"
  shows "Q 0 \<Longrightarrow> bit ((push_bit 1 w OR 1) AND act) i \<longleftrightarrow> i < length p \<and> Q i"
    "\<not> Q 0 \<Longrightarrow> bit (push_bit 1 w AND act) i \<longleftrightarrow> i < length p \<and> Q i"
  unfolding bit_and_iff assms(2) using assms(1) bit_shift_in [of i w] bit_shift [of i w] assms(3) [of "i - 1"]
  by (cases "i < length p"; cases i; auto)+

lemma column_step:
  assumes P: "pattern_ok P" and c: "column (up_units P) s st"
  shows "column (up_units P) (s @ [u]) (distance_step P st u)"
proof -
  obtain score pv mv where st: "st = (score, pv, mv)" by (cases st)
  define p where "p = up_units P"
  define eq where "eq = pattern_mask P u"
  define xh where "xh = (((eq AND pv) + pv) XOR pv) OR eq"
  define ph where "ph = mv OR NOT (xh OR pv)"
  define mh where "mh = pv AND xh"
  define ph' where "ph' = (push_bit 1 ph OR 1) AND up_active_bits P"
  define mh' where "mh' = push_bit 1 mh AND up_active_bits P"
  have eq: "bit eq i \<longleftrightarrow> i < length p \<and> p ! i = u"
    and high: "bit (up_high_bit P) i \<longleftrightarrow> i = length p - 1"
    and act: "bit (up_active_bits P) i \<longleftrightarrow> i < length p"
    and len: "0 < length p" "length p \<le> 128" for i
    using P unfolding pattern_ok_def p_def eq_def by simp_all
  have score: "score = lev p s" and dn: "bit mv i = steps_down p s i" for i
    using c unfolding st column_def p_def by simp_all
  note row = column_row [OF P c [unfolded st] _ refl xh_def [unfolded eq_def], folded p_def, folded ph_def mh_def]
  have ph': "bit ph' i \<longleftrightarrow> i < length p \<and> lev (take i p) (s @ [u]) = lev (take i p) s + 1" for i
    unfolding ph'_def by (rule shifted_row(1) [OF len(2) act row(1)]) simp_all
  have mh': "bit mh' i \<longleftrightarrow> i < length p \<and> lev (take i p) (s @ [u]) + 1 = lev (take i p) s" for i
    unfolding mh'_def by (rule shifted_row(2) [OF len(2) act row(2)]) simp_all
  have t: "take (Suc i) p = take i p @ [p ! i]" if "i < length p" for i by (rule take_Suc_conv_app_nth [OF that])
  have "bit ((mh' OR NOT ((eq OR mv) OR ph')) AND up_active_bits P) i = steps_up p (s @ [u]) i" for i
  proof (cases "i < length p")
    case True
    then have "i < 128" using len by simp
    with True show ?thesis
      unfolding bit_and_iff bit_or_iff bit_not_iff act ph' mh' eq dn steps_down_def steps_up_def t [OF True] cell_steps(3)
      by simp
  qed (simp add: bit_and_iff act steps_up_def)
  moreover have "bit (ph' AND (eq OR mv) AND up_active_bits P) i = steps_down p (s @ [u]) i" for i
  proof (cases "i < length p")
    case True
    then show ?thesis
      unfolding bit_and_iff bit_or_iff act ph' eq dn steps_down_def t [OF True] cell_steps(4) by simp
  qed (simp add: bit_and_iff act steps_down_def)
  moreover have "(if ph AND up_high_bit P \<noteq> 0 then score + 1
      else if mh AND up_high_bit P \<noteq> 0 then score - 1 else score) = lev p (s @ [u])"
    using row [of "length p - 1"] len lev_snoc_adjacent(3,4) [of p s u]
    unfolding and_single [OF high] score by (auto split: if_splits)
  ultimately show ?thesis
    unfolding st column_def distance_step_def
    by (simp only: prod.case Let_def flip: p_def eq_def xh_def ph_def mh_def ph'_def mh'_def) simp
qed

section \<open>The masks of a pattern\<close>

definition mask_in :: "(nat \<times> u128) list \<Rightarrow> nat \<Rightarrow> u128" where
  "mask_in masks c = (case map_of masks c of None \<Rightarrow> 0 | Some m \<Rightarrow> m)"

definition masks_of :: "(nat \<times> u128) list \<Rightarrow> jstr \<Rightarrow> bool" where
  "masks_of masks us \<longleftrightarrow> distinct (map fst masks) \<and> length masks \<le> length us \<and>
     (\<forall>c i. bit (mask_in masks c) i \<longleftrightarrow> i < length us \<and> us ! i = c)"

lemma bit_push_1: "bit (push_bit k 1 :: u128) i \<longleftrightarrow> i = k \<and> k < 128"
  unfolding bit_push_bit_iff bit_1_iff by auto

lemma length_update: "map_of xs k \<noteq> None \<Longrightarrow> length (AList.update k v xs) = length xs"
  by (induction xs) auto

lemma mask_in_step:
  "mask_in (mask_step masks (k, u)) c = (if c = u then mask_in masks c OR push_bit k 1 else mask_in masks c)"
  by (auto simp: mask_in_def mask_step_def update_conv' split: option.splits)

lemma masks_of_step:
  assumes "masks_of masks us" "length us < 128"
  shows "masks_of (mask_step masks (length us, u)) (us @ [u])"
proof -
  have "bit (mask_in (mask_step masks (length us, u)) c) i \<longleftrightarrow> i < length (us @ [u]) \<and> (us @ [u]) ! i = c" for c i
    using assms unfolding mask_in_step masks_of_def
    by (cases "c = u") (auto simp: bit_or_iff bit_exp_iff nth_append less_Suc_eq)
  moreover have "distinct (map fst (mask_step masks (length us, u)))"
    using assms(1) unfolding masks_of_def mask_step_def
    by (auto simp: Let_def distinct_update map_of_eq_None_iff split: option.splits)
  moreover have "length (mask_step masks (length us, u)) \<le> Suc (length us)"
    using assms(1) unfolding masks_of_def mask_step_def
    by (auto simp: Let_def length_update split: option.splits)
  ultimately show ?thesis unfolding masks_of_def by simp
qed

lemma masks_of_fold: "length us \<le> 128 \<Longrightarrow> masks_of (foldl mask_step [] (enumerate 0 us)) us"
proof (induction us rule: rev_induct)
  case (snoc u us)
  then show ?case using masks_of_step [of "foldl mask_step [] (enumerate 0 us)" us u] by (simp add: enumerate_append_eq)
qed (simp add: masks_of_def mask_in_def)

lemma masks_of_sort:
  assumes "masks_of masks us"
  shows "masks_of (sort_key fst masks) us"
proof -
  have "distinct (map fst masks)" using assms unfolding masks_of_def by blast
  then have d: "distinct (map fst (sort_key fst masks))" by (simp add: distinct_map)
  have "map_of (sort_key fst masks) = map_of masks"
    using map_of_inject_set [OF d \<open>distinct (map fst masks)\<close>] by simp
  then show ?thesis using assms d unfolding masks_of_def mask_in_def by simp
qed

lemma masks_of_build: "length us \<le> 128 \<Longrightarrow> masks_of (build_masks us) us"
  unfolding build_masks_def by (simp add: masks_of_sort masks_of_fold)

text \<open>The slot of an ASCII unit: one more than its index, 0 when it is not there.\<close>

lemma ascii_slot_index:
  assumes "distinct (map fst masks)" "length masks \<le> 128" "u < 128"
  shows "length (build_ascii_slot masks) = 128 \<and>
    (if build_ascii_slot masks ! u = 0 then u \<notin> fst ` set masks
     else build_ascii_slot masks ! u - 1 < length masks \<and> fst (masks ! (build_ascii_slot masks ! u - 1)) = u)"
  using assms
proof (induction masks rule: rev_induct)
  case (snoc m masks)
  have "build_ascii_slot (masks @ [m]) =
      (if fst m < 128 then (build_ascii_slot masks)[fst m := Suc (length masks)] else build_ascii_slot masks)"
    using snoc.prems(2) unfolding build_ascii_slot_def by (simp add: enumerate_append_eq split_beta)
  then show ?case using snoc by (auto simp: nth_append nth_list_update split: if_splits)
qed (simp add: build_ascii_slot_def)

lemma pattern_mask_in:
  assumes "distinct (map fst (up_masks P))" "length (up_masks P) \<le> 128"
    "up_ascii_slot P = build_ascii_slot (up_masks P)"
  shows "pattern_mask P u = mask_in (up_masks P) u"
proof (cases "u < 128")
  case True
  define k where "k = build_ascii_slot (up_masks P) ! u"
  show ?thesis
  proof (cases "k = 0")
    case z: True
    then have "map_of (up_masks P) u = None"
      using ascii_slot_index [OF assms(1,2) True] by (simp add: k_def map_of_eq_None_iff)
    then show ?thesis using z True by (simp add: pattern_mask_def mask_in_def assms(3) k_def)
  next
    case nz: False
    then have "k - 1 < length (up_masks P)" "fst (up_masks P ! (k - 1)) = u"
      using ascii_slot_index [OF assms(1,2) True] by (simp_all add: k_def)
    then have "(u, snd (up_masks P ! (k - 1))) \<in> set (up_masks P)" by (metis nth_mem prod.collapse)
    then have "map_of (up_masks P) u = Some (snd (up_masks P ! (k - 1)))" using assms(1) by simp
    then show ?thesis using nz True by (simp add: pattern_mask_def mask_in_def assms(3) k_def)
  qed
qed (simp add: pattern_mask_def mask_in_def)

lemma new_pattern_ok:
  assumes "0 < length us" "length us \<le> 128"
  shows "pattern_ok (new_pattern us)"
proof -
  define P where "P = new_pattern us"
  have f: "up_units P = us" "up_masks P = build_masks us" "up_ascii_slot P = build_ascii_slot (up_masks P)"
    unfolding P_def new_pattern_def by (simp_all add: Let_def split_beta)
  have m: "masks_of (build_masks us) us" by (rule masks_of_build [OF assms(2)])
  have "pattern_mask P c = mask_in (build_masks us) c" for c
    using pattern_mask_in [of P c] m assms(2) unfolding f masks_of_def by simp
  moreover have "up_high_bit P = push_bit (length us - 1) 1" "up_active_bits P = mask (length us)"
    using assms unfolding P_def new_pattern_def
    by (cases "length us = 128"; auto simp: Let_def mask_eq_exp_minus_1 Suc_le_eq)+
  then have "bit (up_high_bit P) i \<longleftrightarrow> i = length us - 1" "bit (up_active_bits P) i \<longleftrightarrow> i < length us" for i
    using assms by (auto simp: bit_exp_iff bit_mask_iff)
  ultimately show ?thesis using m assms unfolding pattern_ok_def masks_of_def P_def [symmetric] f by simp
qed

section \<open>The distance\<close>

lemma column_start:
  assumes "pattern_ok P"
  shows "column (up_units P) [] (length (up_units P), up_active_bits P, 0)"
  using assms unfolding column_def pattern_ok_def by (auto simp: steps_up_def steps_down_def)

lemma column_fold:
  assumes "pattern_ok P"
  shows "column (up_units P) s (foldl (distance_step P) (length (up_units P), up_active_bits P, 0) s)"
  by (induction s rule: rev_induct) (simp_all add: column_start column_step assms)

lemma up_units_new [simp]: "up_units (new_pattern us) = us"
  unfolding new_pattern_def by (simp add: Let_def split_beta)

lemma pattern_distance_lev: "pattern_distance (new_pattern p) s = lev p s"
proof (cases "length p = 0 \<or> s = [] \<or> length p > 128")
  case True
  then show ?thesis by (simp add: pattern_distance_def Let_def levenshtein_units_lev)
next
  case False
  then have "pattern_ok (new_pattern p)" by (intro new_pattern_ok) auto
  from column_fold [OF this, of s] show ?thesis
    using False by (auto simp: pattern_distance_def Let_def column_def split: prod.splits)
qed

lemma bit_parallel_similarity: "pattern_similarity (new_pattern p) s = similarity p s"
  unfolding pattern_similarity_def similarity_def
  by (simp add: pattern_distance_lev levenshteinDistance_lev Let_def)

text \<open>C12: the bit-parallel matcher computes the same distance and the same similarity as the row-by-row routines,
  for every pattern, of more than 128 units included, and every text.
\<close>

theorem bit_parallel_distance:
  "pattern_distance (new_pattern p) s = levenshteinDistance p s \<and>
   pattern_similarity (new_pattern p) s = similarity p s"
  by (simp add: pattern_distance_lev levenshteinDistance_lev bit_parallel_similarity)

end
