(* ===== verification/Native_Match.thy ===== *)
theory Native_Match
  imports Unit_Pattern Text_Normalize
begin

text \<open>
  The native text matcher behind the replace mode (\<open>find_match\<close> and what it calls in
  \<open>crates/pi-edit/src/fuzzy.rs\<close>, called through \<open>edit_find_match\<close> of \<open>crates/pi-natives/src/edit.rs\<close>): the exact
  search, the whole-line fuzzy search with and without indentation depth, and the choice between them.
  Texts are sequences of UTF-16 units as on the other side of the call, with offsets counted in units (the
  binding converts the byte offsets); scores are rational numbers.
\<close>

section \<open>Data\<close>

definition DEFAULT_FUZZY_THRESHOLD :: rat where "DEFAULT_FUZZY_THRESHOLD = 95 / 100"
definition FALLBACK_THRESHOLD :: rat where "FALLBACK_THRESHOLD = 8 / 10"
definition DOMINANT_FUZZY_MIN_CONFIDENCE :: rat where "DOMINANT_FUZZY_MIN_CONFIDENCE = 97 / 100"
definition DOMINANT_FUZZY_DELTA :: rat where "DOMINANT_FUZZY_DELTA = 8 / 100"
definition OCCURRENCE_PREVIEW_CONTEXT :: nat where "OCCURRENCE_PREVIEW_CONTEXT = 5"
definition OCCURRENCE_PREVIEW_MAX_LEN :: nat where "OCCURRENCE_PREVIEW_MAX_LEN = 80"
definition MAX_RECORDED_MATCHES :: nat where "MAX_RECORDED_MATCHES = 5"

record fuzzy_match =
  fm_actual_text :: jstr
  fm_start_index :: nat
  fm_start_line :: nat
  fm_confidence :: rat

record match_outcome =
  mo_matched :: "fuzzy_match option"
  mo_closest :: "fuzzy_match option"
  mo_occurrences :: "nat option"
  mo_occurrence_lines :: "nat list option"
  mo_occurrence_previews :: "jstr list option"
  mo_fuzzy_matches :: "nat option"
  mo_dominant_fuzzy :: "bool option"

definition no_match :: match_outcome where
  "no_match = \<lparr>mo_matched = None, mo_closest = None, mo_occurrences = None, mo_occurrence_lines = None,
     mo_occurrence_previews = None, mo_fuzzy_matches = None, mo_dominant_fuzzy = None\<rparr>"

type_synonym excluded_range = "nat \<times> nat"

definition overlaps_excluded :: "nat \<Rightarrow> nat \<Rightarrow> excluded_range list \<Rightarrow> bool" where
  "overlaps_excluded start stop ranges = list_ex (\<lambda>(start_index, end_index). start < end_index \<and> stop > start_index) ranges"

section \<open>Previews\<close>

text \<open>The characters of a text: a surrogate pair is one character of two units.\<close>

fun utf16_chars :: "jstr \<Rightarrow> jstr list" where
  "utf16_chars [] = []"
| "utf16_chars [x] = [[x]]"
| "utf16_chars (x # y # s) =
     (if 55296 \<le> x \<and> x \<le> 56319 \<and> 56320 \<le> y \<and> y \<le> 57343 then [x, y] # utf16_chars s
      else [x] # utf16_chars (y # s))"

fun take_chars :: "nat \<Rightarrow> jstr list \<Rightarrow> jstr" where
  "take_chars units [] = []"
| "take_chars units (ch # chs) =
     (if units + length ch > OCCURRENCE_PREVIEW_MAX_LEN - 1 then [] else ch @ take_chars (units + length ch) chs)"

definition preview_line :: "nat \<Rightarrow> jstr \<Rightarrow> jstr" where
  "preview_line n line =
     js ''  '' @ nat_str n @ js '' | '' @
       (if length line > OCCURRENCE_PREVIEW_MAX_LEN then take_chars 0 (utf16_chars line) @ [8230] else line)"

definition format_preview_window :: "jstr list \<Rightarrow> nat \<Rightarrow> jstr" where
  "format_preview_window lines center_index =
     (let start = center_index - OCCURRENCE_PREVIEW_CONTEXT;
          stop = min (length lines) (center_index + OCCURRENCE_PREVIEW_CONTEXT + 1)
      in join_with [10] (map (\<lambda>(offset, line). preview_line (start + offset + 1) line)
           (enumerate 0 (Js_Prelude.slice start stop lines))))"

section \<open>Exact matches\<close>

text \<open>The search goes on behind each occurrence; the pattern is never empty here.\<close>

function exact_indices :: "jstr \<Rightarrow> jstr \<Rightarrow> nat \<Rightarrow> nat list" where
  "exact_indices content target search_start =
     (if target \<noteq> [] \<and> search_start \<le> length content - length target
      then (case index_of target (drop search_start content) of
              None \<Rightarrow> []
            | Some relative \<Rightarrow>
                (let index = search_start + relative
                 in index # exact_indices content target (index + length target)))
      else [])"
  by auto
termination exact_indices
  by (relation "measure (\<lambda>(content, target, start). Suc (length content) - start)") (simp, simp flip: length_greater_0_conv, linarith)

declare exact_indices.simps [simp del]

definition line_at :: "jstr \<Rightarrow> nat \<Rightarrow> nat" where
  "line_at content index = length (filter (\<lambda>c. c = 10) (take index content)) + 1"

definition find_exact_match_outcome :: "jstr \<Rightarrow> jstr \<Rightarrow> excluded_range list \<Rightarrow> match_outcome option" where
  "find_exact_match_outcome content target excluded =
     (let indices = filter (\<lambda>index. \<not> overlaps_excluded index (index + length target) excluded)
            (exact_indices content target 0);
          recorded = take MAX_RECORDED_MATCHES indices
      in case indices of
           [] \<Rightarrow> None
         | first_index # _ \<Rightarrow>
             if length indices > 1
             then Some (no_match\<lparr>mo_occurrences := Some (length indices),
                    mo_occurrence_lines := Some (map (line_at content) recorded),
                    mo_occurrence_previews := Some (map (\<lambda>index.
                      format_preview_window (split_on 10 content) (line_at content index - 1)) recorded)\<rparr>)
             else Some (no_match\<lparr>mo_matched := Some \<lparr>fm_actual_text = target, fm_start_index = first_index,
                    fm_start_line = line_at content first_index, fm_confidence = 1\<rparr>\<rparr>))"

section \<open>Fuzzy matches\<close>

fun fuzzy_units :: "bool \<Rightarrow> jstr \<Rightarrow> jstr" where
  "fuzzy_units in_space [] = []"
| "fuzzy_units in_space (ch # s) =
     (let mapped = (if ch \<in> {34, 8222, 8223, 171, 187} then 34
                    else if ch \<in> {39, 8218, 8219, 96, 180} then 39
                    else if ch \<in> {8208, 8209, 8210, 8211, 8212, 8722} then 45
                    else if ch \<in> {32, 9} then 32 else ch)
      in if mapped = 32 then (if in_space then fuzzy_units in_space s else mapped # fuzzy_units True s)
         else mapped # fuzzy_units False s)"

definition normalize_for_fuzzy :: "jstr \<Rightarrow> jstr" where
  "normalize_for_fuzzy line = (let trimmed = trim line in if trimmed = [] then [] else fuzzy_units False trimmed)"

record prepared_line =
  pl_indent :: nat
  pl_non_empty :: bool
  pl_body :: jstr

definition prepare_line :: "jstr \<Rightarrow> prepared_line" where
  "prepare_line line =
     (let trimmed = trim line
      in \<lparr>pl_indent = countLeadingWhitespace line, pl_non_empty = (trimmed \<noteq> []),
          pl_body = (if trimmed = [] then [] else normalize_for_fuzzy trimmed)\<rparr>)"

definition min_or :: "nat \<Rightarrow> nat list \<Rightarrow> nat" where
  "min_or d xs = (case xs of [] \<Rightarrow> d | x # rest \<Rightarrow> foldl min x rest)"

text \<open>Rounding a quotient of natural numbers half up.\<close>

definition relative_indent_depths :: "prepared_line list \<Rightarrow> nat list" where
  "relative_indent_depths lines =
     (let min_indent = min_or 0 (map pl_indent (filter pl_non_empty lines));
          indent_unit = min_or 1 (map (\<lambda>line. pl_indent line - min_indent)
            (filter (\<lambda>line. pl_non_empty line \<and> pl_indent line > min_indent) lines))
      in map (\<lambda>line. if pl_non_empty line
                then (2 * (pl_indent line - min_indent) + indent_unit) div (2 * indent_unit) else 0) lines)"

definition write_normalized_line :: "prepared_line \<Rightarrow> nat option \<Rightarrow> jstr" where
  "write_normalized_line line depth =
     (case depth of Some d \<Rightarrow> nat_str d | None \<Rightarrow> []) @ [124] @ pl_body line"

definition normalized_lines :: "bool \<Rightarrow> prepared_line list \<Rightarrow> jstr list" where
  "normalized_lines include_depth lines =
     map (\<lambda>(line, depth). write_normalized_line line (if include_depth then Some depth else None))
       (zip lines (relative_indent_depths lines))"

fun line_offsets_from :: "nat \<Rightarrow> jstr list \<Rightarrow> nat list" where
  "line_offsets_from offset [] = []"
| "line_offsets_from offset (line # lines) =
     offset # line_offsets_from (offset + length line + (if lines \<noteq> [] then 1 else 0)) lines"

definition line_offsets :: "jstr list \<Rightarrow> nat list" where
  "line_offsets lines = line_offsets_from 0 lines"

record best_match =
  bm_best :: "fuzzy_match option"
  bm_above_threshold_count :: nat
  bm_best_score :: rat
  bm_second_best_score :: rat

definition window_score :: "bool \<Rightarrow> unit_pattern list \<Rightarrow> prepared_line list \<Rightarrow> rat" where
  "window_score include_depth target_patterns window =
     sum_list (map (\<lambda>(pattern, normalized). pattern_similarity pattern normalized)
       (zip target_patterns (normalized_lines include_depth window))) / of_nat (length target_patterns)"

definition core_step :: "jstr list \<Rightarrow> (nat \<Rightarrow> rat) \<Rightarrow> nat \<Rightarrow> nat list \<Rightarrow> rat \<Rightarrow> excluded_range list
    \<Rightarrow> best_match \<Rightarrow> nat \<Rightarrow> best_match" where
  "core_step content_lines score_at target_len offsets threshold excluded r start =
     (let start_index = offsets ! start;
          end_line = start + target_len - 1;
          end_index = max (offsets ! end_line + length (content_lines ! end_line)) (start_index + 1)
      in if overlaps_excluded start_index end_index excluded then r
         else
           let score = score_at start;
               r1 = (if score \<ge> threshold then r\<lparr>bm_above_threshold_count := bm_above_threshold_count r + 1\<rparr> else r)
           in if score > bm_best_score r
              then r1\<lparr>bm_second_best_score := bm_best_score r, bm_best_score := score,
                     bm_best := Some \<lparr>fm_actual_text = join_with [10] (Js_Prelude.slice start (start + target_len) content_lines),
                       fm_start_index = start_index, fm_start_line = start + 1, fm_confidence = score\<rparr>\<rparr>
              else if score > bm_second_best_score r then r1\<lparr>bm_second_best_score := score\<rparr> else r1)"

definition score_windows :: "jstr list \<Rightarrow> jstr list \<Rightarrow> bool \<Rightarrow> nat \<Rightarrow> rat" where
  "score_windows content_lines target_lines include_depth start =
     window_score include_depth
       (map new_pattern (normalized_lines include_depth (map prepare_line target_lines)))
       (Js_Prelude.slice start (start + length target_lines) (map prepare_line content_lines))"

definition best_fuzzy_match_core ::
  "jstr list \<Rightarrow> jstr list \<Rightarrow> rat \<Rightarrow> bool \<Rightarrow> excluded_range list \<Rightarrow> best_match" where
  "best_fuzzy_match_core content_lines target_lines threshold include_depth excluded =
     foldl (core_step content_lines (score_windows content_lines target_lines include_depth)
         (length target_lines) (line_offsets content_lines) threshold excluded)
       \<lparr>bm_best = None, bm_above_threshold_count = 0, bm_best_score = - 1, bm_second_best_score = - 1\<rparr>
       [0..<length content_lines - length target_lines + 1]"

definition best_fuzzy_match :: "jstr \<Rightarrow> jstr \<Rightarrow> rat \<Rightarrow> excluded_range list \<Rightarrow> best_match" where
  "best_fuzzy_match content target threshold excluded =
     (let content_lines = split_on 10 content; target_lines = split_on 10 target
      in if target = [] \<or> length target_lines > length content_lines
         then \<lparr>bm_best = None, bm_above_threshold_count = 0, bm_best_score = 0, bm_second_best_score = 0\<rparr>
         else
           let result = best_fuzzy_match_core content_lines target_lines threshold True excluded
           in case bm_best result of
                None \<Rightarrow> result
              | Some best \<Rightarrow>
                  if fm_confidence best < threshold \<and> fm_confidence best \<ge> FALLBACK_THRESHOLD
                  then (let without_depth = best_fuzzy_match_core content_lines target_lines threshold False excluded
                        in case bm_best without_depth of
                             None \<Rightarrow> result
                           | Some candidate \<Rightarrow>
                               if fm_confidence candidate > fm_confidence best then without_depth else result)
                  else result)"

definition find_match :: "jstr \<Rightarrow> jstr \<Rightarrow> bool \<Rightarrow> rat option \<Rightarrow> excluded_range list \<Rightarrow> match_outcome" where
  "find_match content target allow_fuzzy threshold_opt excluded =
     (if target = [] then no_match
      else case find_exact_match_outcome content target excluded of
        Some exact \<Rightarrow> exact
      | None \<Rightarrow>
          let threshold = (case threshold_opt of Some t \<Rightarrow> t | None \<Rightarrow> DEFAULT_FUZZY_THRESHOLD);
              result = best_fuzzy_match content target threshold excluded;
              above = bm_above_threshold_count result
          in case bm_best result of
               None \<Rightarrow> no_match
             | Some best \<Rightarrow>
                 if allow_fuzzy \<and> fm_confidence best \<ge> threshold \<and> above = 1
                 then no_match\<lparr>mo_matched := Some best, mo_closest := Some best\<rparr>
                 else if allow_fuzzy \<and> fm_confidence best \<ge> threshold \<and> above > 1
                   \<and> fm_confidence best \<ge> DOMINANT_FUZZY_MIN_CONFIDENCE
                   \<and> fm_confidence best - bm_second_best_score result \<ge> DOMINANT_FUZZY_DELTA
                 then no_match\<lparr>mo_matched := Some best, mo_closest := Some best,
                        mo_fuzzy_matches := Some above, mo_dominant_fuzzy := Some True\<rparr>
                 else no_match\<lparr>mo_closest := Some best, mo_fuzzy_matches := Some above\<rparr>)"

text \<open>The binding gives up on a text longer than its budget, which the environment may set.\<close>

definition over_fuzzy_budget :: "nat \<Rightarrow> jstr \<Rightarrow> jstr \<Rightarrow> bool" where
  "over_fuzzy_budget max_units content target \<longleftrightarrow> length content > max_units \<or> length target > max_units"

definition edit_find_match :: "nat \<Rightarrow> jstr \<Rightarrow> jstr \<Rightarrow> bool \<Rightarrow> rat option \<Rightarrow> match_outcome" where
  "edit_find_match max_units content target allow_fuzzy threshold =
     (if over_fuzzy_budget max_units content target then no_match
      else find_match content target allow_fuzzy threshold [])"

section \<open>The native and the other normalisation agree\<close>

lemma fuzzy_units_collapse: "fuzzy_units b s = collapse_blanks b (map fuzzy_char s)"
  by (induction s arbitrary: b) (auto simp: fuzzy_char_def)

lemma normalize_for_fuzzy_eq: "normalize_for_fuzzy line = normalizeForFuzzy line"
  by (simp add: normalize_for_fuzzy_def normalizeForFuzzy_def fuzzy_units_collapse Let_def)

section \<open>Where a match is\<close>

lemma index_of_Some:
  "index_of pat s = Some i \<Longrightarrow> take (length pat) (drop i s) = pat \<and> i + length pat \<le> length s"
proof (induction s arbitrary: i)
  case (Cons x s)
  show ?case
  proof (cases "prefix pat (x # s)")
    case True
    with Cons.prems prefix_length_le [OF True] show ?thesis by (auto simp: prefix_def)
  next
    case False
    with Cons.prems obtain j where "index_of pat s = Some j" "i = Suc j" by auto
    with Cons.IH show ?thesis by simp
  qed
qed (simp split: if_splits)

lemma index_of_None: "index_of pat s = None \<longleftrightarrow> \<not> (\<exists>a b. s = a @ pat @ b)"
proof (induction s)
  case (Cons x s)
  have "(\<exists>a b. x # s = a @ pat @ b) \<longleftrightarrow> prefix pat (x # s) \<or> (\<exists>a b. s = a @ pat @ b)"
    by (auto simp: prefix_def Cons_eq_append_conv)
  then show ?case using Cons.IH by simp
qed simp

lemma exact_indices_stop:
  "\<not> (target \<noteq> [] \<and> start \<le> length content - length target) \<Longrightarrow> exact_indices content target start = []"
  by (subst exact_indices.simps, rule if_not_P)

lemma exact_indices_none: "index_of target (drop start content) = None \<Longrightarrow> exact_indices content target start = []"
  by (subst exact_indices.simps) simp

lemma exact_indices_some:
  "target \<noteq> [] \<and> start \<le> length content - length target \<Longrightarrow> index_of target (drop start content) = Some r \<Longrightarrow>
     exact_indices content target start = (start + r) # exact_indices content target (start + r + length target)"
  by (simp add: exact_indices.simps [of content target start] Let_def)

lemma exact_indices_cases:
  assumes "i \<in> set (exact_indices content target start)"
  obtains r where "target \<noteq> [] \<and> start \<le> length content - length target"
    "index_of target (drop start content) = Some r"
    "i = start + r \<or> i \<in> set (exact_indices content target (start + r + length target))"
proof -
  have g: "target \<noteq> [] \<and> start \<le> length content - length target" using assms exact_indices_stop by fastforce
  obtain r where r: "index_of target (drop start content) = Some r" using assms exact_indices_none by fastforce
  show ?thesis using that [OF g r] assms exact_indices_some [OF g r] by auto
qed

lemma exact_indices_at:
  "i \<in> set (exact_indices content target start) \<Longrightarrow>
     take (length target) (drop i content) = target \<and> i + length target \<le> length content"
proof (induction content target start rule: exact_indices.induct)
  case (1 content target start)
  from "1.prems" obtain r where r: "target \<noteq> [] \<and> start \<le> length content - length target"
    "index_of target (drop start content) = Some r"
    "i = start + r \<or> i \<in> set (exact_indices content target (start + r + length target))"
    by (rule exact_indices_cases)
  have "take (length target) (drop (start + r) content) = target \<and> start + r + length target \<le> length content"
    using index_of_Some [OF r(2)] r(1) by (auto simp: add.commute)
  with "1.IH" [OF r(1,2) refl] r(3) show ?case by auto
qed

text \<open>A match is a piece of the text at the offset and on the line it names.\<close>

definition located :: "jstr \<Rightarrow> fuzzy_match \<Rightarrow> bool" where
  "located content m \<longleftrightarrow>
     (\<exists>before after. content = before @ fm_actual_text m @ after \<and> fm_start_index m = length before \<and>
        fm_start_line m = length (filter (\<lambda>c. c = 10) before) + 1)"

lemma join_append:
  "xs \<noteq> [] \<Longrightarrow> ys \<noteq> [] \<Longrightarrow> join_with sep (xs @ ys) = join_with sep xs @ sep @ join_with sep ys"
  by (induction xs rule: induct_list012) (auto simp: join_with_Cons)

lemma line_offsets_nth:
  "i < length ls \<Longrightarrow> line_offsets_from k ls ! i = k + length (concat (map (\<lambda>l. l @ [10]) (take i ls)))"
proof (induction ls arbitrary: i k)
  case (Cons l ls)
  then show ?case by (cases i) auto
qed simp

lemma join_take_drop:
  "i < length ls \<Longrightarrow> join_with [10] ls = concat (map (\<lambda>l. l @ [10]) (take i ls)) @ join_with [10] (drop i ls)"
proof (induction ls arbitrary: i)
  case (Cons l ls)
  then show ?case by (cases i; cases ls) auto
qed simp

lemma count_line_ends:
  "\<forall>l \<in> set ls. 10 \<notin> set l \<Longrightarrow> length (filter (\<lambda>c. c = 10) (concat (map (\<lambda>l. l @ [10]) ls))) = length ls"
  by (induction ls) (auto simp: filter_empty_conv)

lemma window_located:
  assumes "ls = split_on 10 content" "0 < n" "i + n \<le> length ls"
  shows "located content \<lparr>fm_actual_text = join_with [10] (Js_Prelude.slice i (i + n) ls),
     fm_start_index = line_offsets ls ! i, fm_start_line = i + 1, fm_confidence = c\<rparr>"
proof -
  have i: "i < length ls" using assms by simp
  define before where "before = concat (map (\<lambda>l. l @ [10]) (take i ls))"
  have c: "content = before @ join_with [10] (drop i ls)"
    using join_take_drop [OF i] assms(1) unfolding before_def by simp
  have d: "drop i ls = take n (drop i ls) @ drop (i + n) ls" by (metis append_take_drop_id drop_drop add.commute)
  have "\<exists>after. join_with [10] (drop i ls) = join_with [10] (take n (drop i ls)) @ after"
  proof (cases "drop (i + n) ls = []")
    case False
    have "take n (drop i ls) \<noteq> []" using assms by simp
    with False show ?thesis using join_append [of "take n (drop i ls)" "drop (i + n) ls" "[10]"] d by metis
  qed (use d in auto)
  then obtain after where "content = before @ join_with [10] (take n (drop i ls)) @ after" using c by auto
  moreover have "line_offsets ls ! i = length before"
    unfolding line_offsets_def before_def using line_offsets_nth [OF i, of 0] by simp
  moreover have "\<forall>l \<in> set (take i ls). 10 \<notin> set l"
    using assms(1) split_on_sep_free in_set_takeD by metis
  then have "length (filter (\<lambda>c. c = 10) before) = i" unfolding before_def using count_line_ends [of "take i ls"] i by simp
  ultimately show ?thesis unfolding located_def Js_Prelude.slice_def by auto
qed

section \<open>The best window\<close>

definition window_match :: "jstr list \<Rightarrow> nat \<Rightarrow> (nat \<Rightarrow> rat) \<Rightarrow> nat \<Rightarrow> fuzzy_match" where
  "window_match content_lines n score_at start =
     \<lparr>fm_actual_text = join_with [10] (Js_Prelude.slice start (start + n) content_lines),
      fm_start_index = line_offsets content_lines ! start, fm_start_line = start + 1, fm_confidence = score_at start\<rparr>"

text \<open>What the state of the search says about the windows \<open>L\<close> it has seen.\<close>

definition best_so_far :: "jstr list \<Rightarrow> nat \<Rightarrow> (nat \<Rightarrow> rat) \<Rightarrow> rat \<Rightarrow> nat list \<Rightarrow> best_match \<Rightarrow> bool" where
  "best_so_far content_lines n f threshold L r \<longleftrightarrow>
     bm_above_threshold_count r = length (filter (\<lambda>j. f j \<ge> threshold) L) \<and>
     (case bm_best r of
        None \<Rightarrow> L = [] \<and> bm_best_score r = - 1
      | Some b \<Rightarrow> \<exists>i \<in> set L. b = window_match content_lines n f i \<and> bm_best_score r = f i \<and>
          (\<forall>j \<in> set L. f j \<le> f i) \<and> (\<forall>j \<in> set L. j \<noteq> i \<longrightarrow> f j \<le> bm_second_best_score r))"

text \<open>The windows that do not touch an excluded range.\<close>

definition visible :: "jstr list \<Rightarrow> nat \<Rightarrow> excluded_range list \<Rightarrow> nat \<Rightarrow> bool" where
  "visible ls n ex k \<longleftrightarrow> \<not> overlaps_excluded (line_offsets ls ! k)
     (max (line_offsets ls ! (k + n - 1) + length (ls ! (k + n - 1))) (line_offsets ls ! k + 1)) ex"

lemma best_so_far_step:
  assumes r: "best_so_far ls n f th L r" and f: "\<And>j. 0 \<le> f j" and new: "k \<notin> set L"
  shows "best_so_far ls n f th (if visible ls n ex k then L @ [k] else L) (core_step ls f n (line_offsets ls) th ex r k)"
proof (cases "visible ls n ex k")
  case False
  then show ?thesis using r by (simp add: core_step_def Let_def visible_def)
next
  case True
  then have seen: "\<not> overlaps_excluded (line_offsets ls ! k)
     (max (line_offsets ls ! (k + n - 1) + length (ls ! (k + n - 1))) (line_offsets ls ! k + 1)) ex"
    by (simp add: visible_def)
  have "best_so_far ls n f th (L @ [k]) (core_step ls f n (line_offsets ls) th ex r k)"
  proof (cases "bm_best r")
    case None
    then show ?thesis
      using r f [of k] seen by (simp add: best_so_far_def core_step_def Let_def window_match_def)
  next
    case (Some b)
    then obtain i where i: "i \<in> set L" "b = window_match ls n f i" "bm_best_score r = f i"
      "\<forall>j \<in> set L. f j \<le> f i" "\<forall>j \<in> set L. j \<noteq> i \<longrightarrow> f j \<le> bm_second_best_score r"
      using r by (auto simp: best_so_far_def)
    show ?thesis
    proof (cases "f k > f i")
      case True
      then show ?thesis using r i Some seen
        by (auto simp: best_so_far_def core_step_def Let_def window_match_def intro: less_imp_le order_trans)
    next
      case le: False
      show ?thesis using r i Some seen le new
        by (auto simp: best_so_far_def core_step_def Let_def intro!: bexI [of _ i] intro: less_imp_le order_trans)
    qed
  qed
  then show ?thesis using True by simp
qed

lemma best_so_far_fold:
  assumes f: "\<And>j. 0 \<le> f j"
  shows "best_so_far ls n f th (filter (visible ls n ex) [0..<k])
    (foldl (core_step ls f n (line_offsets ls) th ex)
      \<lparr>bm_best = None, bm_above_threshold_count = 0, bm_best_score = - 1, bm_second_best_score = - 1\<rparr> [0..<k])"
proof (induction k)
  case (Suc k)
  then show ?case using best_so_far_step [OF Suc.IH f, of k ex] by (simp split: if_splits)
qed (simp add: best_so_far_def)

lemma score_windows_nonneg: "0 \<le> score_windows cl ts d k"
proof -
  have "0 \<le> pattern_similarity (new_pattern p) q" for p q
    using bit_parallel_similarity similarity_bounds by simp
  then show ?thesis
    unfolding score_windows_def window_score_def
    by (auto intro!: divide_nonneg_nonneg sum_list_nonneg dest!: set_zip_leftD)
qed

lemma core_best:
  "best_so_far cl (length ts) (score_windows cl ts d) th
     (filter (visible cl (length ts) ex) [0..<length cl - length ts + 1]) (best_fuzzy_match_core cl ts th d ex)"
  unfolding best_fuzzy_match_core_def by (rule best_so_far_fold [OF score_windows_nonneg])

lemma best_fuzzy_match_core_of:
  assumes "bm_best (best_fuzzy_match content target th ex) = Some b"
  shows "length (split_on 10 target) \<le> length (split_on 10 content) \<and>
    (\<exists>d. best_fuzzy_match content target th ex =
       best_fuzzy_match_core (split_on 10 content) (split_on 10 target) th d ex)"
  using assms unfolding best_fuzzy_match_def Let_def by (auto split: if_splits option.splits)

lemma visible_all [simp]: "visible ls n [] k"
  by (simp add: visible_def overlaps_excluded_def)

lemma fuzzy_best:
  assumes "bm_best (best_fuzzy_match content target th []) = Some b"
  defines "r \<equiv> best_fuzzy_match content target th []" and "cl \<equiv> split_on 10 content" and "ts \<equiv> split_on 10 target"
  obtains d i where "i + length ts \<le> length cl" "b = window_match cl (length ts) (score_windows cl ts d) i"
    "bm_above_threshold_count r = length (filter (\<lambda>j. score_windows cl ts d j \<ge> th) [0..<length cl - length ts + 1])"
    "\<And>j. j + length ts \<le> length cl \<Longrightarrow> j \<noteq> i \<Longrightarrow> score_windows cl ts d j \<le> bm_second_best_score r"
proof -
  obtain d where len: "length ts \<le> length cl" and d: "r = best_fuzzy_match_core cl ts th d []"
    using best_fuzzy_match_core_of [OF assms(1)] unfolding r_def cl_def ts_def by blast
  have "filter (visible cl (length ts) []) [0..<length cl - length ts + 1] = [0..<length cl - length ts + 1]"
    by (rule filter_True) simp
  then have "best_so_far cl (length ts) (score_windows cl ts d) th [0..<length cl - length ts + 1] r"
    using core_best [of cl ts d th "[]"] unfolding d by simp
  then obtain i where "i \<in> set [0..<length cl - length ts + 1]" "b = window_match cl (length ts) (score_windows cl ts d) i"
    "bm_above_threshold_count r = length (filter (\<lambda>j. score_windows cl ts d j \<ge> th) [0..<length cl - length ts + 1])"
    "\<forall>j \<in> set [0..<length cl - length ts + 1]. j \<noteq> i \<longrightarrow> score_windows cl ts d j \<le> bm_second_best_score r"
    unfolding best_so_far_def using assms(1) unfolding r_def [symmetric] by (auto simp del: upt_Suc)
  then show ?thesis using len by (intro that [of i d]) (auto simp del: upt_Suc)
qed

lemma exact_located:
  assumes "find_exact_match_outcome content target ex = Some out" "mo_matched out = Some m \<or> mo_closest out = Some m"
  shows "located content m \<and> fm_actual_text m = target \<and> fm_confidence m = 1 \<and>
    filter (\<lambda>i. \<not> overlaps_excluded i (i + length target) ex) (exact_indices content target 0) = [fm_start_index m]"
proof -
  obtain i where i: "filter (\<lambda>i. \<not> overlaps_excluded i (i + length target) ex) (exact_indices content target 0) = [i]"
    and m: "m = \<lparr>fm_actual_text = target, fm_start_index = i, fm_start_line = line_at content i, fm_confidence = 1\<rparr>"
    using assms unfolding find_exact_match_outcome_def
    by (auto simp: Let_def no_match_def split: list.splits if_splits)
  have "i \<in> set (exact_indices content target 0)" using i by (metis filter_is_subset list.set_intros(1) subsetD)
  then have at: "take (length target) (drop i content) = target" "i + length target \<le> length content"
    using exact_indices_at by blast+
  have "content = take i content @ target @ drop (i + length target) content"
    using at(1) by (metis append_take_drop_id drop_drop add.commute)
  then have "located content m"
    unfolding located_def m line_at_def using at(2)
    by (intro exI [of _ "take i content"] exI [of _ "drop (i + length target) content"]) simp
  then show ?thesis using i m by simp
qed

lemma fuzzy_located:
  assumes "bm_best (best_fuzzy_match content target th []) = Some b"
  shows "located content b"
proof -
  obtain d i where "i + length (split_on 10 target) \<le> length (split_on 10 content)"
    "b = window_match (split_on 10 content) (length (split_on 10 target))
       (score_windows (split_on 10 content) (split_on 10 target) d) i"
    by (rule fuzzy_best [OF assms])
  then show ?thesis
    unfolding window_match_def by (simp only: window_located [OF refl split_on_length_pos])
qed

lemma find_match_fuzzy:
  assumes "mo_matched (find_match content target allow th ex) = Some m \<or> mo_closest (find_match content target allow th ex) = Some m"
    "find_exact_match_outcome content target ex = None"
  shows "bm_best (best_fuzzy_match content target (case th of Some t \<Rightarrow> t | None \<Rightarrow> DEFAULT_FUZZY_THRESHOLD) ex) = Some m"
  using assms unfolding find_match_def by (auto simp: Let_def no_match_def split: if_splits option.splits)

lemma find_match_exact:
  "target \<noteq> [] \<Longrightarrow> find_exact_match_outcome content target ex = Some out \<Longrightarrow> find_match content target allow th ex = out"
  by (simp add: find_match_def)

text \<open>C20: whatever the matcher returns, as a match or as the closest text, is a piece of the content at the
  offset and on the line it names, so that cutting it out by its offset and length takes exactly its text.\<close>

theorem native_match_located:
  assumes "mo_matched (edit_find_match max_units content target allow th) = Some m \<or>
    mo_closest (edit_find_match max_units content target allow th) = Some m"
  shows "located content m"
proof -
  have nb: "\<not> over_fuzzy_budget max_units content target" using assms by (auto simp: edit_find_match_def no_match_def)
  with assms have a: "mo_matched (find_match content target allow th []) = Some m \<or>
    mo_closest (find_match content target allow th []) = Some m" by (simp add: edit_find_match_def)
  show ?thesis
  proof (cases "find_exact_match_outcome content target []")
    case None
    show ?thesis by (rule fuzzy_located [OF find_match_fuzzy [OF a None]])
  next
    case (Some out)
    have "target \<noteq> []" using a by (auto simp: find_match_def no_match_def)
    then show ?thesis using exact_located [OF Some] a find_match_exact [OF _ Some] by auto
  qed
qed

text \<open>Two high scores in a list of which one is known.\<close>

lemma one_above:
  assumes "length (filter P xs) = 1" "i \<in> set xs" "P i" "j \<in> set xs" "j \<noteq> i"
  shows "\<not> P j"
proof
  assume "P j"
  then have "{i, j} \<subseteq> set (filter P xs)" using assms by auto
  then have "card {i, j} \<le> length (filter P xs)" by (meson List.finite_set card_length card_mono order_trans)
  then show False using assms by simp
qed

lemma fuzzy_match_separated:
  assumes "find_exact_match_outcome content target [] = None"
    "mo_matched (find_match content target allow (Some th) []) = Some m"
  defines "cl \<equiv> split_on 10 content" and "ts \<equiv> split_on 10 target"
  shows "allow \<and> fm_confidence m \<ge> th \<and>
    (\<exists>d i. i + length ts \<le> length cl \<and> m = window_match cl (length ts) (score_windows cl ts d) i \<and>
      (\<forall>j. j + length ts \<le> length cl \<and> j \<noteq> i \<longrightarrow>
        score_windows cl ts d j < th \<or> score_windows cl ts d j + DOMINANT_FUZZY_DELTA \<le> fm_confidence m))"
proof -
  define r where "r = best_fuzzy_match content target th []"
  have best: "bm_best (best_fuzzy_match content target th []) = Some m"
    using find_match_fuzzy [OF disjI1 [OF assms(2)] assms(1)] by simp
  have c: "allow" "fm_confidence m \<ge> th"
    "bm_above_threshold_count r = 1 \<or> fm_confidence m - bm_second_best_score r \<ge> DOMINANT_FUZZY_DELTA"
    using assms(1,2) best unfolding find_match_def r_def
    by (auto simp: Let_def no_match_def split: if_splits option.splits)
  obtain d i where i: "i + length ts \<le> length cl" and m: "m = window_match cl (length ts) (score_windows cl ts d) i"
    and n: "bm_above_threshold_count r = length (filter (\<lambda>j. score_windows cl ts d j \<ge> th) [0..<length cl - length ts + 1])"
    and s: "\<And>j. j + length ts \<le> length cl \<Longrightarrow> j \<noteq> i \<Longrightarrow> score_windows cl ts d j \<le> bm_second_best_score r"
    using fuzzy_best [OF best, folded cl_def ts_def r_def] by metis
  have "score_windows cl ts d j < th \<or> score_windows cl ts d j + DOMINANT_FUZZY_DELTA \<le> fm_confidence m"
    if "j + length ts \<le> length cl" "j \<noteq> i" for j
  proof (cases "bm_above_threshold_count r = 1")
    case True
    have "score_windows cl ts d i \<ge> th" using c(2) m by (simp add: window_match_def)
    then have "\<not> score_windows cl ts d j \<ge> th"
      using one_above [OF n [unfolded True, symmetric], of i j] i that by (simp del: upt_Suc)
    then show ?thesis by simp
  next
    case False
    then show ?thesis using c(3) s [OF that] by simp
  qed
  with i m c show ?thesis by blast
qed

lemma exact_indices_Nil_iff: "target \<noteq> [] \<Longrightarrow> exact_indices content target 0 = [] \<longleftrightarrow> \<not> (\<exists>a b. content = a @ target @ b)"
proof
  assume t: "target \<noteq> []" and n: "exact_indices content target 0 = []"
  then have "index_of target content = None" using exact_indices_some [of target 0 content] by fastforce
  then show "\<not> (\<exists>a b. content = a @ target @ b)" by (simp add: index_of_None)
qed (simp add: exact_indices_none index_of_None)

lemma exact_outcome_None:
  "find_exact_match_outcome content target [] = None \<longleftrightarrow> exact_indices content target 0 = []"
  unfolding find_exact_match_outcome_def by (auto simp: Let_def overlaps_excluded_def split: list.splits if_splits)


section \<open>Scores without bit vectors\<close>

lemma length_normalized_lines [simp]: "length (normalized_lines d ls) = length ls"
  by (simp add: normalized_lines_def relative_indent_depths_def Let_def)

lemma score_windows_similarity:
  "score_windows cl ts d k =
     sum_list (map (\<lambda>(p, q). similarity p q) (zip (normalized_lines d (map prepare_line ts))
       (normalized_lines d (Js_Prelude.slice k (k + length ts) (map prepare_line cl))))) / of_nat (length ts)"
proof -
  have "map (\<lambda>(p, q). pattern_similarity p q) (zip (map new_pattern ps) qs) = map (\<lambda>(p, q). similarity p q) (zip ps qs)" for ps qs
    by (simp add: zip_map1 o_def split_beta bit_parallel_similarity)
  then show ?thesis
    unfolding score_windows_def window_score_def by simp
qed

text \<open>Two lines that differ in a run of spaces.\<close>

lemma spaced_line_score: "score_windows [js ''a b''] [js ''a  b''] True 0 = 1"
  unfolding score_windows_similarity
  by (simp add: js_eval normalized_lines_def prepare_line_def relative_indent_depths_def write_normalized_line_def
      min_or_def normalize_for_fuzzy_def trim_def trimStart_def trimEnd_def is_ws_def Js_Prelude.slice_def similarity_one)

text \<open>The matcher on a text of one line.\<close>

lemma edit_find_match_one_line:
  assumes "length c \<le> B" "length t \<le> B" "t \<noteq> []" "10 \<notin> set c" "10 \<notin> set t" "\<nexists>a b. c = a @ t @ b"
    "score_windows [c] [t] True 0 \<ge> th"
  shows "edit_find_match B c t True (Some th) =
    no_match\<lparr>mo_matched := Some (window_match [c] 1 (score_windows [c] [t] True) 0),
      mo_closest := Some (window_match [c] 1 (score_windows [c] [t] True) 0)\<rparr>"
proof -
  have "find_exact_match_outcome c t [] = None"
    unfolding exact_outcome_None exact_indices_Nil_iff [OF assms(3)] by (rule assms(6))
  moreover have "best_fuzzy_match_core [c] [t] th True [] = \<lparr>bm_best = Some (window_match [c] 1 (score_windows [c] [t] True) 0),
      bm_above_threshold_count = 1, bm_best_score = score_windows [c] [t] True 0, bm_second_best_score = - 1\<rparr>"
    using assms(7) score_windows_nonneg [of "[c]" "[t]" True 0]
    by (simp add: best_fuzzy_match_core_def core_step_def overlaps_excluded_def Let_def window_match_def)
  ultimately show ?thesis
    using assms by (simp add: edit_find_match_def over_fuzzy_budget_def find_match_def best_fuzzy_match_def Let_def
        window_match_def)
qed

lemma spaced_line_absent: "\<nexists>a b. js ''a b'' = a @ js ''a  b'' @ b"
  by (auto simp: js_eval append_eq_Cons_conv Cons_eq_append_conv)

lemma spaced_line_match:
  "edit_find_match 100 (js ''a b'') (js ''a  b'') True (Some (95 / 100)) =
     no_match\<lparr>mo_matched := Some (window_match [js ''a b''] 1 (score_windows [js ''a b''] [js ''a  b''] True) 0),
       mo_closest := Some (window_match [js ''a b''] 1 (score_windows [js ''a b''] [js ''a  b''] True) 0)\<rparr>"
  by (rule edit_find_match_one_line [OF _ _ _ _ _ spaced_line_absent]) (simp_all add: spaced_line_score, simp_all add: js_eval)

theorem native_match_located_witness:
  "located (js ''a b'') (window_match [js ''a b''] 1 (score_windows [js ''a b''] [js ''a  b''] True) 0)"
  by (rule native_match_located [of 100 _ "js ''a  b''" True "Some (95 / 100)"])
    (unfold spaced_line_match, simp)


end
