(* ===== verification/Replace_Mode.thy ===== *)
theory Replace_Mode
  imports Native_Match Hashline_Execute
begin

text \<open>
  The replace edit mode: \<open>replaceText\<close> of \<open>edit/diff.ts\<close> and the calls of \<open>edit/modes/replace.ts\<close> that read
  a file, replace text in it and write it.  The native matcher, the normalisation, the plan-mode guard and the
  file system are those of the other theories.  The loop that replaces fuzzy matches one after another need
  not end, so it is a partial function whose value \<open>None\<close> is not returning.  Of the result of a call the text
  is modelled, not the diff.

  Shown: replacing one exact occurrence and replacing all agree, several occurrences are refused when one is
  asked for, a call writes its file only when every replacement succeeds and no other file, and in plan mode only
  the plan file.  Replacing all fuzzy matches can match what it has just inserted.
\<close>

section \<open>Replacing text\<close>

datatype replace_error =
    Old_text_empty
  | Edits_empty
  | Occurrences jstr
  | Match_failed jstr
  | Call_error exec_error

text \<open>\<open>s.split(pat)\<close> for a separator that is not empty.\<close>

function str_split :: "jstr \<Rightarrow> jstr \<Rightarrow> jstr list" where
  "str_split pat s =
     (if pat = [] then [s]
      else case index_of pat s of None \<Rightarrow> [s] | Some i \<Rightarrow> take i s # str_split pat (drop (i + length pat) s))"
  by auto
termination str_split
proof (relation "measure (length \<circ> snd)")
  fix pat s :: jstr and i
  assume "pat \<noteq> []" "index_of pat s = Some i"
  then show "((pat, drop (i + length pat) s), pat, s) \<in> measure (length \<circ> snd)"
    using index_of_Some [of pat s i] by (cases pat) auto
qed simp

declare str_split.simps [simp del]

definition MAX_OCCURRENCE_PREVIEWS :: nat where "MAX_OCCURRENCE_PREVIEWS = 5"

definition formatOccurrenceMatchError :: "nat \<Rightarrow> jstr list option \<Rightarrow> jstr option \<Rightarrow> jstr" where
  "formatOccurrenceMatchError n occurrencePreviews path =
     (let previews = (case occurrencePreviews of Some ps \<Rightarrow> join_with [10, 10] ps | None \<Rightarrow> []);
          moreMsg = (if n > MAX_OCCURRENCE_PREVIEWS
                     then js '' (showing first '' @ nat_str MAX_OCCURRENCE_PREVIEWS @ js '' of '' @ nat_str n @ js '')''
                     else []);
          pathSuffix = (case path of Some p \<Rightarrow> if p = [] then [] else js '' in '' @ p | None \<Rightarrow> [])
      in js ''Found '' @ nat_str n @ js '' occurrences'' @ pathSuffix @ moreMsg @ [58, 10, 10] @ previews @
         [10, 10] @ js ''Add more context lines to disambiguate.'')"

record replace_options =
  ro_fuzzy :: bool
  ro_all :: bool
  ro_threshold :: "rat option"

text \<open>Which match a pass of the fuzzy loop replaces.\<close>

definition loop_match :: "bool \<Rightarrow> rat \<Rightarrow> match_outcome \<Rightarrow> fuzzy_match option" where
  "loop_match fuzzy threshold out =
     (let shouldUseClosest =
            (fuzzy \<and> (case mo_closest out of Some c \<Rightarrow> fm_confidence c \<ge> threshold | None \<Rightarrow> False) \<and>
             (case mo_fuzzy_matches out of None \<Rightarrow> True | Some n \<Rightarrow> n \<le> 1))
      in case mo_matched out of Some m \<Rightarrow> Some m | None \<Rightarrow> if shouldUseClosest then mo_closest out else None)"

partial_function (option) replace_loop ::
  "nat \<Rightarrow> bool \<Rightarrow> rat \<Rightarrow> jstr \<Rightarrow> jstr \<Rightarrow> jstr \<Rightarrow> nat \<Rightarrow> (jstr \<times> nat) option" where
  "replace_loop max_units fuzzy threshold oldText newText content count =
     (case loop_match fuzzy threshold (edit_find_match max_units content oldText fuzzy (Some threshold)) of
        None \<Rightarrow> Some (content, count)
      | Some m \<Rightarrow>
          let adjustedNewText = adjustIndentation oldText (fm_actual_text m) newText
          in if adjustedNewText = fm_actual_text m then Some (content, count)
             else replace_loop max_units fuzzy threshold oldText newText
               (take (fm_start_index m) content @ adjustedNewText @
                drop (fm_start_index m + length (fm_actual_text m)) content)
               (count + 1))"

definition replaceText ::
  "nat \<Rightarrow> jstr \<Rightarrow> jstr \<Rightarrow> jstr \<Rightarrow> replace_options \<Rightarrow> (replace_error + jstr \<times> nat) option" where
  "replaceText max_units content oldText newText opts =
     (if length oldText = 0 then Some (Inl Old_text_empty)
      else
        let threshold = (case ro_threshold opts of Some t \<Rightarrow> t | None \<Rightarrow> DEFAULT_FUZZY_THRESHOLD);
            normalizedContent = normalizeToLF content;
            normalizedOldText = normalizeToLF oldText;
            normalizedNewText = normalizeToLF newText
        in if ro_all opts
           then (let exactCount = length (str_split normalizedOldText normalizedContent) - 1
                 in if exactCount > 0
                    then Some (Inr (join_with normalizedNewText (str_split normalizedOldText normalizedContent), exactCount))
                    else map_option Inr
                      (replace_loop max_units (ro_fuzzy opts) threshold normalizedOldText normalizedNewText normalizedContent 0))
           else
             let out = edit_find_match max_units normalizedContent normalizedOldText (ro_fuzzy opts) (Some threshold)
             in case (if mo_occurrences out \<noteq> None \<and> the (mo_occurrences out) > 1 then mo_occurrences out else None) of
                  Some n \<Rightarrow> Some (Inl (Occurrences (formatOccurrenceMatchError n (mo_occurrence_previews out) None)))
                | None \<Rightarrow>
                    (case mo_matched out of
                       None \<Rightarrow> Some (Inr (normalizedContent, 0))
                     | Some m \<Rightarrow>
                         let adjustedNewText = adjustIndentation normalizedOldText (fm_actual_text m) normalizedNewText
                         in Some (Inr (take (fm_start_index m) normalizedContent @ adjustedNewText @
                              drop (fm_start_index m + length (fm_actual_text m)) normalizedContent, 1))))"

section \<open>Messages\<close>

definition line_or_empty :: "jstr list \<Rightarrow> nat \<Rightarrow> jstr" where
  "line_or_empty lines i = (case arr_get lines i of Some l \<Rightarrow> l | None \<Rightarrow> [])"

definition findFirstDifferentLine :: "jstr list \<Rightarrow> jstr list \<Rightarrow> jstr \<times> jstr" where
  "findFirstDifferentLine oldLines newLines =
     (case find (\<lambda>i. line_or_empty oldLines i \<noteq> line_or_empty newLines i) [0..<max (length oldLines) (length newLines)] of
        Some i \<Rightarrow> (line_or_empty oldLines i, line_or_empty newLines i)
      | None \<Rightarrow> (line_or_empty oldLines 0, line_or_empty newLines 0))"

definition percent :: "rat \<Rightarrow> jstr" where
  "percent x = nat_str (nat \<lfloor>x * 100 + 1 / 2\<rfloor>)"

definition EditMatchError_formatMessage :: "jstr \<Rightarrow> jstr \<Rightarrow> fuzzy_match option \<Rightarrow> bool \<Rightarrow> rat \<Rightarrow> nat option \<Rightarrow> jstr" where
  "EditMatchError_formatMessage path searchText closest allowFuzzy threshold fuzzyMatches =
     (case closest of
        None \<Rightarrow>
          if allowFuzzy then js ''Could not find a close enough match in '' @ path @ js ''.''
          else js ''Could not find the exact text in '' @ path @
            js ''. The old text must match exactly including all whitespace and newlines.''
      | Some c \<Rightarrow>
          let (oldLine, newLine) = findFirstDifferentLine (split_on 10 searchText) (split_on 10 (fm_actual_text c));
              hint = (if allowFuzzy
                      then (if fuzzyMatches \<noteq> None \<and> the fuzzyMatches > 1
                            then js ''Found '' @ nat_str (the fuzzyMatches) @
                              js '' high-confidence matches. Provide more context to make it unique.''
                            else js ''Closest match was below the '' @ percent threshold @ js ''% similarity threshold.'')
                      else js ''Fuzzy matching is disabled. Enable 'Edit fuzzy match' in settings to accept high-confidence matches.'')
          in join_with [10]
               [(if allowFuzzy then js ''Could not find a close enough match in '' @ path @ js ''.''
                 else js ''Could not find the exact text in '' @ path @ js ''.''),
                [],
                js ''Closest match ('' @ percent (fm_confidence c) @ js ''% similar) at line '' @ nat_str (fm_start_line c) @ js '':'',
                js ''  - '' @ oldLine,
                js ''  + '' @ newLine,
                hint])"

definition formatOccurrenceError :: "jstr \<Rightarrow> match_outcome \<Rightarrow> jstr" where
  "formatOccurrenceError path out =
     (let n = (case mo_occurrences out of Some n \<Rightarrow> nat_str n | None \<Rightarrow> js ''undefined'');
          previews = (case mo_occurrence_previews out of Some ps \<Rightarrow> join_with [10, 10] ps | None \<Rightarrow> []);
          moreMsg = (if mo_occurrences out \<noteq> None \<and> the (mo_occurrences out) > MAX_RECORDED_MATCHES
                     then js '' (showing first '' @ nat_str MAX_RECORDED_MATCHES @ js '' of '' @ n @ js '')'' else [])
      in js ''Found '' @ n @ js '' occurrences in '' @ path @ moreMsg @ [58, 10, 10] @ previews @
         [10, 10] @ js ''Add more context lines to disambiguate.'')"

section \<open>Calls\<close>

record replace_entry =
  rn_old_text :: jstr
  rn_new_text :: jstr
  rn_all :: "bool option"

text \<open>The settings of a call, the budget of the matcher, and the check of a path for generated files.\<close>

record replace_config =
  rc_maxUnits :: nat
  rc_allowFuzzy :: bool
  rc_fuzzyThreshold :: rat
  rc_fileGuard :: "jstr \<Rightarrow> jstr option \<Rightarrow> bool"

definition replaced_text :: "jstr \<Rightarrow> nat \<Rightarrow> jstr" where
  "replaced_text path count =
     (if count > 1 then js ''Successfully replaced '' @ nat_str count @ js '' occurrences in '' @ path @ js ''.''
      else js ''Successfully replaced text in '' @ path @ js ''.'')"

text \<open>One replacement in the content of a file, with the text that reports it.\<close>

definition replace_in_content ::
  "replace_config \<Rightarrow> jstr \<Rightarrow> jstr \<Rightarrow> replace_entry \<Rightarrow> (replace_error + jstr \<times> jstr) option" where
  "replace_in_content C path normalizedContent entry =
     (let normalizedOldText = normalizeToLF (rn_old_text entry);
          normalizedNewText = normalizeToLF (rn_new_text entry)
      in case replaceText (rc_maxUnits C) normalizedContent normalizedOldText normalizedNewText
             \<lparr>ro_fuzzy = rc_allowFuzzy C, ro_all = (case rn_all entry of Some b \<Rightarrow> b | None \<Rightarrow> False),
              ro_threshold = Some (rc_fuzzyThreshold C)\<rparr> of
           None \<Rightarrow> None
         | Some (Inl err) \<Rightarrow> Some (Inl err)
         | Some (Inr (content, count)) \<Rightarrow>
             if count = 0
             then (let out = edit_find_match (rc_maxUnits C) normalizedContent normalizedOldText (rc_allowFuzzy C)
                         (Some (rc_fuzzyThreshold C))
                   in if mo_occurrences out \<noteq> None \<and> the (mo_occurrences out) > 1
                      then Some (Inl (Occurrences (formatOccurrenceError path out)))
                      else Some (Inl (Match_failed (EditMatchError_formatMessage path normalizedOldText (mo_closest out) (rc_allowFuzzy C)
                             (rc_fuzzyThreshold C) (mo_fuzzy_matches out)))))
             else if normalizedContent = content then Some (Inl (Call_error (No_changes path)))
             else Some (Inr (content, replaced_text path count)))"

definition executeReplaceSingleUnderLock ::
  "replace_config \<Rightarrow> 's exec_env \<Rightarrow> 's world \<Rightarrow> jstr \<Rightarrow> jstr \<Rightarrow> replace_entry
    \<Rightarrow> ((replace_error + jstr) \<times> 's world) option" where
  "executeReplaceSingleUnderLock C E w path absolutePath entry =
     (case w_files w absolutePath of
        None \<Rightarrow> Some (Inl (Call_error (File_not_found path)), w)
      | Some raw \<Rightarrow>
          if ee_contentGuard E raw path \<or> rc_fileGuard C absolutePath (w_files w absolutePath)
          then Some (Inl (Call_error (Auto_generated path)), w)
          else
            let b = stripBom raw;
                originalEnding = detectLineEnding (bom_text b);
                normalizedContent = normalizeToLF (bom_text b)
            in case replace_in_content C path normalizedContent entry of
                 None \<Rightarrow> None
               | Some (Inl err) \<Rightarrow> Some (Inl err, w)
               | Some (Inr (content, resultText)) \<Rightarrow>
                   let finalContent = bom b @ restoreLineEndings content originalEnding
                   in Some (Inr resultText, w\<lparr>w_files := (w_files w)(absolutePath \<mapsto> ee_written E absolutePath finalContent)\<rparr>))"

definition executeReplaceSingle ::
  "replace_config \<Rightarrow> 's exec_env \<Rightarrow> 's world \<Rightarrow> jstr \<Rightarrow> replace_entry \<Rightarrow> ((replace_error + jstr) \<times> 's world) option" where
  "executeReplaceSingle C E w path entry =
     (case enforcePlanModeWrite E path None None of
        Inl err \<Rightarrow> Some (Inl (Call_error err), w)
      | Inr _ \<Rightarrow>
          if length (rn_old_text entry) = 0 then Some (Inl Old_text_empty, w)
          else (case resolvePlanPath E path of
                  Inl err \<Rightarrow> Some (Inl (Call_error err), w)
                | Inr absolutePath \<Rightarrow>
                    if rc_fileGuard C absolutePath (w_files w absolutePath)
                    then Some (Inl (Call_error (Auto_generated path)), w)
                    else executeReplaceSingleUnderLock C E w path absolutePath entry))"

fun replace_entries ::
  "replace_config \<Rightarrow> 's exec_env \<Rightarrow> jstr \<Rightarrow> jstr \<Rightarrow> replace_entry list \<Rightarrow> (replace_error + jstr \<times> jstr list) option" where
  "replace_entries C E path content [] = Some (Inr (content, []))"
| "replace_entries C E path content (entry # edits) =
     (case replace_in_content C path content entry of
        None \<Rightarrow> None
      | Some (Inl err) \<Rightarrow> Some (Inl err)
      | Some (Inr (content', t)) \<Rightarrow>
          if edits \<noteq> [] \<and> ee_contentGuard E content' path then Some (Inl (Call_error (Auto_generated path)))
          else (case replace_entries C E path content' edits of
                  None \<Rightarrow> None
                | Some (Inl err) \<Rightarrow> Some (Inl err)
                | Some (Inr (result, ts)) \<Rightarrow> Some (Inr (result, t # ts))))"

definition executeReplaceEntriesUnderLock ::
  "replace_config \<Rightarrow> 's exec_env \<Rightarrow> 's world \<Rightarrow> jstr \<Rightarrow> jstr \<Rightarrow> replace_entry list
    \<Rightarrow> ((replace_error + jstr) \<times> 's world) option" where
  "executeReplaceEntriesUnderLock C E w path absolutePath edits =
     (case w_files w absolutePath of
        None \<Rightarrow> Some (Inl (Call_error (File_not_found path)), w)
      | Some raw \<Rightarrow>
          if ee_contentGuard E raw path \<or> rc_fileGuard C absolutePath (w_files w absolutePath)
          then Some (Inl (Call_error (Auto_generated path)), w)
          else
            let b = stripBom raw;
                originalEnding = detectLineEnding (bom_text b)
            in case replace_entries C E path (normalizeToLF (bom_text b)) edits of
                 None \<Rightarrow> None
               | Some (Inl err) \<Rightarrow> Some (Inl err, w)
               | Some (Inr (content, texts)) \<Rightarrow>
                   let finalContent = bom b @ restoreLineEndings content originalEnding
                   in Some (Inr (join_with [10] texts),
                        w\<lparr>w_files := (w_files w)(absolutePath \<mapsto> ee_written E absolutePath finalContent)\<rparr>))"

text \<open>With several replacements an error is the result of the call; with one it is thrown.\<close>

datatype replace_outcome =
    Replaced jstr
  | Reported jstr replace_error

definition report_error :: "jstr \<Rightarrow> (replace_error + jstr) \<times> 's world \<Rightarrow> (replace_error + replace_outcome) \<times> 's world" where
  "report_error path = map_prod (\<lambda>r. Inr (case r of Inl err \<Rightarrow> Reported path err | Inr t \<Rightarrow> Replaced t)) id"

definition executeReplaceEntries ::
  "replace_config \<Rightarrow> 's exec_env \<Rightarrow> 's world \<Rightarrow> jstr \<Rightarrow> replace_entry list
    \<Rightarrow> ((replace_error + replace_outcome) \<times> 's world) option" where
  "executeReplaceEntries C E w path edits =
     (case edits of
        [] \<Rightarrow> Some (Inl Edits_empty, w)
      | [only] \<Rightarrow> map_option (map_prod (map_sum id Replaced) id) (executeReplaceSingle C E w path only)
      | _ \<Rightarrow>
          map_option (report_error path)
            (case enforcePlanModeWrite E path None None of
               Inl err \<Rightarrow> Some (Inl (Call_error err), w)
             | Inr _ \<Rightarrow>
                 if list_ex (\<lambda>entry. length (rn_old_text entry) = 0) edits then Some (Inl Old_text_empty, w)
                 else (case resolvePlanPath E path of
                         Inl err \<Rightarrow> Some (Inl (Call_error err), w)
                       | Inr absolutePath \<Rightarrow> executeReplaceEntriesUnderLock C E w path absolutePath edits)))"

section \<open>Exact occurrences\<close>

lemma str_split_none: "index_of pat s = None \<Longrightarrow> str_split pat s = [s]"
  by (simp add: str_split.simps [of pat s])

lemma str_split_some:
  "pat \<noteq> [] \<Longrightarrow> index_of pat s = Some i \<Longrightarrow> str_split pat s = take i s # str_split pat (drop (i + length pat) s)"
  by (simp add: str_split.simps [of pat s])

lemma str_split_not_Nil [simp]: "str_split pat s \<noteq> []"
  by (subst str_split.simps) (simp split: option.split)

lemma join_str_split: "join_with pat (str_split pat s) = s"
proof (induction pat s rule: str_split.induct)
  case (1 pat s)
  show ?case
  proof (cases "pat = [] \<or> index_of pat s = None")
    case True
    then show ?thesis by (auto simp: str_split.simps [of pat s])
  next
    case False
    then obtain i where i: "pat \<noteq> []" "index_of pat s = Some i" by auto
    have "s = take i s @ pat @ drop (i + length pat) s"
      using index_of_Some [OF i(2)] by (metis append_take_drop_id drop_drop add.commute)
    then show ?thesis using "1.IH" [OF i] by (simp add: str_split_some [OF i] join_with_Cons)
  qed
qed

text \<open>The native search and the split find the same occurrences.\<close>

lemma str_split_indices:
  assumes "pat \<noteq> []"
  shows "str_split pat (drop start s) =
    (case exact_indices s pat start of
       [] \<Rightarrow> [drop start s]
     | i # _ \<Rightarrow> take (i - start) (drop start s) # str_split pat (drop (i + length pat) s))"
proof (cases "index_of pat (drop start s)")
  case None
  then show ?thesis by (simp add: str_split_none exact_indices_none)
next
  case (Some r)
  have "start \<le> length s - length pat" using index_of_Some [OF Some] assms by (cases pat) auto
  then show ?thesis
    using assms by (simp add: str_split_some [OF assms Some] exact_indices_some [OF conjI Some] add.commute add.left_commute)
qed

lemma exact_indices_Cons:
  assumes "exact_indices s pat start = i # is"
  shows "exact_indices s pat (i + length pat) = is"
proof -
  have "i \<in> set (exact_indices s pat start)" using assms by simp
  then obtain r where r: "pat \<noteq> [] \<and> start \<le> length s - length pat" "index_of pat (drop start s) = Some r"
    by (rule exact_indices_cases)
  from exact_indices_some [OF r] assms show ?thesis by simp
qed

lemma str_split_length:
  assumes "pat \<noteq> []"
  shows "length (str_split pat (drop start s)) = Suc (length (exact_indices s pat start))"
proof (induction "exact_indices s pat start" arbitrary: start)
  case Nil
  then show ?case using str_split_indices [OF assms, of start s] by simp
next
  case (Cons i "is")
  from Cons.hyps(1) [OF exact_indices_Cons [OF Cons.hyps(2) [symmetric], symmetric]]
  show ?case
    using str_split_indices [OF assms, of start s] Cons.hyps(2) [symmetric] exact_indices_Cons [OF Cons.hyps(2) [symmetric]]
    by simp
qed

lemma find_match_by_count:
  assumes "t \<noteq> []" "\<not> over_fuzzy_budget B c t"
  shows "exact_indices c t 0 = [i] \<Longrightarrow> edit_find_match B c t allow th =
      no_match\<lparr>mo_matched := Some \<lparr>fm_actual_text = t, fm_start_index = i, fm_start_line = line_at c i, fm_confidence = 1\<rparr>\<rparr>"
    and "1 < length (exact_indices c t 0) \<Longrightarrow>
      mo_occurrences (edit_find_match B c t allow th) = Some (length (exact_indices c t 0))"
    and "exact_indices c t 0 = [] \<Longrightarrow> mo_occurrences (edit_find_match B c t allow th) = None \<and>
      (\<not> allow \<longrightarrow> mo_matched (edit_find_match B c t allow th) = None)"
proof -
  have e: "edit_find_match B c t allow th = find_match c t allow th []" using assms(2) by (simp add: edit_find_match_def)
  show "edit_find_match B c t allow th =
      no_match\<lparr>mo_matched := Some \<lparr>fm_actual_text = t, fm_start_index = i, fm_start_line = line_at c i, fm_confidence = 1\<rparr>\<rparr>"
    if "exact_indices c t 0 = [i]"
    unfolding e using assms(1) that by (simp add: find_match_def find_exact_match_outcome_def overlaps_excluded_def)
  show "mo_occurrences (edit_find_match B c t allow th) = Some (length (exact_indices c t 0))"
    if "1 < length (exact_indices c t 0)"
    unfolding e using assms(1) that
    by (cases "exact_indices c t 0")
      (simp_all add: find_match_def find_exact_match_outcome_def overlaps_excluded_def Let_def no_match_def)
  show "mo_occurrences (edit_find_match B c t allow th) = None \<and>
      (\<not> allow \<longrightarrow> mo_matched (edit_find_match B c t allow th) = None)" if "exact_indices c t 0 = []"
    unfolding e using assms(1) that exact_outcome_None [of c t]
    by (auto simp: find_match_def no_match_def Let_def split: option.splits)
qed

lemma replace_loop_no_match:
  "mo_matched (edit_find_match B c t False (Some th)) = None \<Longrightarrow> replace_loop B False th t n c k = Some (c, k)"
  by (simp add: replace_loop.simps [of B False th t n c k] loop_match_def)

lemma normalizeToLF_Nil [simp]: "normalizeToLF s = [] \<longleftrightarrow> s = []"
  by (cases s) auto

lemma adjustIndentation_same [simp]: "adjustIndentation t t n = n"
  by (simp add: adjustIndentation_def)

lemma replace_by_count:
  fixes content oldText newText :: jstr
  defines "c \<equiv> normalizeToLF content" and "t \<equiv> normalizeToLF oldText" and "n \<equiv> normalizeToLF newText"
  defines "pieces \<equiv> str_split t c"
  assumes "oldText \<noteq> []" "length c \<le> B" "length t \<le> B"
  shows "join_with t pieces = c"
    and "length pieces > 1 \<longrightarrow>
      replaceText B content oldText newText (opts\<lparr>ro_all := True\<rparr>) = Some (Inr (join_with n pieces, length pieces - 1))"
    and "length pieces = 2 \<longrightarrow>
      replaceText B content oldText newText (opts\<lparr>ro_all := False\<rparr>) = Some (Inr (join_with n pieces, 1))"
    and "length pieces > 2 \<longrightarrow>
      (\<exists>msg. replaceText B content oldText newText (opts\<lparr>ro_all := False\<rparr>) = Some (Inl (Occurrences msg)))"
    and "length pieces = 1 \<and> \<not> ro_fuzzy opts \<longrightarrow>
      replaceText B content oldText newText (opts\<lparr>ro_all := a\<rparr>) = Some (Inr (c, 0))"
proof -
  have t: "t \<noteq> []" using assms by simp
  have b: "\<not> over_fuzzy_budget B c t" using assms by (simp add: over_fuzzy_budget_def)
  note find = find_match_by_count [OF t b]
  have len: "length pieces = Suc (length (exact_indices c t 0))"
    using str_split_length [OF t, of 0 c] by (simp add: pieces_def)
  show "join_with t pieces = c" unfolding pieces_def by (rule join_str_split)
  show "length pieces > 1 \<longrightarrow>
      replaceText B content oldText newText (opts\<lparr>ro_all := True\<rparr>) = Some (Inr (join_with n pieces, length pieces - 1))"
    using assms(5) by (auto simp: replaceText_def Let_def c_def t_def n_def pieces_def)
  show "length pieces = 2 \<longrightarrow>
      replaceText B content oldText newText (opts\<lparr>ro_all := False\<rparr>) = Some (Inr (join_with n pieces, 1))"
  proof
    assume "length pieces = 2"
    then obtain i where i: "exact_indices c t 0 = [i]" using len by (auto simp: length_Suc_conv)
    have "pieces = [take i c, drop (i + length t) c]"
      using str_split_indices [OF t, of 0 c] str_split_indices [OF t, of "i + length t" c] exact_indices_Cons [OF i] i
      by (simp add: pieces_def)
    then show "replaceText B content oldText newText (opts\<lparr>ro_all := False\<rparr>) = Some (Inr (join_with n pieces, 1))"
      using assms(5) find(1) [OF i] by (simp add: replaceText_def Let_def no_match_def flip: c_def t_def n_def)
  qed
  show "length pieces > 2 \<longrightarrow>
      (\<exists>msg. replaceText B content oldText newText (opts\<lparr>ro_all := False\<rparr>) = Some (Inl (Occurrences msg)))"
    using assms(5) find(2) len by (auto simp: replaceText_def Let_def simp flip: c_def t_def n_def)
  show "length pieces = 1 \<and> \<not> ro_fuzzy opts \<longrightarrow>
      replaceText B content oldText newText (opts\<lparr>ro_all := a\<rparr>) = Some (Inr (c, 0))"
    using assms(5) find(3) len
    by (auto simp: replaceText_def Let_def pieces_def replace_loop_no_match simp flip: c_def t_def n_def)
qed

text \<open>C17: the text between the occurrences of the old text is kept, and joining the pieces with it gives back the
  content.  Replacing all joins the pieces with the new text; replacing one does the same when there is exactly one
  occurrence, is refused when there are more, and without fuzzy matching a text that does not occur is left alone
  with count 0.\<close>

theorem replace_exact:
  assumes "oldText \<noteq> []" "length (normalizeToLF content) \<le> B" "length (normalizeToLF oldText) \<le> B"
    "pieces = str_split (normalizeToLF oldText) (normalizeToLF content)"
  shows "join_with (normalizeToLF oldText) pieces = normalizeToLF content \<and>
    (length pieces > 1 \<longrightarrow> replaceText B content oldText newText (opts\<lparr>ro_all := True\<rparr>) =
       Some (Inr (join_with (normalizeToLF newText) pieces, length pieces - 1))) \<and>
    (length pieces = 2 \<longrightarrow> replaceText B content oldText newText (opts\<lparr>ro_all := False\<rparr>) =
       Some (Inr (join_with (normalizeToLF newText) pieces, 1))) \<and>
    (length pieces > 2 \<longrightarrow>
       (\<exists>msg. replaceText B content oldText newText (opts\<lparr>ro_all := False\<rparr>) = Some (Inl (Occurrences msg)))) \<and>
    (length pieces = 1 \<and> \<not> ro_fuzzy opts \<longrightarrow>
       replaceText B content oldText newText (opts\<lparr>ro_all := a\<rparr>) = Some (Inr (normalizeToLF content, 0)))"
  unfolding assms(4) by (intro conjI replace_by_count [OF assms(1-3)])

theorem replace_exact_witness:
  "replaceText 100 (js ''xay'') (js ''a'') (js ''b'') \<lparr>ro_fuzzy = False, ro_all = False, ro_threshold = None\<rparr> =
     Some (Inr (js ''xby'', 1))"
proof -
  have "str_split (normalizeToLF (js ''a'')) (normalizeToLF (js ''xay'')) = [js ''x'', js ''y'']"
    by (simp add: js_eval str_split.simps)
  then show ?thesis
    using replace_exact [of "js ''a''" "js ''xay''" 100 "[js ''x'', js ''y'']" "js ''b''"
        "\<lparr>ro_fuzzy = False, ro_all = False, ro_threshold = None\<rparr>" False]
    by (simp add: js_eval)
qed

section \<open>What a call writes\<close>

definition final_content :: "jstr \<Rightarrow> jstr \<Rightarrow> jstr" where
  "final_content raw content = bom (stripBom raw) @ restoreLineEndings content (detectLineEnding (bom_text (stripBom raw)))"

text \<open>A call either changes nothing or writes the result of all its replacements to the file it names.\<close>

definition wrote :: "replace_config \<Rightarrow> 's exec_env \<Rightarrow> 's world \<Rightarrow> jstr \<Rightarrow> jstr \<Rightarrow> replace_entry list \<Rightarrow> 's world \<Rightarrow> bool" where
  "wrote C E w path absolutePath es w' \<longleftrightarrow>
     (\<exists>raw content ts. w_files w absolutePath = Some raw \<and>
        replace_entries C E path (normalizeToLF (bom_text (stripBom raw))) es = Some (Inr (content, ts)) \<and>
        w' = w\<lparr>w_files := (w_files w)(absolutePath \<mapsto> ee_written E absolutePath (final_content raw content))\<rparr>)"

lemma replace_entries_one:
  "replace_in_content C path c entry = Some (Inr (c', t)) \<Longrightarrow> replace_entries C E path c [entry] = Some (Inr (c', [t]))"
  by simp

lemma single_lock_wrote:
  assumes "executeReplaceSingleUnderLock C E w path p entry = Some (r, w')"
  shows "(\<exists>err. r = Inl err) \<and> w' = w \<or> (\<exists>t. r = Inr t) \<and> wrote C E w path p [entry] w'"
  using assms unfolding executeReplaceSingleUnderLock_def
  by (auto simp: Let_def wrote_def final_content_def split: option.splits if_splits sum.splits)

lemma entries_lock_wrote:
  assumes "executeReplaceEntriesUnderLock C E w path p es = Some (r, w')"
  shows "(\<exists>err. r = Inl err) \<and> w' = w \<or> (\<exists>t. r = Inr t) \<and> wrote C E w path p es w'"
  using assms unfolding executeReplaceEntriesUnderLock_def
  by (auto simp: Let_def wrote_def final_content_def split: option.splits if_splits sum.splits)

text \<open>What a call comes to once the plan-mode guard and the path are settled.\<close>

definition settled :: "replace_config \<Rightarrow> 's exec_env \<Rightarrow> 's world \<Rightarrow> jstr \<Rightarrow> replace_entry list \<Rightarrow> replace_error + jstr \<Rightarrow> 's world \<Rightarrow> bool" where
  "settled C E w path es r w' \<longleftrightarrow>
     (\<exists>err. r = Inl err) \<and> w' = w \<or>
     (\<exists>absolutePath t. r = Inr t \<and> resolvePlanPath E path = Inr absolutePath \<and> wrote C E w path absolutePath es w' \<and>
        (\<forall>plan. ee_planFile E = Some plan \<longrightarrow> resolvePlanPath E plan = Inr absolutePath))"

lemma plan_path:
  "enforcePlanModeWrite E path None None = Inr u \<Longrightarrow> resolvePlanPath E path = Inr p \<Longrightarrow> ee_planFile E = Some plan \<Longrightarrow>
     resolvePlanPath E plan = Inr p"
  by (auto simp: enforcePlanModeWrite_def and_then_Inr split: if_splits)

lemma settled_guarded:
  assumes "(case enforcePlanModeWrite E path None None of
       Inl err \<Rightarrow> Some (Inl (Call_error err), w)
     | Inr _ \<Rightarrow>
         if bad then Some (Inl Old_text_empty, w)
         else (case resolvePlanPath E path of
                 Inl err \<Rightarrow> Some (Inl (Call_error err), w)
               | Inr p \<Rightarrow> locked p)) = Some (r, w')"
    and "\<And>p. locked p = Some (r, w') \<Longrightarrow> (\<exists>err. r = Inl err) \<and> w' = w \<or> (\<exists>t. r = Inr t) \<and> wrote C E w path p es w'"
  shows "settled C E w path es r w'"
proof (cases "enforcePlanModeWrite E path None None")
  case (Inl err)
  then show ?thesis using assms(1) by (auto simp: settled_def)
next
  case (Inr u)
  note plan = plan_path [OF Inr]
  show ?thesis
  proof (cases bad)
    case True
    then show ?thesis using assms(1) Inr by (auto simp: settled_def)
  next
    case False
    show ?thesis
    proof (cases "resolvePlanPath E path")
      case (Inl err)
      then show ?thesis using assms(1) Inr False by (auto simp: settled_def)
    next
      case p: (Inr p)
      with assms(1) Inr False have "locked p = Some (r, w')" by simp
      from assms(2) [OF this] show ?thesis using plan [OF p] p by (auto simp: settled_def)
    qed
  qed
qed

lemma executeReplaceSingle_settled:
  "executeReplaceSingle C E w path e = Some (r, w') \<Longrightarrow> settled C E w path [e] r w'"
  unfolding executeReplaceSingle_def
  by (erule settled_guarded) (auto split: if_splits dest!: single_lock_wrote)


definition demo_config :: replace_config where
  "demo_config = \<lparr>rc_maxUnits = 100, rc_allowFuzzy = False, rc_fuzzyThreshold = 95 / 100, rc_fileGuard = (\<lambda>_ _. False)\<rparr>"

definition demo_replace_entry :: replace_entry where
  "demo_replace_entry = \<lparr>rn_old_text = js ''x'', rn_new_text = js ''z'', rn_all = Some True\<rparr>"

lemma demo_replace: "replace_in_content demo_config p (js ''x'') demo_replace_entry = Some (Inr (js ''z'', replaced_text p 1))"
  by (simp add: replace_in_content_def demo_config_def demo_replace_entry_def replaceText_def js_eval str_split.simps Let_def)

lemma demo_call:
  "\<exists>t w'. executeReplaceEntries demo_config (demo_env None) demo_world (js ''a'') [demo_replace_entry] = Some (Inr (Replaced t), w')"
  using demo_replace
  by (simp add: executeReplaceEntries_def executeReplaceSingle_def executeReplaceSingleUnderLock_def
      enforcePlanModeWrite_def resolvePlanPath_def resolveRawPath_def demo_env_def demo_world_def demo_config_def
      demo_replace_entry_def js_eval stripBom_def)


section \<open>Replacing all fuzzy matches\<close>

text \<open>The old text differs from the line in a run of spaces, and the new text is the line with a line added.\<close>

definition grown :: "nat \<Rightarrow> jstr" where
  "grown k = js ''a b'' @ concat (replicate k [10, 99])"

definition spaced :: jstr where "spaced = js ''a  b''"
definition added :: jstr where "added = js ''a b'' @ [10] @ js ''c''"

lemma grown_lines: "split_on 10 (grown k) = js ''a b'' # replicate k [99]"
proof -
  have "split_on 10 (concat (replicate k [10, 99])) = [] # replicate k [99]"
    by (induction k) (simp_all)
  then show ?thesis by (simp add: grown_def js_eval)
qed

lemma spaced_absent: "\<nexists>a b. grown k = a @ spaced @ b"
proof
  assume "\<exists>a b. grown k = a @ spaced @ b"
  then obtain a b where e: "grown k = a @ spaced @ b" by blast
  have "count_list (grown k) 32 = 1"
  proof -
    have "count_list (concat (replicate k [10, 99 :: nat])) 32 = 0" by (induction k) simp_all
    then show ?thesis by (simp add: grown_def js_eval)
  qed
  moreover have "count_list (a @ spaced @ b) 32 \<ge> 2" by (simp add: spaced_def js_eval)
  ultimately show False using e by simp
qed

lemma spaced_scores:
  assumes "cl = js ''a b'' # replicate k [99]"
  shows "score_windows cl [spaced] d 0 = 1" "0 < j \<Longrightarrow> j \<le> k \<Longrightarrow> score_windows cl [spaced] d j < 95 / 100"
proof -
  show "score_windows cl [spaced] d 0 = 1"
    unfolding score_windows_similarity assms spaced_def
    by (simp add: js_eval normalized_lines_def prepare_line_def relative_indent_depths_def write_normalized_line_def
      min_or_def normalize_for_fuzzy_def trim_def trimStart_def trimEnd_def is_ws_def Js_Prelude.slice_def similarity_one)
  assume j: "0 < j" "j \<le> k"
  have s: "Js_Prelude.slice j (j + length [spaced]) (map prepare_line cl) = [prepare_line [99]]"
    using j by (cases j) (simp_all add: assms Js_Prelude.slice_def take_Suc)
  show "score_windows cl [spaced] d j < 95 / 100"
    unfolding score_windows_similarity s unfolding spaced_def
    by (cases d) (simp_all add: js_eval normalized_lines_def prepare_line_def relative_indent_depths_def write_normalized_line_def
      min_or_def normalize_for_fuzzy_def trim_def trimStart_def trimEnd_def is_ws_def similarity_def levenshteinDistance_lev)
qed

lemma grown_match:
  assumes "length (grown k) \<le> B" "4 \<le> B"
  shows "\<exists>m. edit_find_match B (grown k) spaced True (Some (95 / 100)) = no_match\<lparr>mo_matched := Some m, mo_closest := Some m\<rparr> \<and>
    fm_actual_text m = js ''a b'' \<and> fm_start_index m = 0"
proof -
  define cl where "cl = split_on 10 (grown k)"
  have cl: "cl = js ''a b'' # replicate k [99]" unfolding cl_def by (rule grown_lines)
  have ts: "split_on 10 spaced = [spaced]" by (simp add: spaced_def js_eval)
  define f where "f = score_windows cl [spaced] True"
  define r where "r = best_fuzzy_match_core cl [spaced] (95 / 100) True []"
  have f0: "f 0 = 1" and fj: "0 < j \<Longrightarrow> j \<le> k \<Longrightarrow> f j < 95 / 100" for j
    unfolding f_def using spaced_scores [OF cl] by blast+
  have starts: "[0..<length cl - length [spaced] + 1] = 0 # [Suc 0..<Suc k]" by (simp add: cl upt_conv_Cons del: upt_Suc)
  have "best_so_far cl 1 f (95 / 100) (0 # [Suc 0..<Suc k]) r"
    using core_best [of cl "[spaced]" True "95 / 100" "[]"] unfolding starts f_def r_def by simp
  moreover have "filter (\<lambda>j. f j \<ge> 95 / 100) [Suc 0..<Suc k] = []"
    unfolding filter_empty_conv
  proof
    fix j
    assume "j \<in> set [Suc 0..<Suc k]"
    then show "\<not> f j \<ge> 95 / 100" using fj [of j] by (simp only: set_upt atLeastLessThan_iff not_le Suc_le_eq less_Suc_eq_le)
  qed
  ultimately obtain i where above: "bm_above_threshold_count r = 1" and best: "bm_best r = Some (window_match cl 1 f i)"
    and i: "i \<in> set (0 # [Suc 0..<Suc k])" "f 0 \<le> f i"
    unfolding best_so_far_def by (auto simp: f0 simp del: upt_Suc split: option.splits)
  have "i = 0" using i fj [of i] f0 by (cases "i = 0") auto
  then have m: "bm_best r = Some (window_match cl 1 f 0)" "fm_confidence (window_match cl 1 f 0) = 1"
    using best f0 by (simp_all add: window_match_def)
  define th :: rat where "th = 95 / 100"
  have th: "\<not> 1 < th" by (simp add: th_def)
  have sp: "spaced \<noteq> []" "\<not> length [spaced] > length cl" by (simp_all add: spaced_def cl js_eval)
  have fuzzy: "best_fuzzy_match (grown k) spaced th [] = r"
    unfolding best_fuzzy_match_def cl_def [symmetric] ts Let_def th_def r_def [symmetric]
    unfolding th_def [symmetric] using m sp th by simp
  have exact: "find_exact_match_outcome (grown k) spaced [] = None"
    unfolding exact_outcome_None using exact_indices_Nil_iff [OF sp(1), of "grown k"] spaced_absent by blast
  have "\<not> over_fuzzy_budget B (grown k) spaced" using assms by (simp add: over_fuzzy_budget_def spaced_def js_eval)
  then have "edit_find_match B (grown k) spaced True (Some (95 / 100)) =
      no_match\<lparr>mo_matched := Some (window_match cl 1 f 0), mo_closest := Some (window_match cl 1 f 0)\<rparr>"
    unfolding th_def [symmetric] using exact fuzzy above m sp th by (simp add: edit_find_match_def find_match_def Let_def)
  then show ?thesis
    by (intro exI [of _ "window_match cl 1 f 0"])
      (simp add: window_match_def cl Js_Prelude.slice_def line_offsets_def)
qed

lemma added_text: "adjustIndentation spaced (js ''a b'') added = added" "added \<noteq> js ''a b''"
  by (simp_all add: spaced_def added_def js_eval adjustIndentation_def isIndentationOnlyRewrite_def buildIndentProfile_def
      hasNonEmptyIndentProfiles_def hasMixedIndentation_def chars_differ_def computeUniformIndentDelta_def indent_deltas_def
      profile_step_def Let_def isNonEmptyLine_def trim_def trimStart_def trimEnd_def is_ws_def getLeadingWhitespace_def)

lemma grown_step:
  assumes "length (grown k) \<le> B" "4 \<le> B"
  shows "replace_loop B True (95 / 100) spaced added (grown k) n = replace_loop B True (95 / 100) spaced added (grown (Suc k)) (n + 1)"
proof -
  obtain m where "edit_find_match B (grown k) spaced True (Some (95 / 100)) = no_match\<lparr>mo_matched := Some m, mo_closest := Some m\<rparr>"
    and m: "fm_actual_text m = js ''a b''" "fm_start_index m = 0"
    using grown_match [OF assms] by blast
  then have "loop_match True (95 / 100) (edit_find_match B (grown k) spaced True (Some (95 / 100))) = Some m"
    by (simp only: loop_match_def Let_def) simp
  moreover have "added @ drop (length (js ''a b'')) (grown k) = grown (Suc k)"
    by (simp add: added_def grown_def js_eval)
  ultimately show ?thesis
    using added_text by (subst replace_loop.simps) (simp only: option.case Let_def m take_0 append_Nil add_0 if_False)
qed

lemma grown_over:
  assumes "length (grown k) > B"
  shows "replace_loop B True (95 / 100) spaced added (grown k) n = Some (grown k, n)"
  using assms by (subst replace_loop.simps) (simp add: edit_find_match_def over_fuzzy_budget_def no_match_def loop_match_def)

lemma grown_length: "length (grown k) = 3 + 2 * k"
  unfolding grown_def by (induction k) (simp_all add: js_eval)

lemma grown_loop:
  assumes "4 \<le> B"
  shows "\<exists>k n. replace_loop B True (95 / 100) spaced added (grown j) i = Some (grown k, n) \<and> length (grown k) > B"
proof (induction "B - length (grown j)" arbitrary: j i rule: less_induct)
  case less
  show ?case
  proof (cases "length (grown j) \<le> B")
    case True
    have "B - length (grown (Suc j)) < B - length (grown j) \<or> length (grown (Suc j)) > B"
      using True by (auto simp: grown_length)
    then show ?thesis
    proof
      assume "B - length (grown (Suc j)) < B - length (grown j)"
      from less [OF this, of "i + 1"] show ?thesis unfolding grown_step [OF True assms] .
    next
      assume "length (grown (Suc j)) > B"
      then show ?thesis unfolding grown_step [OF True assms] using grown_over by blast
    qed
  next
    case False
    then show ?thesis using grown_over [of B j i] by auto
  qed
qed

text \<open>C38: replacing all with fuzzy matching replaces what it has just inserted.  When the old text differs from a line only
  in a run of spaces and the new text is that line with one line added, each pass matches the line again and adds the
  line again; the loop ends only when the text has grown past the budget of the matcher, whatever the budget is.\<close>

theorem replace_all_grows:
  assumes "4 \<le> B"
  shows "\<exists>result n. replaceText B (js ''a b'') (js ''a  b'') (js ''a b'' @ [10] @ js ''c'')
    \<lparr>ro_fuzzy = True, ro_all = True, ro_threshold = None\<rparr> = Some (Inr (result, n)) \<and> length result > B"
proof -
  have n: "normalizeToLF (js ''a b'') = grown 0" "normalizeToLF (js ''a  b'') = spaced"
    "normalizeToLF (js ''a b'' @ [10] @ js ''c'') = added" "js ''a  b'' \<noteq> []"
    by (simp_all add: js_eval grown_def spaced_def added_def)
  have "str_split spaced (grown 0) = [grown 0]"
    using spaced_absent [of 0] by (intro str_split_none) (simp add: index_of_None)
  with grown_loop [OF assms, of 0 0] show ?thesis
    using n(4) unfolding replaceText_def n(1-3) Let_def DEFAULT_FUZZY_THRESHOLD_def by auto
qed

theorem replace_all_grows_witness:
  "\<exists>result n. replaceText (16 * 1024 * 1024) (js ''a b'') (js ''a  b'') (js ''a b'' @ [10] @ js ''c'')
    \<lparr>ro_fuzzy = True, ro_all = True, ro_threshold = None\<rparr> = Some (Inr (result, n)) \<and> length result > 16 * 1024 * 1024"
  by (rule replace_all_grows) simp

end
