(* ===== verification/Path_Lock.thy ===== *)
theory Path_Lock
  imports Js_Prelude "HOL-Library.List_Lexorder"
begin

text \<open>
  The coordinator that serialises edits of the same path (\<open>edit/path-mutation-lock.ts\<close>).  A call locks all its
  paths in order, runs, and unlocks them in the opposite order; a mutex queues the calls that wait for it and
  is handed from one to the next.  The calls run interleaved: a step relation moves one call from one
  suspension point to the next.  The lock file between processes is an outcome of the environment: taking it
  succeeds or fails, and a failure unwinds the call.  \<open>path.resolve\<close> is a parameter.

  Shown: two calls never run at the same time when they share a path, no reachable state is stuck, every
  sequence of steps is finite, and when all calls have ended every mutex is free.
\<close>

section \<open>Mutexes\<close>

type_synonym call = nat

record async_mutex =
  am_locked :: bool
  am_waiters :: "call list"

definition createAsyncMutex :: async_mutex where
  "createAsyncMutex = \<lparr>am_locked = False, am_waiters = []\<rparr>"

text \<open>Whether the mutex is granted at once; otherwise the call is queued.\<close>

definition acquire :: "async_mutex \<Rightarrow> call \<Rightarrow> bool \<times> async_mutex" where
  "acquire m c =
     (if \<not> am_locked m then (True, m\<lparr>am_locked := True\<rparr>) else (False, m\<lparr>am_waiters := am_waiters m @ [c]\<rparr>))"

text \<open>The call that is woken, if any; the mutex stays locked for it.\<close>

definition release :: "async_mutex \<Rightarrow> call option \<times> async_mutex" where
  "release m =
     (case am_waiters m of
        nxt # rest \<Rightarrow> (Some nxt, m\<lparr>am_waiters := rest\<rparr>)
      | [] \<Rightarrow> (None, m\<lparr>am_locked := False\<rparr>))"

section \<open>Calls\<close>

text \<open>The places where a call is suspended: before taking lock \<open>i\<close>, in the queue of lock \<open>i\<close>, with lock \<open>i\<close> taken
  and its lock file still to take, inside \<open>fn\<close>, and with \<open>k\<close> locks to give back.\<close>

datatype call_phase =
    Start nat
  | Waiting nat
  | Locked nat
  | Running
  | Unlock nat
  | Finished

record lock_state =
  pathMutexes :: "jstr \<Rightarrow> async_mutex option"
  phases :: "call \<Rightarrow> call_phase"

definition mutexFor :: "(jstr \<Rightarrow> jstr) \<Rightarrow> lock_state \<Rightarrow> jstr \<Rightarrow> async_mutex" where
  "mutexFor resolve s absolutePath =
     (case pathMutexes s (resolve absolutePath) of Some mutex \<Rightarrow> mutex | None \<Rightarrow> createAsyncMutex)"

definition set_mutex :: "(jstr \<Rightarrow> jstr) \<Rightarrow> jstr \<Rightarrow> async_mutex \<Rightarrow> lock_state \<Rightarrow> lock_state" where
  "set_mutex resolve absolutePath mutex s = s\<lparr>pathMutexes := (pathMutexes s)(resolve absolutePath \<mapsto> mutex)\<rparr>"

definition set_phase :: "call \<Rightarrow> call_phase \<Rightarrow> lock_state \<Rightarrow> lock_state" where
  "set_phase c ph s = s\<lparr>phases := (phases s)(c := ph)\<rparr>"

definition lock_order :: "(jstr \<Rightarrow> jstr) \<Rightarrow> jstr list \<Rightarrow> jstr list" where
  "lock_order resolve absolutePaths = sort (remdups (map resolve absolutePaths))"

text \<open>The calls are given by their paths and by whether they take lock files.\<close>

inductive lock_step :: "(jstr \<Rightarrow> jstr) \<Rightarrow> (call \<Rightarrow> jstr list) \<Rightarrow> (call \<Rightarrow> bool) \<Rightarrow> lock_state \<Rightarrow> lock_state \<Rightarrow> bool"
  for resolve :: "jstr \<Rightarrow> jstr" and paths :: "call \<Rightarrow> jstr list" and crossProcess :: "call \<Rightarrow> bool" where
  run_fn: "phases s c = Start i \<Longrightarrow> i \<ge> length (lock_order resolve (paths c)) \<Longrightarrow>
     lock_step resolve paths crossProcess s (set_phase c Running s)"
| granted: "phases s c = Start i \<Longrightarrow> i < length (lock_order resolve (paths c)) \<Longrightarrow> target = lock_order resolve (paths c) ! i \<Longrightarrow>
     acquire (mutexFor resolve s target) c = (True, m) \<Longrightarrow>
     lock_step resolve paths crossProcess s (set_phase c (Locked i) (set_mutex resolve target m s))"
| queued: "phases s c = Start i \<Longrightarrow> i < length (lock_order resolve (paths c)) \<Longrightarrow> target = lock_order resolve (paths c) ! i \<Longrightarrow>
     acquire (mutexFor resolve s target) c = (False, m) \<Longrightarrow>
     lock_step resolve paths crossProcess s (set_phase c (Waiting i) (set_mutex resolve target m s))"
| file_locked: "phases s c = Locked i \<Longrightarrow>
     lock_step resolve paths crossProcess s (set_phase c (Start (i + 1)) s)"
| file_refused: "phases s c = Locked i \<Longrightarrow> crossProcess c \<Longrightarrow>
     lock_step resolve paths crossProcess s (set_phase c (Unlock (i + 1)) s)"
| settled: "phases s c = Running \<Longrightarrow>
     lock_step resolve paths crossProcess s (set_phase c (Unlock (length (lock_order resolve (paths c)))) s)"
| handed_over: "phases s c = Unlock (Suc k) \<Longrightarrow> target = lock_order resolve (paths c) ! k \<Longrightarrow>
     release (mutexFor resolve s target) = (Some d, m) \<Longrightarrow> phases s d = Waiting j \<Longrightarrow>
     lock_step resolve paths crossProcess s (set_phase c (Unlock k) (set_phase d (Locked j) (set_mutex resolve target m s)))"
| freed: "phases s c = Unlock (Suc k) \<Longrightarrow> target = lock_order resolve (paths c) ! k \<Longrightarrow>
     release (mutexFor resolve s target) = (None, m) \<Longrightarrow>
     lock_step resolve paths crossProcess s (set_phase c (Unlock k) (set_mutex resolve target m s))"
| ended: "phases s c = Unlock 0 \<Longrightarrow>
     lock_step resolve paths crossProcess s (set_phase c Finished s)"

text \<open>The calls below \<open>n\<close> have been made, nothing has run yet.\<close>

definition initial :: "nat \<Rightarrow> lock_state" where
  "initial n = \<lparr>pathMutexes = Map.empty, phases = (\<lambda>c. if c < n then Start 0 else Finished)\<rparr>"

section \<open>Who holds and who waits\<close>

definition held :: "jstr list \<Rightarrow> call_phase \<Rightarrow> jstr list" where
  "held L ph =
     (case ph of Start i \<Rightarrow> take i L | Waiting i \<Rightarrow> take i L | Locked i \<Rightarrow> take (Suc i) L
      | Running \<Rightarrow> L | Unlock k \<Rightarrow> take k L | Finished \<Rightarrow> [])"

definition call_phase_ok :: "jstr list \<Rightarrow> call_phase \<Rightarrow> bool" where
  "call_phase_ok L ph =
     (case ph of Start i \<Rightarrow> i \<le> length L | Waiting i \<Rightarrow> i < length L | Locked i \<Rightarrow> i < length L
      | Running \<Rightarrow> True | Unlock k \<Rightarrow> k \<le> length L | Finished \<Rightarrow> True)"

definition waits_for :: "jstr list \<Rightarrow> call_phase \<Rightarrow> jstr \<Rightarrow> bool" where
  "waits_for L ph q = (case ph of Waiting i \<Rightarrow> L ! i = q | _ \<Rightarrow> False)"

definition lock_inv :: "(jstr \<Rightarrow> jstr) \<Rightarrow> (call \<Rightarrow> jstr list) \<Rightarrow> lock_state \<Rightarrow> bool" where
  "lock_inv resolve paths s \<longleftrightarrow>
     (\<forall>c. call_phase_ok (lock_order resolve (paths c)) (phases s c)) \<and>
     (\<forall>c d q. q \<in> set (held (lock_order resolve (paths c)) (phases s c)) \<and>
        q \<in> set (held (lock_order resolve (paths d)) (phases s d)) \<longrightarrow> c = d) \<and>
     (\<forall>q. resolve q = q \<longrightarrow>
        am_locked (mutexFor resolve s q) = (\<exists>c. q \<in> set (held (lock_order resolve (paths c)) (phases s c))) \<and>
        distinct (am_waiters (mutexFor resolve s q)) \<and>
        set (am_waiters (mutexFor resolve s q)) = {c. waits_for (lock_order resolve (paths c)) (phases s c) q} \<and>
        (am_waiters (mutexFor resolve s q) \<noteq> [] \<longrightarrow> am_locked (mutexFor resolve s q)))"

lemma mutexFor_set_phase [simp]: "mutexFor resolve (set_phase c ph s) q = mutexFor resolve s q"
  by (simp add: mutexFor_def set_phase_def)

lemma mutexFor_set_mutex:
  "mutexFor resolve (set_mutex resolve t m s) q = (if resolve q = resolve t then m else mutexFor resolve s q)"
  by (simp add: mutexFor_def set_mutex_def)

lemma phases_set [simp]:
  "phases (set_phase c ph s) = (phases s)(c := ph)" "phases (set_mutex resolve t m s) = phases s"
  by (simp_all add: set_phase_def set_mutex_def)

lemma lock_order_sorted: "sorted_wrt (<) (lock_order resolve ps)"
  by (simp add: lock_order_def strict_sorted_iff)

lemma lock_order_distinct [simp]: "distinct (lock_order resolve ps)"
  by (simp add: lock_order_def)

lemma lock_order_set: "set (lock_order resolve ps) = resolve ` set ps"
  by (simp add: lock_order_def)

lemma lock_order_resolved:
  assumes "\<And>p. resolve (resolve p) = resolve p" "i < length (lock_order resolve ps)"
  shows "resolve (lock_order resolve ps ! i) = lock_order resolve ps ! i"
  using nth_mem [OF assms(2)] unfolding lock_order_set using assms(1) by auto

text \<open>What a call holds when it moves.\<close>

lemma held_simps [simp]:
  "held L (Start i) = take i L" "held L (Waiting i) = take i L" "held L (Locked i) = take (Suc i) L"
  "held L Running = L" "held L (Unlock k) = take k L" "held L Finished = []"
  by (simp_all add: held_def)

lemma call_phase_ok_simps [simp]:
  "call_phase_ok L (Start i) = (i \<le> length L)" "call_phase_ok L (Waiting i) = (i < length L)" "call_phase_ok L (Locked i) = (i < length L)"
  "call_phase_ok L Running" "call_phase_ok L (Unlock k) = (k \<le> length L)" "call_phase_ok L Finished"
  by (simp_all add: call_phase_ok_def)

lemma waits_for_simps [simp]:
  "waits_for L (Waiting i) q = (L ! i = q)" "\<not> waits_for L (Start i) q" "\<not> waits_for L (Locked i) q"
  "\<not> waits_for L Running q" "\<not> waits_for L (Unlock k) q" "\<not> waits_for L Finished q"
  by (simp_all add: waits_for_def)

lemma take_Suc_set: "i < length L \<Longrightarrow> set (take (Suc i) L) = insert (L ! i) (set (take i L))"
  by (simp add: take_Suc_conv_app_nth)

lemma next_not_held: "distinct L \<Longrightarrow> i < length L \<Longrightarrow> L ! i \<notin> set (take i L)"
  by (auto simp: in_set_conv_nth nth_eq_iff_index_eq)

text \<open>The invariant, taken apart.\<close>

lemma lock_invD:
  assumes "lock_inv resolve paths s"
  shows "call_phase_ok (lock_order resolve (paths c)) (phases s c)"
    and "q \<in> set (held (lock_order resolve (paths c)) (phases s c)) \<Longrightarrow>
      q \<in> set (held (lock_order resolve (paths d)) (phases s d)) \<Longrightarrow> c = d"
    and "resolve q = q \<Longrightarrow>
      am_locked (mutexFor resolve s q) \<longleftrightarrow> (\<exists>c. q \<in> set (held (lock_order resolve (paths c)) (phases s c)))"
    and "resolve q = q \<Longrightarrow> distinct (am_waiters (mutexFor resolve s q))"
    and "resolve q = q \<Longrightarrow>
      c \<in> set (am_waiters (mutexFor resolve s q)) \<longleftrightarrow> waits_for (lock_order resolve (paths c)) (phases s c) q"
    and "resolve q = q \<Longrightarrow> am_waiters (mutexFor resolve s q) \<noteq> [] \<Longrightarrow> am_locked (mutexFor resolve s q)"
  using assms unfolding lock_inv_def by blast+

lemma lock_inv_move:
  assumes "lock_inv resolve paths s" "call_phase_ok (lock_order resolve (paths c)) ph"
    "set (held (lock_order resolve (paths c)) ph) = set (held (lock_order resolve (paths c)) (phases s c))"
    "\<And>q. waits_for (lock_order resolve (paths c)) ph q = waits_for (lock_order resolve (paths c)) (phases s c) q"
  shows "lock_inv resolve paths (set_phase c ph s)"
proof -
  have h: "set (held (lock_order resolve (paths d)) (phases (set_phase c ph s) d)) = set (held (lock_order resolve (paths d)) (phases s d))"
    and w: "waits_for (lock_order resolve (paths d)) (phases (set_phase c ph s) d) q = waits_for (lock_order resolve (paths d)) (phases s d) q"
    and o: "call_phase_ok (lock_order resolve (paths d)) (phases (set_phase c ph s) d)" for d q
    using assms lock_invD(1) [OF assms(1)] by simp_all
  show ?thesis using assms(1) unfolding lock_inv_def h w mutexFor_set_phase using o by blast
qed

text \<open>A step that changes one mutex: the other paths are held and waited for as before.\<close>

lemma lock_inv_mutex:
  fixes resolve paths s s'
  defines "H \<equiv> \<lambda>s c. set (held (lock_order resolve (paths c)) (phases s c))"
    and "W \<equiv> \<lambda>s c. waits_for (lock_order resolve (paths c)) (phases s c)"
  assumes inv: "lock_inv resolve paths s" and t: "resolve t = t"
    and m: "\<And>q. mutexFor resolve s' q = (if resolve q = t then m else mutexFor resolve s q)"
    and ok: "\<And>c. call_phase_ok (lock_order resolve (paths c)) (phases s' c)"
    and other: "\<And>q c. q \<noteq> t \<Longrightarrow> q \<in> H s' c \<longleftrightarrow> q \<in> H s c" "\<And>q c. q \<noteq> t \<Longrightarrow> W s' c q \<longleftrightarrow> W s c q"
    and one: "\<And>c d. t \<in> H s' c \<Longrightarrow> t \<in> H s' d \<Longrightarrow> c = d"
    and locked: "am_locked m \<longleftrightarrow> (\<exists>c. t \<in> H s' c)"
    and waiters: "distinct (am_waiters m)" "\<And>c. c \<in> set (am_waiters m) \<longleftrightarrow> W s' c t" "am_waiters m \<noteq> [] \<Longrightarrow> am_locked m"
  shows "lock_inv resolve paths s'"
proof -
  have "c = d" if "q \<in> H s' c" "q \<in> H s' d" for c d q
    using that one other(1) lock_invD(2) [OF inv] unfolding H_def by (cases "q = t") auto
  moreover have "am_locked (mutexFor resolve s' q) = (\<exists>c. q \<in> H s' c) \<and> distinct (am_waiters (mutexFor resolve s' q)) \<and>
      set (am_waiters (mutexFor resolve s' q)) = {c. W s' c q} \<and>
      (am_waiters (mutexFor resolve s' q) \<noteq> [] \<longrightarrow> am_locked (mutexFor resolve s' q))" if q: "resolve q = q" for q
  proof (cases "q = t")
    case True
    then show ?thesis using locked waiters t unfolding m by auto
  next
    case False
    then have e: "mutexFor resolve s' q = mutexFor resolve s q" using q by (simp add: m)
    show ?thesis
      unfolding e using lock_invD(3-6) [OF inv q] other [OF False] unfolding H_def W_def by blast
  qed
  ultimately show ?thesis unfolding lock_inv_def H_def W_def using ok by blast
qed

lemma lock_inv_granted:
  assumes inv: "lock_inv resolve paths s" and idem: "\<And>p. resolve (resolve p) = resolve p"
    and ph: "phases s c = Start i" "i < length (lock_order resolve (paths c))" and t: "t = lock_order resolve (paths c) ! i"
    and a: "acquire (mutexFor resolve s t) c = (True, m)"
  shows "lock_inv resolve paths (set_phase c (Locked i) (set_mutex resolve t m s))"
proof -
  have rt: "resolve t = t" unfolding t by (rule lock_order_resolved [OF idem ph(2)])
  have free: "\<not> am_locked (mutexFor resolve s t)" and m: "m = (mutexFor resolve s t)\<lparr>am_locked := True\<rparr>"
    using a by (auto simp: acquire_def split: if_splits)
  have none: "t \<notin> set (held (lock_order resolve (paths d)) (phases s d))" for d
    using free lock_invD(3) [OF inv rt] by blast
  have h: "set (take (Suc i) (lock_order resolve (paths c))) = insert t (set (take i (lock_order resolve (paths c))))"
    unfolding t by (rule take_Suc_set [OF ph(2)])
  show ?thesis
  proof (rule lock_inv_mutex [OF inv rt, where m = m])
    show "t \<in> set (held (lock_order resolve (paths d)) (phases (set_phase c (Locked i) (set_mutex resolve t m s)) d)) \<Longrightarrow>
      t \<in> set (held (lock_order resolve (paths e)) (phases (set_phase c (Locked i) (set_mutex resolve t m s)) e)) \<Longrightarrow> d = e" for d e
      using none by (auto split: if_splits)
  qed (use lock_invD [OF inv] ph rt free m none h in \<open>auto simp: mutexFor_set_mutex split: if_splits\<close>)
qed

lemma lock_inv_queued:
  assumes inv: "lock_inv resolve paths s" and idem: "\<And>p. resolve (resolve p) = resolve p"
    and ph: "phases s c = Start i" "i < length (lock_order resolve (paths c))" and t: "t = lock_order resolve (paths c) ! i"
    and a: "acquire (mutexFor resolve s t) c = (False, m)"
  shows "lock_inv resolve paths (set_phase c (Waiting i) (set_mutex resolve t m s))"
proof -
  have rt: "resolve t = t" unfolding t by (rule lock_order_resolved [OF idem ph(2)])
  have taken: "am_locked (mutexFor resolve s t)"
    and m: "m = (mutexFor resolve s t)\<lparr>am_waiters := am_waiters (mutexFor resolve s t) @ [c]\<rparr>"
    using a by (auto simp: acquire_def split: if_splits)
  have new: "c \<notin> set (am_waiters (mutexFor resolve s t))" unfolding lock_invD(5) [OF inv rt] using ph by simp
  have h: "held (lock_order resolve (paths d)) (phases (set_phase c (Waiting i) (set_mutex resolve t m s)) d) =
    held (lock_order resolve (paths d)) (phases s d)" for d using ph by simp
  show ?thesis
  proof (rule lock_inv_mutex [OF inv rt, where m = m], unfold h)
    show "t \<in> set (held (lock_order resolve (paths d)) (phases s d)) \<Longrightarrow>
      t \<in> set (held (lock_order resolve (paths e)) (phases s e)) \<Longrightarrow> d = e" for d e
      by (rule lock_invD(2) [OF inv])
    show "am_locked m \<longleftrightarrow> (\<exists>d. t \<in> set (held (lock_order resolve (paths d)) (phases s d)))"
      unfolding m using lock_invD(3) [OF inv rt] by simp
  qed (use lock_invD(1,4,5) [OF inv] ph rt taken m new t in \<open>auto simp: mutexFor_set_mutex\<close>)
qed

lemma released:
  assumes inv: "lock_inv resolve paths s" and ph: "phases s c = Unlock (Suc k)"
  shows "k < length (lock_order resolve (paths c))"
    "set (take (Suc k) (lock_order resolve (paths c))) =
       insert (lock_order resolve (paths c) ! k) (set (take k (lock_order resolve (paths c))))"
    "lock_order resolve (paths c) ! k \<notin> set (take k (lock_order resolve (paths c)))"
proof -
  show k: "k < length (lock_order resolve (paths c))" using lock_invD(1) [OF inv, of c] ph by simp
  show "set (take (Suc k) (lock_order resolve (paths c))) =
       insert (lock_order resolve (paths c) ! k) (set (take k (lock_order resolve (paths c))))"
    by (rule take_Suc_set [OF k])
  show "lock_order resolve (paths c) ! k \<notin> set (take k (lock_order resolve (paths c)))"
    by (rule next_not_held [OF lock_order_distinct k])
qed

lemma lock_inv_freed:
  assumes inv: "lock_inv resolve paths s" and idem: "\<And>p. resolve (resolve p) = resolve p"
    and ph: "phases s c = Unlock (Suc k)" and t: "t = lock_order resolve (paths c) ! k"
    and r: "release (mutexFor resolve s t) = (None, m)"
  shows "lock_inv resolve paths (set_phase c (Unlock k) (set_mutex resolve t m s))"
proof -
  note k = released [OF inv ph, folded t]
  have rt: "resolve t = t" unfolding t by (rule lock_order_resolved [OF idem k(1)])
  have w: "am_waiters (mutexFor resolve s t) = []" and m: "m = (mutexFor resolve s t)\<lparr>am_locked := False\<rparr>"
    using r by (auto simp: release_def split: list.splits)
  have none: "\<not> waits_for (lock_order resolve (paths d)) (phases s d) t" for d
    using lock_invD(5) [OF inv rt, of d] w by simp
  have own: "d = c" if "t \<in> set (held (lock_order resolve (paths d)) (phases s d))" for d
    using that ph k(2) by (intro lock_invD(2) [OF inv that]) simp
  have ok: "k \<le> length (lock_order resolve (paths c))" using k(1) by simp
  show ?thesis
    by (rule lock_inv_mutex [OF inv rt, where m = m])
      (use lock_invD(1) [OF inv] ph rt w m none own k(2,3) ok in \<open>auto simp: mutexFor_set_mutex split: if_splits\<close>)
qed

lemma lock_inv_handed_over:
  assumes inv: "lock_inv resolve paths s" and idem: "\<And>p. resolve (resolve p) = resolve p"
    and ph: "phases s c = Unlock (Suc k)" and t: "t = lock_order resolve (paths c) ! k"
    and r: "release (mutexFor resolve s t) = (Some d, m)" and pd: "phases s d = Waiting j"
  shows "lock_inv resolve paths (set_phase c (Unlock k) (set_phase d (Locked j) (set_mutex resolve t m s)))"
proof -
  note k = released [OF inv ph, folded t]
  have rt: "resolve t = t" unfolding t by (rule lock_order_resolved [OF idem k(1)])
  obtain rest where w: "am_waiters (mutexFor resolve s t) = d # rest" and m: "m = (mutexFor resolve s t)\<lparr>am_waiters := rest\<rparr>"
    using r by (auto simp: release_def split: list.splits)
  have dt: "lock_order resolve (paths d) ! j = t" using lock_invD(5) [OF inv rt, of d] w pd by simp
  have j: "j < length (lock_order resolve (paths d))" using lock_invD(1) [OF inv, of d] pd by simp
  have hd: "set (take (Suc j) (lock_order resolve (paths d))) = insert t (set (take j (lock_order resolve (paths d))))"
    using take_Suc_set [OF j] dt by simp
  have dc: "d \<noteq> c" using ph pd by auto
  have rest: "distinct rest" "d \<notin> set rest" using lock_invD(4) [OF inv rt] w by auto
  have own: "e = c" if "t \<in> set (held (lock_order resolve (paths e)) (phases s e))" for e
    using that ph k(2) by (intro lock_invD(2) [OF inv that]) simp
  have wait: "e \<in> set rest \<longleftrightarrow> waits_for (lock_order resolve (paths e)) (phases s e) t \<and> e \<noteq> d" for e
    using lock_invD(5) [OF inv rt, of e] w rest by auto
  have taken: "am_locked (mutexFor resolve s t)" using lock_invD(6) [OF inv rt] w by simp
  have ok: "k \<le> length (lock_order resolve (paths c))" using k(1) by simp
  show ?thesis
    by (rule lock_inv_mutex [OF inv rt, where m = m])
      (use lock_invD(1) [OF inv] ph pd rt m own wait taken dc hd dt j k(2,3) ok rest in
        \<open>auto simp: mutexFor_set_mutex split: if_splits\<close>)
qed

lemma lock_inv_step:
  assumes "lock_step resolve paths cp s s'" "lock_inv resolve paths s" "\<And>p. resolve (resolve p) = resolve p"
  shows "lock_inv resolve paths s'"
  using assms(1,2)
proof (cases rule: lock_step.cases)
  case (run_fn c i)
  have "i = length (lock_order resolve (paths c))" using lock_invD(1) [OF assms(2), of c] run_fn by simp
  then show ?thesis unfolding run_fn(1) using run_fn by (intro lock_inv_move [OF assms(2)]) simp_all
next
  case (granted c i target m)
  then show ?thesis by (simp add: lock_inv_granted [OF assms(2,3)])
next
  case (queued c i target m)
  then show ?thesis by (simp add: lock_inv_queued [OF assms(2,3)])
next
  case (file_locked c i)
  then show ?thesis using lock_invD(1) [OF assms(2), of c] by (auto intro!: lock_inv_move [OF assms(2)])
next
  case (file_refused c i)
  then show ?thesis using lock_invD(1) [OF assms(2), of c] by (auto intro!: lock_inv_move [OF assms(2)])
next
  case (settled c)
  then show ?thesis by (auto intro!: lock_inv_move [OF assms(2)])
next
  case (handed_over c k target d m j)
  then show ?thesis by (simp add: lock_inv_handed_over [OF assms(2,3)])
next
  case (freed c k target m)
  then show ?thesis by (simp add: lock_inv_freed [OF assms(2,3)])
next
  case (ended c)
  then show ?thesis by (auto intro!: lock_inv_move [OF assms(2)])
qed

lemma lock_inv_initial: "lock_inv resolve paths (initial n)"
  by (auto simp: lock_inv_def initial_def mutexFor_def createAsyncMutex_def)

lemma lock_inv_reachable:
  assumes "(lock_step resolve paths cp)\<^sup>*\<^sup>* (initial n) s" "\<And>p. resolve (resolve p) = resolve p"
  shows "lock_inv resolve paths s"
  using assms(1)
proof (induction rule: rtranclp_induct)
  case base
  show ?case by (rule lock_inv_initial)
next
  case (step s s')
  then show ?case using lock_inv_step [OF step.hyps(2) step.IH assms(2)] by blast
qed

section \<open>Progress\<close>

text \<open>Every call that is not queued can move.\<close>

lemma unqueued_moves:
  assumes inv: "lock_inv resolve paths s" and idem: "\<And>p. resolve (resolve p) = resolve p"
    and "phases s c \<noteq> Finished" "\<And>i. phases s c \<noteq> Waiting i"
  shows "\<exists>s'. lock_step resolve paths cp s s'"
proof (cases "phases s c")
  case (Start i)
  show ?thesis
  proof (cases "i < length (lock_order resolve (paths c))")
    case True
    define t where "t = lock_order resolve (paths c) ! i"
    obtain b m where a: "acquire (mutexFor resolve s t) c = (b, m)" by (cases "acquire (mutexFor resolve s t) c")
    show ?thesis
    proof (cases b)
      case b: True
      then have "acquire (mutexFor resolve s t) c = (True, m)" using a by simp
      from granted [where resolve = resolve and paths = paths, OF Start True t_def this] show ?thesis by blast
    next
      case b: False
      then have "acquire (mutexFor resolve s t) c = (False, m)" using a by simp
      from queued [where resolve = resolve and paths = paths, OF Start True t_def this] show ?thesis by blast
    qed
  qed (use run_fn [OF Start] in \<open>auto simp: not_less\<close>)
next
  case (Locked i)
  then show ?thesis using file_locked by blast
next
  case Running
  then show ?thesis using settled by blast
next
  case (Unlock k)
  show ?thesis
  proof (cases k)
    case 0
    then show ?thesis using ended Unlock by blast
  next
    case (Suc k')
    note u = Unlock [unfolded Suc]
    define t where "t = lock_order resolve (paths c) ! k'"
    have rt: "resolve t = t" unfolding t_def by (rule lock_order_resolved [OF idem released(1) [OF inv u]])
    obtain w m where r: "release (mutexFor resolve s t) = (w, m)" by (cases "release (mutexFor resolve s t)")
    show ?thesis
    proof (cases w)
      case None
      then show ?thesis using freed [where resolve = resolve and paths = paths, OF u t_def r [unfolded None]] by blast
    next
      case (Some d)
      then have "d \<in> set (am_waiters (mutexFor resolve s t))" using r by (auto simp: release_def split: list.splits)
      then have "waits_for (lock_order resolve (paths d)) (phases s d) t" unfolding lock_invD(5) [OF inv rt] .
      then obtain j where "phases s d = Waiting j" by (auto simp: waits_for_def split: call_phase.splits)
      from handed_over [where resolve = resolve and paths = paths, OF u t_def r [unfolded Some] this] show ?thesis by blast
    qed
  qed
qed (use assms in auto)

text \<open>Locks are taken in order, so the call that holds the greatest path waited for is not itself waiting.\<close>

lemma lock_not_stuck:
  assumes inv: "lock_inv resolve paths s" and idem: "\<And>p. resolve (resolve p) = resolve p"
    and fin: "finite {c. phases s c \<noteq> Finished}" and "phases s c \<noteq> Finished"
  shows "\<exists>s'. lock_step resolve paths cp s s'"
proof (rule ccontr)
  assume stuck: "\<nexists>s'. lock_step resolve paths cp s s'"
  have waiting: "\<exists>i. phases s d = Waiting i" if "phases s d \<noteq> Finished" for d
    using unqueued_moves [OF inv idem that] stuck by blast
  define wanted where "wanted = (\<lambda>d. case phases s d of Waiting i \<Rightarrow> lock_order resolve (paths d) ! i | _ \<Rightarrow> [])"
  let ?W = "wanted ` {c. phases s c \<noteq> Finished}"
  have W: "finite ?W" "?W \<noteq> {}" using fin assms(4) by auto
  from Max_in [OF this] obtain d where d: "phases s d \<noteq> Finished" "wanted d = Max ?W" by auto
  from waiting [OF d(1)] obtain i where i: "phases s d = Waiting i" by blast
  define t where "t = lock_order resolve (paths d) ! i"
  have "i < length (lock_order resolve (paths d))" using lock_invD(1) [OF inv, of d] i by simp
  then have rt: "resolve t = t" unfolding t_def by (rule lock_order_resolved [OF idem])
  have "d \<in> set (am_waiters (mutexFor resolve s t))" unfolding lock_invD(5) [OF inv rt] using i by (simp add: t_def)
  then have "am_waiters (mutexFor resolve s t) \<noteq> []" by auto
  then have "am_locked (mutexFor resolve s t)" by (rule lock_invD(6) [OF inv rt])
  then obtain h where h: "t \<in> set (held (lock_order resolve (paths h)) (phases s h))" using lock_invD(3) [OF inv rt] by blast
  then have hf: "phases s h \<noteq> Finished" by auto
  from waiting [OF this] obtain j where j: "phases s h = Waiting j" by blast
  have "j < length (lock_order resolve (paths h))" using lock_invD(1) [OF inv, of h] j by simp
  moreover obtain k where "k < j" "k < length (lock_order resolve (paths h))" "lock_order resolve (paths h) ! k = t"
    using h j by (auto simp: in_set_conv_nth)
  ultimately have "t < lock_order resolve (paths h) ! j"
    using sorted_wrt_nth_less [OF lock_order_sorted [of resolve "paths h"], of k j] by simp
  moreover have "lock_order resolve (paths h) ! j \<le> Max ?W"
  proof -
    have "wanted h = lock_order resolve (paths h) ! j" using j by (simp add: wanted_def)
    then show ?thesis using Max_ge [OF W(1) imageI [of h]] hf by simp
  qed
  moreover have "Max ?W = t" using d(2) i by (simp add: wanted_def t_def)
  ultimately show False by simp
qed

section \<open>Every run ends\<close>

text \<open>How many steps a call has left at most.\<close>

definition steps_left :: "jstr list \<Rightarrow> call_phase \<Rightarrow> nat" where
  "steps_left L ph =
     (case ph of Start i \<Rightarrow> 3 * (length L - i) + length L + 3 | Waiting i \<Rightarrow> 3 * (length L - i) + length L + 2
      | Locked i \<Rightarrow> 3 * (length L - i) + length L + 1 | Running \<Rightarrow> length L + 2 | Unlock k \<Rightarrow> k + 1 | Finished \<Rightarrow> 0)"

lemma steps_left_simps [simp]:
  "steps_left L (Start i) = 3 * (length L - i) + length L + 3" "steps_left L (Waiting i) = 3 * (length L - i) + length L + 2"
  "steps_left L (Locked i) = 3 * (length L - i) + length L + 1" "steps_left L Running = length L + 2"
  "steps_left L (Unlock k) = k + 1" "steps_left L Finished = 0"
  by (simp_all add: steps_left_def)

definition total_left :: "(jstr \<Rightarrow> jstr) \<Rightarrow> (call \<Rightarrow> jstr list) \<Rightarrow> nat \<Rightarrow> lock_state \<Rightarrow> nat" where
  "total_left resolve paths n s = (\<Sum>c<n. steps_left (lock_order resolve (paths c)) (phases s c))"

lemma sum_decreases:
  fixes f g :: "nat \<Rightarrow> nat"
  assumes "c < n" "g c < f c" "\<And>d. g d \<le> f d"
  shows "(\<Sum>d<n. g d) < (\<Sum>d<n. f d)"
  using assms by (intro sum_strict_mono_ex1) auto

lemma step_moves:
  assumes "lock_step resolve paths cp s s'" "lock_inv resolve paths s"
  shows "\<exists>c. phases s c \<noteq> Finished \<and>
    steps_left (lock_order resolve (paths c)) (phases s' c) < steps_left (lock_order resolve (paths c)) (phases s c) \<and>
    (\<forall>d. steps_left (lock_order resolve (paths d)) (phases s' d) \<le> steps_left (lock_order resolve (paths d)) (phases s d)) \<and>
    (\<forall>d. phases s d = Finished \<longrightarrow> phases s' d = Finished)"
  using assms(1)
proof (cases rule: lock_step.cases)
  case (run_fn c i)
  then show ?thesis using lock_invD(1) [OF assms(2), of c] by (intro exI [of _ c]) auto
next
  case (granted c i target m)
  then show ?thesis by (intro exI [of _ c]) auto
next
  case (queued c i target m)
  then show ?thesis by (intro exI [of _ c]) auto
next
  case (file_locked c i)
  then show ?thesis using lock_invD(1) [OF assms(2), of c] by (intro exI [of _ c]) auto
next
  case (file_refused c i)
  then show ?thesis using lock_invD(1) [OF assms(2), of c] by (intro exI [of _ c]) auto
next
  case (settled c)
  then show ?thesis by (intro exI [of _ c]) auto
next
  case (handed_over c k target d m j)
  then show ?thesis by (intro exI [of _ c]) auto
next
  case (freed c k target m)
  then show ?thesis by (intro exI [of _ c]) auto
next
  case (ended c)
  then show ?thesis by (intro exI [of _ c]) auto
qed

lemma step_decreases:
  assumes "lock_step resolve paths cp s s'" "lock_inv resolve paths s" "\<forall>c\<ge>n. phases s c = Finished"
  shows "total_left resolve paths n s' < total_left resolve paths n s \<and> (\<forall>c\<ge>n. phases s' c = Finished)"
proof -
  obtain c where c: "phases s c \<noteq> Finished"
    "steps_left (lock_order resolve (paths c)) (phases s' c) < steps_left (lock_order resolve (paths c)) (phases s c)"
    "\<And>d. steps_left (lock_order resolve (paths d)) (phases s' d) \<le> steps_left (lock_order resolve (paths d)) (phases s d)"
    "\<And>d. phases s d = Finished \<Longrightarrow> phases s' d = Finished"
    using step_moves [OF assms(1,2)] by blast
  have "c < n" using c(1) assms(3) by (meson not_le)
  then show ?thesis unfolding total_left_def using c assms(3) by (auto intro: sum_decreases)
qed

lemma reachable_calls:
  assumes "(lock_step resolve paths cp)\<^sup>*\<^sup>* (initial n) s" "\<And>p. resolve (resolve p) = resolve p"
  shows "\<forall>c\<ge>n. phases s c = Finished"
  using assms(1)
proof (induction rule: rtranclp_induct)
  case base
  show ?case by (simp add: initial_def)
next
  case (step s s')
  then show ?case using step_decreases [OF step.hyps(2) lock_inv_reachable [OF step.hyps(1) assms(2)] step.IH] by blast
qed

lemma runs_to_the_end:
  assumes "lock_inv resolve paths s" "\<forall>c\<ge>n. phases s c = Finished" and idem: "\<And>p. resolve (resolve p) = resolve p"
  shows "\<exists>s'. (lock_step resolve paths cp)\<^sup>*\<^sup>* s s' \<and> (\<forall>c. phases s' c = Finished) \<and> lock_inv resolve paths s'"
  using assms(1,2)
proof (induction "total_left resolve paths n s" arbitrary: s rule: less_induct)
  case less
  show ?case
  proof (cases "\<forall>c. phases s c = Finished")
    case True
    then show ?thesis using less.prems by blast
  next
    case False
    then obtain c where "phases s c \<noteq> Finished" by blast
    have "{c. phases s c \<noteq> Finished} \<subseteq> {..<n}" using less.prems(2) by (auto simp: not_le [symmetric])
    then have "finite {c. phases s c \<noteq> Finished}" by (rule finite_subset) simp
    with lock_not_stuck [OF less.prems(1) idem _ \<open>phases s c \<noteq> Finished\<close>] obtain s1 where s1: "lock_step resolve paths cp s s1"
      by blast
    note d = step_decreases [OF s1 less.prems]
    from less.hyps [OF _ lock_inv_step [OF s1 less.prems(1) idem]] d obtain s' where
      "(lock_step resolve paths cp)\<^sup>*\<^sup>* s1 s'" "\<forall>c. phases s' c = Finished" "lock_inv resolve paths s'" by blast
    then show ?thesis using converse_rtranclp_into_rtranclp [of "lock_step resolve paths cp", OF s1] by blast
  qed
qed

lemma no_infinite_run:
  assumes "lock_inv resolve paths (f 0)" "\<forall>c\<ge>n. phases (f 0) c = Finished" and idem: "\<And>p. resolve (resolve p) = resolve p"
    and run: "\<And>i. lock_step resolve paths cp (f i) (f (Suc i))"
  shows False
proof -
  have ok: "lock_inv resolve paths (f i) \<and> (\<forall>c\<ge>n. phases (f i) c = Finished)" for i
  proof (induction i)
    case (Suc i)
    then show ?case using step_decreases [OF run] lock_inv_step [OF run _ idem] by blast
  qed (use assms in blast)
  then have "total_left resolve paths n (f (Suc i)) < total_left resolve paths n (f i)" for i
    using step_decreases [OF run] by blast
  then have "\<exists>g :: nat \<Rightarrow> nat. \<forall>i. (g (Suc i), g i) \<in> {(x, y). x < y}"
    by (intro exI [of _ "\<lambda>i. total_left resolve paths n (f i)"]) simp
  then show False using wf_less unfolding wf_iff_no_infinite_down_chain by blast
qed

section \<open>Properties\<close>

text \<open>C14: two calls that share a path, after resolving, are never inside their functions at the same time.\<close>

theorem path_locks_exclusive:
  assumes "(lock_step resolve paths cp)\<^sup>*\<^sup>* (initial n) s" "\<And>p. resolve (resolve p) = resolve p"
    and "phases s c = Running" "d \<noteq> c" "p \<in> set (paths c)" "p' \<in> set (paths d)" "resolve p = resolve p'"
  shows "phases s d \<noteq> Running"
proof
  assume r: "phases s d = Running"
  note inv = lock_inv_reachable [OF assms(1,2)]
  have "resolve p \<in> resolve ` set (paths c)" using assms(5) by (rule imageI)
  moreover have "resolve p \<in> resolve ` set (paths d)" unfolding assms(7) using assms(6) by (rule imageI)
  ultimately have "resolve p \<in> set (held (lock_order resolve (paths c)) (phases s c))"
    "resolve p \<in> set (held (lock_order resolve (paths d)) (phases s d))"
    unfolding assms(3) r held_simps lock_order_set by blast+
  from lock_invD(2) [OF inv this] show False using assms(4) by simp
qed

text \<open>C15: the locks never deadlock.  Whatever state the calls have reached, interleaved in any way and with lock files
  refused or not, no sequence of further steps is infinite, and some sequence leads to the end of all calls, with every
  mutex free and nobody queued.\<close>

theorem path_locks_live:
  assumes "(lock_step resolve paths cp)\<^sup>*\<^sup>* (initial n) s" "\<And>p. resolve (resolve p) = resolve p"
  shows "(\<nexists>f. f 0 = s \<and> (\<forall>i. lock_step resolve paths cp (f i) (f (Suc i)))) \<and>
    (\<exists>s'. (lock_step resolve paths cp)\<^sup>*\<^sup>* s s' \<and> (\<forall>c. phases s' c = Finished) \<and>
      (\<forall>q. mutexFor resolve s' (resolve q) = createAsyncMutex)) \<and>
    ((\<exists>c. phases s c \<noteq> Finished) \<longrightarrow> (\<exists>s'. lock_step resolve paths cp s s'))"
proof -
  note inv = lock_inv_reachable [OF assms] and calls = reachable_calls [OF assms]
  have "\<not> (f 0 = s \<and> (\<forall>i. lock_step resolve paths cp (f i) (f (Suc i))))" for f
    using no_infinite_run [of resolve paths f n cp] inv calls assms(2) by blast
  moreover obtain s' where s': "(lock_step resolve paths cp)\<^sup>*\<^sup>* s s'" "\<forall>c. phases s' c = Finished" "lock_inv resolve paths s'"
    using runs_to_the_end [OF inv calls assms(2)] by blast
  moreover have "mutexFor resolve s' (resolve q) = createAsyncMutex" for q
  proof -
    have "\<not> am_locked (mutexFor resolve s' (resolve q))"
      using lock_invD(3) [OF s'(3) assms(2) [of q]] s'(2) by simp
    moreover from this have "am_waiters (mutexFor resolve s' (resolve q)) = []"
      using lock_invD(6) [OF s'(3) assms(2) [of q]] by blast
    ultimately show ?thesis unfolding createAsyncMutex_def by simp
  qed
  moreover have "\<exists>s'. lock_step resolve paths cp s s'" if "phases s c \<noteq> Finished" for c
  proof -
    have "{c. phases s c \<noteq> Finished} \<subseteq> {..<n}" using calls by (auto simp: not_le [symmetric])
    then show ?thesis using lock_not_stuck [OF inv assms(2) finite_subset that] by simp
  qed
  ultimately show ?thesis by blast
qed

text \<open>Two calls on the same path, one of them named with a trailing slash.\<close>

definition drop_slash :: "jstr \<Rightarrow> jstr" where
  "drop_slash p = rev (dropWhile (\<lambda>c. c = 47) (rev p))"

definition two_calls :: "call \<Rightarrow> jstr list" where
  "two_calls c = (if c = 0 then [js ''a''] else [js ''a/''])"

lemma drop_slash_idem: "drop_slash (drop_slash p) = drop_slash p"
  by (simp add: drop_slash_def)

lemma two_calls_run:
  "\<exists>s. (lock_step drop_slash two_calls (\<lambda>_. True))\<^sup>*\<^sup>* (initial 2) s \<and> phases s 0 = Running \<and> phases s 1 = Start 0"
proof -
  let ?step = "lock_step drop_slash two_calls (\<lambda>_. True)"
  have o: "lock_order drop_slash (two_calls 0) = [js ''a'']"
    by (simp add: lock_order_def two_calls_def drop_slash_def js_eval)
  let ?s1 = "set_phase 0 (Locked 0) (set_mutex drop_slash (js ''a'') \<lparr>am_locked = True, am_waiters = []\<rparr> (initial 2))"
  have "?step (initial 2) ?s1"
    by (rule granted) (simp_all add: o initial_def mutexFor_def createAsyncMutex_def acquire_def)
  moreover have "?step ?s1 (set_phase 0 (Start (0 + 1)) ?s1)" by (rule file_locked) simp
  moreover have "?step (set_phase 0 (Start (0 + 1)) ?s1) (set_phase 0 Running (set_phase 0 (Start (0 + 1)) ?s1))"
    by (rule run_fn [of _ _ 1]) (simp_all add: o)
  ultimately have "?step\<^sup>*\<^sup>* (initial 2) (set_phase 0 Running (set_phase 0 (Start (0 + 1)) ?s1))"
    by (meson r_into_rtranclp rtranclp_trans)
  then show ?thesis by (intro exI [of _ "set_phase 0 Running (set_phase 0 (Start (0 + 1)) ?s1)"]) (simp add: initial_def)
qed

theorem path_locks_exclusive_witness:
  "\<exists>s. (lock_step drop_slash two_calls (\<lambda>_. True))\<^sup>*\<^sup>* (initial 2) s \<and> phases s 0 = Running \<and> phases s 1 \<noteq> Running"
proof -
  obtain s where s: "(lock_step drop_slash two_calls (\<lambda>_. True))\<^sup>*\<^sup>* (initial 2) s" "phases s 0 = Running"
    using two_calls_run by blast
  have "phases s 1 \<noteq> Running"
    by (rule path_locks_exclusive [OF s(1) drop_slash_idem s(2), of 1 "js ''a''" "js ''a/''"])
      (simp_all add: two_calls_def drop_slash_def js_eval)
  with s show ?thesis by blast
qed

theorem path_locks_live_witness:
  "\<exists>s'. (lock_step drop_slash two_calls (\<lambda>_. True))\<^sup>*\<^sup>* (initial 2) s' \<and> (\<forall>c. phases s' c = Finished)"
  using path_locks_live [of drop_slash two_calls "\<lambda>_. True" 2 "initial 2"] drop_slash_idem by blast

end
