(* ===== verification/Vim_Keys.thy ===== *)
theory Vim_Keys
  imports Js_Prelude
begin

text \<open>
  The keys of the vim edit mode (\<open>vim/parser.ts\<close>, and \<open>splitTokensBySequence\<close> of \<open>tools/vim.ts\<close>): key sequences are
  read into tokens, one per key, with the place each came from.  The engine that runs the tokens is not modelled.

  Shown: keys that are spelled as single characters or by name between angle brackets are read back one by one, in
  the sequence they were written in; and no sequence at all gives the key \<open><\<close>, which the engine has an operator for.
\<close>

section \<open>Tokens\<close>

record vim_key_token =
  vt_value :: jstr
  vt_display :: jstr
  vt_sequenceIndex :: nat
  vt_offset :: nat

text \<open>The message, and the token whose place is reported.\<close>

datatype vim_input_error = Vim_input_error jstr vim_key_token

definition SPECIAL_KEYS :: "(jstr \<times> jstr) list" where
  "SPECIAL_KEYS =
     [(js ''esc'', js ''Esc''), (js ''escape'', js ''Esc''), (js ''cr'', js ''CR''), (js ''enter'', js ''CR''),
      (js ''return'', js ''CR''), (js ''bs'', js ''BS''), (js ''backspace'', js ''BS''), (js ''tab'', js ''Tab''),
      (js ''c-d'', js ''C-d''), (js ''c-u'', js ''C-u''), (js ''c-r'', js ''C-r''), (js ''c-w'', js ''C-w''),
      (js ''c-o'', js ''C-o'')]"

text \<open>\<open>toLowerCase\<close>, as far as it decides a comparison with a text of ASCII characters: the Kelvin sign is the only other
  unit with an ASCII letter for its lower case.\<close>

definition lower_unit :: "nat \<Rightarrow> nat" where
  "lower_unit c = (if 65 \<le> c \<and> c \<le> 90 then c + 32 else if c = 8490 then 107 else c)"

definition normalizeSpecialKey :: "jstr \<Rightarrow> jstr option" where
  "normalizeSpecialKey raw = map_of SPECIAL_KEYS (map lower_unit (trim raw))"

definition toDisplayToken :: "jstr \<Rightarrow> jstr" where
  "toDisplayToken v = (if v = js '' '' then js ''<Space>'' else if length v = 1 then v else js ''<'' @ v @ js ''>'')"

section \<open>Reading keys\<close>

text \<open>One sequence, from an offset on.\<close>

function key_tokens :: "nat \<Rightarrow> nat \<Rightarrow> jstr \<Rightarrow> vim_input_error + vim_key_token list" where
  "key_tokens sequenceIndex offset [] = Inr []"
| "key_tokens sequenceIndex offset (char # rest) =
     (let token = (\<lambda>v d. \<lparr>vt_value = v, vt_display = d, vt_sequenceIndex = sequenceIndex, vt_offset = offset\<rparr>)
      in if char = 27 then map_sum id ((#) (token (js ''Esc'') (js ''<Esc>''))) (key_tokens sequenceIndex (offset + 1) rest)
         else if char = 13 then map_sum id ((#) (token (js ''CR'') (js ''<CR>''))) (key_tokens sequenceIndex (offset + 1) rest)
         else if char = 92 \<and> rest \<noteq> [] \<and> hd rest = 114
         then map_sum id ((#) (token (js ''CR'') [92, 114])) (key_tokens sequenceIndex (offset + 2) (tl rest))
         else if char = 92 \<and> rest \<noteq> [] \<and> hd rest = 101
         then map_sum id ((#) (token (js ''Esc'') [92, 101])) (key_tokens sequenceIndex (offset + 2) (tl rest))
         else if char = 92 \<and> rest \<noteq> [] \<and> hd rest = 110
         then map_sum id ((#) (token [10] [92, 110])) (key_tokens sequenceIndex (offset + 2) (tl rest))
         else if char = 92 \<and> rest \<noteq> [] \<and> hd rest = 116
         then map_sum id ((#) (token (js ''Tab'') [92, 116])) (key_tokens sequenceIndex (offset + 2) (tl rest))
         else if char \<noteq> 60
         then map_sum id ((#) (token [char] (toDisplayToken [char]))) (key_tokens sequenceIndex (offset + 1) rest)
         else if 62 \<notin> set rest
         then Inl (Vim_input_error (js ''Unterminated special key in sequence '' @ nat_str (sequenceIndex + 1))
                (token [char] [char]))
         else
           let rawSpecial = takeWhile (\<lambda>c. c \<noteq> 62) rest
           in case normalizeSpecialKey rawSpecial of
                None \<Rightarrow>
                  Inl (Vim_input_error (js ''Unknown special key <'' @ rawSpecial @ js ''> in sequence '' @
                      nat_str (sequenceIndex + 1)) (token rawSpecial (js ''<'' @ rawSpecial @ js ''>'')))
              | Some special \<Rightarrow>
                  map_sum id ((#) (token special (js ''<'' @ rawSpecial @ js ''>'')))
                    (key_tokens sequenceIndex (offset + length rawSpecial + 2) (drop (length rawSpecial + 1) rest)))"
  by pat_completeness auto
termination key_tokens
  by (relation "measure (\<lambda>(i, offset, s). length s)") (auto simp: less_Suc_eq_le)

declare key_tokens.simps(2) [simp del]

fun key_sequences :: "nat \<Rightarrow> jstr list \<Rightarrow> vim_input_error + vim_key_token list" where
  "key_sequences sequenceIndex [] = Inr []"
| "key_sequences sequenceIndex (sequence # sequences) =
     and_then (key_tokens sequenceIndex 0 sequence) (\<lambda>tokens.
       map_sum id ((@) tokens) (key_sequences (sequenceIndex + 1) sequences))"

definition parseKeySequences :: "jstr list \<Rightarrow> vim_input_error + vim_key_token list" where
  "parseKeySequences sequences = key_sequences 0 sequences"

definition replayTokens :: "jstr list \<Rightarrow> vim_key_token list" where
  "replayTokens vs =
     map (\<lambda>(i, v). \<lparr>vt_value = v, vt_display = toDisplayToken v, vt_sequenceIndex = 0, vt_offset = i\<rparr>) (enumerate 0 vs)"

text \<open>\<open>splitTokensBySequence\<close>: the tokens grouped by their sequence, in a map from sequence numbers to tokens.\<close>

definition splitTokensBySequence :: "jstr list \<Rightarrow> vim_input_error + (jstr \<times> vim_key_token list) list" where
  "splitTokensBySequence kbd =
     and_then (parseKeySequences kbd) (\<lambda>tokens.
       let groups = foldl (\<lambda>groups token.
             groups(vt_sequenceIndex token \<mapsto>
               (case groups (vt_sequenceIndex token) of Some ts \<Rightarrow> ts @ [token] | None \<Rightarrow> [token]))) Map.empty tokens
       in Inr (map (\<lambda>(i, sequence). (sequence, case groups i of Some ts \<Rightarrow> ts | None \<Rightarrow> [])) (enumerate 0 kbd)))"

section \<open>The missing key\<close>

lemma special_not_angle: "normalizeSpecialKey raw = Some v \<Longrightarrow> v \<noteq> [60]"
  by (auto simp: normalizeSpecialKey_def SPECIAL_KEYS_def js_eval split: if_splits)

lemma map_sum_Inr: "map_sum id f r = Inr b \<longleftrightarrow> (\<exists>a. r = Inr a \<and> b = f a)"
  by (cases r) auto

lemma key_tokens_first:
  assumes "key_tokens i k (c # rest) = Inr ts"
  shows "\<exists>t k' s' ts'. ts = t # ts' \<and> vt_value t \<noteq> [60] \<and> length s' \<le> length rest \<and> key_tokens i k' s' = Inr ts'"
proof (cases "c = 60")
  case True
  with assms show ?thesis unfolding key_tokens.simps(2) Let_def
    by (auto simp: map_sum_Inr dest!: special_not_angle split: if_splits option.splits)
      (metis diff_le_self length_drop)
next
  case False
  have step: "\<exists>t k' s' ts'. ts = t # ts' \<and> vt_value t \<noteq> [60] \<and> length s' \<le> length rest \<and> key_tokens i k' s' = Inr ts'"
    if "key_tokens i k (c # rest) = map_sum id ((#) t) (key_tokens i k' s')" "vt_value t \<noteq> [60]" "length s' \<le> length rest" for t k' s'
    using that assms map_sum_Inr [of "(#) t" "key_tokens i k' s'" ts] by auto
  consider "c = 27" | "c = 13" | n rest' where "c = 92" "rest = n # rest'" "n = 114 \<or> n = 101 \<or> n = 110 \<or> n = 116"
    | "c \<noteq> 27" "c \<noteq> 13" "\<not> (c = 92 \<and> rest \<noteq> [] \<and> (hd rest = 114 \<or> hd rest = 101 \<or> hd rest = 110 \<or> hd rest = 116))"
    by (cases rest) auto
  then show ?thesis
  proof cases
    case 1
    then show ?thesis by (intro step) ((simp add: key_tokens.simps(2) js_Cons)+)
  next
    case 2
    then show ?thesis by (intro step) ((simp add: key_tokens.simps(2) js_Cons)+)
  next
    case 3
    then show ?thesis by (elim disjE; intro step) ((simp add: key_tokens.simps(2) js_Cons)+)
  next
    case 4
    then show ?thesis using False by (intro step) (auto simp: key_tokens.simps(2))
  qed
qed

lemma key_tokens_no_angle: "key_tokens i k s = Inr ts \<Longrightarrow> t \<in> set ts \<Longrightarrow> vt_value t \<noteq> [60]"
proof (induction s arbitrary: k ts rule: length_induct)
  case (1 s)
  show ?case
  proof (cases s)
    case (Cons c rest)
    with key_tokens_first 1(2) obtain t' k' s' ts' where
      "ts = t' # ts'" "vt_value t' \<noteq> [60]" "length s' \<le> length rest" "key_tokens i k' s' = Inr ts'" by metis
    then show ?thesis using 1(1,3) Cons by (auto simp: less_Suc_eq_le)
  qed (use 1 in simp)
qed

lemma key_sequences_no_angle: "key_sequences i ss = Inr ts \<Longrightarrow> t \<in> set ts \<Longrightarrow> vt_value t \<noteq> [60]"
  by (induction ss arbitrary: i ts) (auto simp: and_then_Inr map_sum_Inr, blast dest: key_tokens_no_angle)

text \<open>C40: No key sequences give the key \<open><\<close>.  The parser takes every \<open><\<close> for the start of a named key, and no named key
  stands for it, so the operator that shifts lines to the left, which the engine has and the documentation of the tool
  lists for visual mode, cannot be typed.\<close>

theorem outdent_unreachable:
  assumes "parseKeySequences sequences = Inr tokens" and "token \<in> set tokens"
  shows "vt_value token \<noteq> js ''<''"
  using assms key_sequences_no_angle by (auto simp: parseKeySequences_def js_Cons)

lemma demo_keys:
  "parseKeySequences [js ''>j'', js ''<Esc>''] =
     Inr [\<lparr>vt_value = js ''>'', vt_display = js ''>'', vt_sequenceIndex = 0, vt_offset = 0\<rparr>,
       \<lparr>vt_value = js ''j'', vt_display = js ''j'', vt_sequenceIndex = 0, vt_offset = 1\<rparr>,
       \<lparr>vt_value = js ''Esc'', vt_display = js ''<Esc>'', vt_sequenceIndex = 1, vt_offset = 0\<rparr>]"
proof -
  have "normalizeSpecialKey (js ''Esc'') = Some (js ''Esc'')"
    by (simp add: normalizeSpecialKey_def SPECIAL_KEYS_def js_Cons lower_unit_def trim_def trimStart_def trimEnd_Cons is_ws_def)
  then show ?thesis by (simp add: parseKeySequences_def key_tokens.simps(2) js_Cons toDisplayToken_def Let_def)
qed

theorem outdent_unreachable_witness:
  "\<exists>tokens. parseKeySequences [js ''>j'', js ''<Esc>''] = Inr tokens \<and> hd tokens \<in> set tokens \<and> vt_value (hd tokens) \<noteq> js ''<''"
  using outdent_unreachable [OF demo_keys list.set_intros(1)] demo_keys by simp

text \<open>The blank is displayed under a name, and listed under it in the documentation, that the parser does not know.\<close>

theorem space_unknown:
  "parseKeySequences [vt_display (hd (replayTokens [js '' '']))] =
     Inl (Vim_input_error (js ''Unknown special key <Space> in sequence 1'')
       \<lparr>vt_value = js ''Space'', vt_display = js ''<Space>'', vt_sequenceIndex = 0, vt_offset = 0\<rparr>)"
proof -
  have "normalizeSpecialKey (js ''Space'') = None"
    by (simp add: normalizeSpecialKey_def SPECIAL_KEYS_def js_Cons lower_unit_def trim_def trimStart_def trimEnd_Cons is_ws_def)
  moreover have "nat_str 1 = [49]" by (simp add: js_eval)
  ultimately show ?thesis
    by (simp add: replayTokens_def enumerate_simps parseKeySequences_def key_tokens.simps(2) js_Cons toDisplayToken_def Let_def)
qed

section \<open>Keys read back\<close>

text \<open>A key is spelled as it is when it is one character, and between angle brackets when it has a name.\<close>

definition spell :: "jstr \<Rightarrow> jstr" where
  "spell v = (if length v = 1 then v else js ''<'' @ v @ js ''>'')"

definition key_value :: "jstr \<Rightarrow> bool" where
  "key_value v \<longleftrightarrow> v \<in> set (map snd SPECIAL_KEYS) \<or> (\<exists>c. v = [c] \<and> c \<notin> {27, 13, 60, 92})"

definition spell_all :: "jstr list \<Rightarrow> jstr" where
  "spell_all vs = concat (map spell vs)"

lemma special_key_spelled:
  assumes "v \<in> set (map snd SPECIAL_KEYS)"
  shows "normalizeSpecialKey v = Some v" "62 \<notin> set v" "length v \<noteq> 1"
proof -
  have "list_all (\<lambda>v. map_of SPECIAL_KEYS (map lower_unit v) = Some v \<and> trim v = v \<and> 62 \<notin> set v \<and> length v \<noteq> 1)
      (map snd SPECIAL_KEYS)"
    unfolding SPECIAL_KEYS_def by (simp add: js_Cons lower_unit_def trim_def trimStart_def trimEnd_Cons is_ws_def)
  then show "normalizeSpecialKey v = Some v" "62 \<notin> set v" "length v \<noteq> 1"
    using assms unfolding list_all_iff normalizeSpecialKey_def by metis+
qed

lemma key_tokens_spelled:
  assumes "key_value v"
  shows "\<exists>t. vt_value t = v \<and> vt_sequenceIndex t = i \<and> vt_offset t = k \<and>
    key_tokens i k (spell v @ s) = map_sum id ((#) t) (key_tokens i (k + length (spell v)) s)"
proof (cases "v \<in> set (map snd SPECIAL_KEYS)")
  case True
  note sp = special_key_spelled [OF True]
  have "takeWhile (\<lambda>c. c \<noteq> 62) (v @ 62 # s) = v" using sp(2) by (subst takeWhile_append2) auto
  then show ?thesis using sp
    by (intro exI [of _ "\<lparr>vt_value = v, vt_display = js ''<'' @ v @ js ''>'', vt_sequenceIndex = i, vt_offset = k\<rparr>"])
      (simp add: spell_def js_Cons key_tokens.simps(2) Let_def)
next
  case False
  then obtain c where "v = [c]" "c \<notin> {27, 13, 60, 92}" using assms by (auto simp: key_value_def)
  then show ?thesis
    by (intro exI [of _ "\<lparr>vt_value = v, vt_display = toDisplayToken v, vt_sequenceIndex = i, vt_offset = k\<rparr>"])
      (simp add: spell_def key_tokens.simps(2) Let_def)
qed

lemma key_tokens_spell_all:
  "list_all key_value vs \<Longrightarrow>
   \<exists>ts. key_tokens i k (spell_all vs) = Inr ts \<and> map vt_value ts = vs \<and> (\<forall>t \<in> set ts. vt_sequenceIndex t = i)"
proof (induction vs arbitrary: k)
  case (Cons v vs)
  then obtain t where t: "vt_value t = v" "vt_sequenceIndex t = i"
      "key_tokens i k (spell v @ spell_all vs) = map_sum id ((#) t) (key_tokens i (k + length (spell v)) (spell_all vs))"
    using key_tokens_spelled [of v i k "spell_all vs"] by auto
  obtain ts where "key_tokens i (k + length (spell v)) (spell_all vs) = Inr ts" "map vt_value ts = vs"
      "\<forall>t \<in> set ts. vt_sequenceIndex t = i"
    using Cons by (auto simp del: map_eq_conv)
  with t show ?case by (auto simp: spell_all_def)
qed (simp add: spell_all_def)

lemma key_sequences_spelled:
  "list_all (list_all key_value) vss \<Longrightarrow>
   \<exists>tss. key_sequences i (map spell_all vss) = Inr (concat tss) \<and> map (map vt_value) tss = vss \<and>
     (\<forall>j < length tss. \<forall>t \<in> set (tss ! j). vt_sequenceIndex t = i + j)"
proof (induction vss arbitrary: i)
  case (Cons vs vss)
  obtain ts where ts: "key_tokens i 0 (spell_all vs) = Inr ts" "map vt_value ts = vs" "\<forall>t \<in> set ts. vt_sequenceIndex t = i"
    using key_tokens_spell_all [of vs i 0] Cons.prems by auto
  obtain tss where tss: "key_sequences (i + 1) (map spell_all vss) = Inr (concat tss)" "map (map vt_value) tss = vss"
      "\<forall>j < length tss. \<forall>t \<in> set (tss ! j). vt_sequenceIndex t = i + 1 + j"
    using Cons.IH [of "i + 1"] Cons.prems by auto
  have "\<forall>j < length (ts # tss). \<forall>t \<in> set ((ts # tss) ! j). vt_sequenceIndex t = i + j"
    using ts(3) tss(3) by (simp add: nth_Cons split: nat.splits)
  with ts tss show ?case by (intro exI [of _ "ts # tss"]) simp
qed simp

lemma groups_filter:
  "foldl (\<lambda>groups token. groups(vt_sequenceIndex token \<mapsto>
      (case groups (vt_sequenceIndex token) of Some ts \<Rightarrow> ts @ [token] | None \<Rightarrow> [token]))) Map.empty tokens i =
   (let g = filter (\<lambda>t. vt_sequenceIndex t = i) tokens in if g = [] then None else Some g)"
  by (induction tokens rule: rev_induct) (auto simp: Let_def split: option.splits if_splits)

lemma filter_indexed:
  assumes "\<forall>j < length tss. \<forall>t \<in> set (tss ! j). vt_sequenceIndex t = k + j" and "i < length tss"
  shows "filter (\<lambda>t. vt_sequenceIndex t = k + i) (concat tss) = tss ! i"
  using assms
proof (induction tss arbitrary: k i)
  case (Cons ts tss)
  have hd: "\<forall>t \<in> set ts. vt_sequenceIndex t = k" using Cons.prems(1) [rule_format, of 0] by simp
  have rest: "\<forall>j < length tss. \<forall>t \<in> set (tss ! j). vt_sequenceIndex t = Suc k + j"
    using Cons.prems(1) [rule_format, of "Suc j" for j] by simp
  show ?case
  proof (cases i)
    case 0
    have "vt_sequenceIndex t \<noteq> k" if m: "ts' \<in> set tss" "t \<in> set ts'" for t ts'
    proof -
      obtain j where "j < length tss" "ts' = tss ! j" using m(1) by (auto simp: in_set_conv_nth)
      then show ?thesis using rest m(2) by simp
    qed
    then have "filter (\<lambda>t. vt_sequenceIndex t = k) (concat tss) = []" by (auto simp: filter_empty_conv)
    then show ?thesis using hd 0 by (simp add: filter_id_conv)
  next
    case (Suc i')
    have "filter (\<lambda>t. vt_sequenceIndex t = k + i) ts = []" using hd Suc by (auto simp: filter_empty_conv)
    then show ?thesis using Cons.IH [OF rest, of i'] Cons.prems(2) Suc by simp
  qed
qed simp

text \<open>Keys typed as characters or by name are read back one by one, each group from the sequence it was written in.
  Left out are the characters with a meaning of their own: the escape and return characters, the backslash and \<open><\<close>.\<close>

theorem keys_read_back:
  assumes "list_all (list_all key_value) vss"
  shows "\<exists>tss. splitTokensBySequence (map spell_all vss) = Inr (zip (map spell_all vss) tss) \<and> map (map vt_value) tss = vss"
proof -
  obtain tss where tss: "key_sequences 0 (map spell_all vss) = Inr (concat tss)" "map (map vt_value) tss = vss"
      "\<forall>j < length tss. \<forall>t \<in> set (tss ! j). vt_sequenceIndex t = 0 + j"
    using key_sequences_spelled [OF assms, of 0] by blast
  have len: "length tss = length vss" using tss(2) by (metis length_map)
  have group: "(case if filter (\<lambda>t. vt_sequenceIndex t = i) (concat tss) = [] then None
        else Some (filter (\<lambda>t. vt_sequenceIndex t = i) (concat tss)) of Some ts \<Rightarrow> ts | None \<Rightarrow> []) = tss ! i"
    if "i < length tss" for i using filter_indexed [OF tss(3) that] by simp
  have "map (\<lambda>(i, sequence). (sequence, case if filter (\<lambda>t. vt_sequenceIndex t = i) (concat tss) = [] then None
        else Some (filter (\<lambda>t. vt_sequenceIndex t = i) (concat tss)) of Some ts \<Rightarrow> ts | None \<Rightarrow> []))
      (enumerate 0 (map spell_all vss)) = zip (map spell_all vss) tss"
    by (rule nth_equalityI) (simp_all add: len nth_enumerate_eq group)
  then have "splitTokensBySequence (map spell_all vss) = Inr (zip (map spell_all vss) tss)"
    unfolding splitTokensBySequence_def parseKeySequences_def tss(1) Let_def groups_filter by simp
  with tss(2) show ?thesis by blast
qed

end
