(* ===== verification/Spec2Isabelle.thy ===== *)
theory Spec2Isabelle
  imports Hashline_Effects Hashline_Recovery Hashline_Input Fallback_Chain Attempt_Scope Vim_Buffer
    Conflict_Detect Calculator Hashline_Prefixes Text_Normalize Hashline_Execute
    Append_Only_Context Replace_Mode Path_Lock Diff_Hunks Vim_Keys
begin

text \<open>
  A verification library for gajae-code, a coding agent written in TypeScript with native parts in Rust.  The agent runs a loop that
  sends a conversation to a model and executes the tools the model calls.  Modelled here are the parts
  whose correctness decides what happens to a user's files and to a running turn: the \<^emph>\<open>hashline\<close> edit tool
  from its input text to the files it writes, the read cache and the three-way recovery behind it, the text
  normalisation of all edit tools, the replace edit mode with the native text matcher it calls, the reader of
  diff hunks, the locks that keep edits of one path apart, the buffer and the keys of the vim edit mode,
  merge-conflict detection and resolution, the calculator tool, the controller that walks a chain of fallback
  models, the authority that decides which attempt of a turn is current, and the append-only context that keeps
  the prompt of a session stable.  Paths below are under \<open>src/packages/coding-agent/src\<close> unless they start with
  \<open>agent/\<close> (a package) or \<open>crates/\<close>.

  \<^bold>\<open>Conventions.\<close>  A JavaScript string is a list of UTF-16 code units (\<open>jstr\<close>); a thrown error is the left
  side of a sum; a \<open>Map\<close> is an association list in insertion order, a \<open>Set\<close> a list without duplicates; a
  record passed and returned is the state of an object; object identity is modelled only where the code
  depends on it (the edits that \<open>applyHashlineEdits\<close> rewrites in place, the shared snapshots of the read
  cache).  Numbers that the code uses as counts are \<open>nat\<close>, differences are \<open>int\<close>: counts of lines and
  characters stay below \<open>2 ^ 53\<close>; a line number written with more digits is read exactly here and rounded by
  JavaScript, and names no line of any file either way.  Definitions keep the names of the source; a loop body is
  a definition of its own.  Regular expressions are data, run by a backtracking matcher.

  \<^bold>\<open>The edit tool.\<close>  \<open>splitHashlineInputs\<close> cuts the input into sections, one per file;
  \<open>executeHashlineSingle\<close> merges sections of one path, checks them all and then runs them; a section is
  parsed into edits (\<open>parseHashline\<close>), which \<open>applyHashlineEdits\<close> checks against the file and splices
  into it; stale edits are replayed on a cached snapshot and merged (\<open>tryRecoverHashlineWithCache\<close>).

  \<^item> \<open>Js_Prelude\<close>: strings, splitting and joining, trimming, decimal printing, \<open>splice\<close>, error
    composition; the locale \<open>invariant_object\<close> (an invariant kept by every call holds after every run),
    interpreted for the read cache, the fallback controller, the attempt authority, the vim buffer and the
    conflict history; and the locale \<open>guarded_object\<close>, which asks this of allowed calls only, interpreted for the
    append-only context.
  \<^item> \<open>Js_Regex\<close>: patterns, the matcher, composition of first matches, and the language of a pattern, from
    which refusals are proved.
  \<^item> \<open>Hashline_Hash\<close> (\<open>hashline/hash.ts\<close>, \<open>bigrams.json\<close>): line identifiers; the locale \<open>line_hasher\<close>
    states what the other parts rely on and is interpreted on \<open>computeLineHash\<close>.
  \<^item> \<open>Hashline_Types\<close> (\<open>hashline/types.ts\<close>, \<open>constants.ts\<close>): anchors, cursors, edits, errors.
  \<^item> \<open>Hashline_Anchors\<close> (\<open>hashline/anchors.ts\<close>): reading an anchor, checking it, relocation hints and the
    two messages of a rejection.  Shown: anchors the read tool prints are read back; a hint is given
    exactly when it is unambiguous.
  \<^item> \<open>Hashline_Parser\<close>, \<open>Hashline_Script\<close> (\<open>hashline/parser.ts\<close>): the script parser, and a printer for
    scripts.  Shown: parsing a printed script gives its edits back; no accepted edit names a line by its number
    alone.
  \<^item> \<open>Hashline_Absorb\<close>, \<open>Hashline_Apply\<close>, \<open>Hashline_Effects\<close> (\<open>hashline/apply.ts\<close>): repair of payloads that
    repeat their surroundings, anchor validation, bucketing and bottom-up splicing.  Shown: the bottom-up
    splicing refines a top-down reference; edits apply exactly when all anchors are fresh; lines that no edit
    names survive in order; the reported first changed line is sound; the exact effect of a replacement; and
    that overlapping repairs lose lines.
  \<^item> \<open>File_Read_Cache\<close> (\<open>edit/file-read-cache.ts\<close>): snapshots with aliasing.  Shown: its invariant under
    every run, and that a full read is read back.
  \<^item> \<open>Hashline_Recovery\<close> (\<open>hashline/recovery.ts\<close>): shown: a recovery is always vouched for by a
    snapshot; and that rewritten edits can move an insert.
  \<^item> \<open>Hashline_Input\<close> (\<open>hashline/input.ts\<close>): headers, paths, sections.  Shown: round trip of printed sections.
  \<^item> \<open>Hashline_Prefixes\<close> (\<open>hashline/prefixes.ts\<close>): stripping of echoed read output.  Shown: the loop ends on
    every line; read output echoed as a payload gives the text back.
  \<^item> \<open>Text_Normalize\<close> (\<open>edit/normalize.ts\<close>): line endings, byte order mark, indentation.  Shown: round trip,
    and that adjusting indentation never changes content.
  \<^item> \<open>Hashline_Execute\<close> (\<open>hashline/execute.ts\<close>, \<open>tools/plan-mode-guard.ts\<close>): the whole call over a file
    system.  Shown: a failed batch leaves every file as it was; in plan mode only the plan file is written.

  \<^bold>\<open>The replace mode.\<close>  \<open>executeReplaceSingle\<close> and \<open>executeReplaceEntries\<close> read a file, replace one text by another
  with \<open>replaceText\<close>, which asks the native matcher where the old text is, and write the file.

  \<^item> \<open>Levenshtein\<close> (\<open>edit/modes/replace.ts\<close>, \<open>crates/pi-edit/src/fuzzy.rs\<close>): the two row-by-row distances and the
    similarity score.  Shown: both compute the least number of edits.
  \<^item> \<open>Unit_Pattern\<close> (\<open>crates/pi-edit/src/fuzzy.rs\<close>): the bit-parallel distance on 128-bit words, with its carries and
    shifts.  Shown: it equals the distance, for every pattern the words can hold.
  \<^item> \<open>Native_Match\<close> (\<open>crates/pi-edit/src/fuzzy.rs\<close>, \<open>text.rs\<close>, \<open>crates/pi-natives/src/edit.rs\<close>): the exact and the
    fuzzy search.  Shown: a match is a piece of the content at its offset and line; a match that is accepted
    is the only exact occurrence, the only fuzzy one, or one that stands out from the second best.
  \<^item> \<open>Replace_Mode\<close> (\<open>edit/diff.ts\<close>, \<open>edit/modes/replace.ts\<close>): shown: the result of exact replacements; a call
    writes only when every replacement was found; and that replacing all fuzzy matches can match its own output
    again, growing the file.
  \<^item> \<open>Path_Lock\<close> (\<open>edit/path-mutation-lock.ts\<close>): calls as interleaved steps over shared mutexes.  Shown: two calls that
    share a path never run at once; sorted locking never deadlocks and every run ends.

  \<^bold>\<open>The other components.\<close>

  \<^item> \<open>Diff_Hunks\<close> (\<open>edit/diff.ts\<close>): the text of a diff for one file, read into hunks.  Shown: printed hunks are read
    back exactly; and that removed lines with two dashes and numbers at the start of lines are lost.
  \<^item> \<open>Vim_Keys\<close> (\<open>vim/parser.ts\<close>, \<open>tools/vim.ts\<close>): key sequences as tokens.  Shown: spelled keys are read back in
    their groups; and that no input gives the key of the shift-left operator.
  \<^item> \<open>Append_Only_Context\<close> (\<open>agent/src/append-only-context.ts\<close>): the frozen prefix and the log of messages.  Shown:
    a synchronisation leaves the log equal to the normalised history; a growing history only appends; and that
    a prompt with a colliding fingerprint is not picked up.

  \<^item> \<open>Vim_Buffer\<close> (\<open>vim/buffer.ts\<close>, \<open>vim/types.ts\<close>): every method of the buffer.  Shown: the cursor is
    always a position of the text; positions and offsets convert back and forth; replacing a range splices
    the text; snapshots.
  \<^item> \<open>Conflict_Detect\<close> (\<open>tools/conflict-detect.ts\<close>): scanner, id history, resolution.  Shown: printed blocks
    are scanned back; a scanned block can be resolved in the unchanged file; ids are stable; and a
    marker form that is reported but cannot be resolved.
  \<^item> \<open>Calculator\<close> (\<open>tools/calculator.ts\<close>): tokenizer and recursive-descent evaluator, with the mutual
    recursion shown to end; evaluating a printed expression gives the value of its tree.
  \<^item> \<open>Fallback_Chain\<close> (\<open>session/fallback-chain-controller.ts\<close>): shown: a turn whose attempts all fail ends
    after exactly the configured number of attempts; bounds on charges; its invariant.
  \<^item> \<open>Attempt_Scope\<close> (\<open>agent/src/attempt-scope.ts\<close>): shown: a live attempt is never invalidated by other
    lineages or by eviction, a dead one never comes back; and a case where the interface's promise fails.

  \<^bold>\<open>Parameters.\<close>  What is outside the sources is an argument: xxHash32 (any function), the \<open>lru-cache\<close> package
  (\<open>lru_ops\<close> with the documented laws \<open>lru_laws\<close>), \<open>structuredPatch\<close> and \<open>applyPatch\<close> of the diff
  package (\<open>diff_ops\<close>), random identifiers, the clock, IEEE arithmetic of the calculator (\<open>num_ops\<close>).  In
  \<open>Hashline_Execute\<close> and \<open>Replace_Mode\<close> path resolution, the generated-file checks and the write callback are
  parameters as well; in \<open>Path_Lock\<close> path resolution, while taking a lock file succeeds or fails; in
  \<open>Append_Only_Context\<close> the fingerprint hash and the normalisation of tools.  Similarity scores are exact rationals
  where the code has floating-point numbers, and texts reach the native matcher as the code units the binding
  converts.
  Each theorem with a hypothesis on a parameter is applied to a concrete instance.

  \<^bold>\<open>Bounds and fuel.\<close>  No definition runs on fuel except the repetition of the regular-expression matcher,
  whose bound is the length of the remaining input: an iteration consumes at least one code unit, so it is
  never reached early.  Every other loop is structural or has a termination proof, with two exceptions: the
  prefix stripping loop (\<open>strip_loop\<close>) is a partial function that is proved to return on every line, and the loop
  that replaces fuzzy matches (\<open>replace_loop\<close>) is a partial function because the code has no bound of its own; it
  is proved to return for exact replacements, and the growing case is followed step by step.  Steps of concurrent
  calls are a relation, whose runs are shown to be finite.

  \<^bold>\<open>Not modelled.\<close>  \<open>normalizeUnicode\<close> (Unicode composition tables); the diff and preview text of an edit
  result and notebook conversion; applying diff hunks to a file, with the search for a sequence of lines that it uses
  (\<open>edit/modes/patch.ts\<close>, \<open>seek_sequence\<close>), and the streaming of edits; the vim engine, its commands and its
  renderer; the content checks of the generated-file guard.  The agent loop and session, session storage, model
  providers and authentication, the MCP, LSP and DAP clients, the SDK, browser and shell tools, and the terminal
  user interface are asynchronous I/O around external services and processes, and no part of them is claimed here.
\<close>

end
